(* ===== verification/Prelude.thy ===== *)
theory Prelude
  imports Main "HOL-Library.Word"
begin

text \<open>
  Shared vocabulary of the Kairax development: the machine integer types of
  \<^verbatim>\<open>kernel/kairax/types.h\<close>, the pointer type, the collections of simplification rules the
  components register their facts in, and the generic lemmas on words, arrays and lists
  that several components use.
\<close>

unbundle bit_operations_syntax

type_synonym u8 = "8 word"
type_synonym u16 = "16 word"
type_synonym u32 = "32 word"
type_synonym u64 = "64 word"

text \<open>Pointers are 64-bit addresses; \<open>NULL\<close> is the address 0.\<close>

type_synonym ptr = u64

abbreviation NULL :: ptr where
  "NULL \<equiv> 0"

named_theorems kx_defs \<open>unfolding of the model's operations\<close>
named_theorems kx_inv \<open>preservation of component invariants\<close>
named_theorems kx_frame \<open>fields and cells an operation leaves alone\<close>

subsection \<open>Error numbers of \<^verbatim>\<open>kernel/kairax/errors.h\<close>\<close>

text \<open>A failing call returns the negated error number; return codes are \<open>int\<close> values.\<close>

abbreviation (input) EINTR :: int where "EINTR \<equiv> 4"
abbreviation (input) ENXIO :: int where "ENXIO \<equiv> 6"
abbreviation (input) EAGAIN :: int where "EAGAIN \<equiv> 11"
abbreviation (input) ENOMEM :: int where "ENOMEM \<equiv> 12"
abbreviation (input) EACCES :: int where "EACCES \<equiv> 13"
abbreviation (input) EEXIST :: int where "EEXIST \<equiv> 17"
abbreviation (input) ENODEV :: int where "ENODEV \<equiv> 19"
abbreviation (input) EINVAL :: int where "EINVAL \<equiv> 22"
abbreviation (input) ENOSPC :: int where "ENOSPC \<equiv> 28"
abbreviation (input) EPIPE :: int where "EPIPE \<equiv> 32"
abbreviation (input) ENOSYS :: int where "ENOSYS \<equiv> 38"
abbreviation (input) EILSEQ :: int where "EILSEQ \<equiv> 84"
abbreviation (input) ENOTSUP :: int where "ENOTSUP \<equiv> 95"
abbreviation (input) EADDRINUSE :: int where "EADDRINUSE \<equiv> 98"
abbreviation (input) EADDRNOTAVAIL :: int where "EADDRNOTAVAIL \<equiv> 99"
abbreviation (input) ECONNRESET :: int where "ECONNRESET \<equiv> 104"
abbreviation (input) EISCONN :: int where "EISCONN \<equiv> 106"
abbreviation (input) ENOTCONN :: int where "ENOTCONN \<equiv> 107"
abbreviation (input) ECONNREFUSED :: int where "ECONNREFUSED \<equiv> 111"
abbreviation (input) ENETUNREACH :: int where "ENETUNREACH \<equiv> 113"

subsection \<open>Words as bounded naturals\<close>

lemma unat_add_no_wrap:
  fixes a b :: "'a::len word"
  assumes "unat a + unat b < 2 ^ LENGTH('a)"
  shows "unat (a + b) = unat a + unat b"
  using assms by (simp add: unat_word_ariths)

lemma unat_of_nat_small [simp]:
  "n < 2 ^ LENGTH('a) \<Longrightarrow> unat (of_nat n :: 'a::len word) = n"
  by (simp add: unat_of_nat)

lemma unat_u64_lt: "unat (w :: u64) < 2 ^ 64"
  using unsigned_less [of w, where ?'a = nat] by simp

lemma unat_u64_minus_1: "unat (- 1 :: u64) = 2 ^ 64 - 1"
  by (simp add: unsigned_minus_1_eq_mask mask_eq_exp_minus_1)

lemma unat_sub_both_ways:
  fixes a b :: u64
  assumes "a \<noteq> b"
  shows "unat (a - b) + unat (b - a) = 2 ^ 64"
proof -
  have "unat a \<noteq> unat b" using assms by (simp add: word_unat_eq_iff)
  then show ?thesis using unat_u64_lt [of a] unat_u64_lt [of b]
    by (simp add: unat_sub_if')
qed

lemma sint_small:
  fixes w :: "'a::len word"
  assumes "unat w < 2 ^ (LENGTH('a) - 1)"
  shows "sint w = int (unat w)"
proof -
  have "int (unat w) < 2 ^ (LENGTH('a) - 1)"
    using assms of_nat_less_iff [of "unat w" "2 ^ (LENGTH('a) - 1)", where ?'a = int] by simp
  then have "signed_take_bit (LENGTH('a) - 1) (int (unat w)) = int (unat w)"
    using order_trans [OF _ of_nat_0_le_iff [of "unat w"], of "- (2 ^ (LENGTH('a) - 1)) :: int"]
    by (intro signed_take_bit_int_eq_self) (simp_all del: of_nat_unat)
  then show ?thesis by (simp add: sint_uint)
qed

lemma unat_mult_no_wrap:
  fixes a b :: "'a::len word"
  assumes "unat a * unat b < 2 ^ LENGTH('a)"
  shows "unat (a * b) = unat a * unat b"
  using assms by (simp add: unat_word_ariths(2))

lemma scast_small: "unat (w :: u32) < 2 ^ 31 \<Longrightarrow> unat (scast w :: u64) = unat w"
proof -
  assume w: "unat w < 2 ^ 31"
  then have "sint w = int (unat w)" by (intro sint_small) simp
  moreover have "scast w = (word_of_int (sint w) :: u64)" by simp
  ultimately have "scast w = (of_nat (unat w) :: u64)" by (simp only: of_int_of_nat_eq)
  then show ?thesis using w by (simp only: unat_of_nat_small) (subst unat_of_nat_small, simp_all)
qed

lemma find_split:
  assumes "find P ns = Some x"
  obtains ls rs where "ns = ls @ x # rs" and "P x" and "\<And>y. y \<in> set ls \<Longrightarrow> \<not> P y"
  using assms
proof (induction ns arbitrary: thesis)
  case (Cons y ns)
  show ?case
  proof (cases "P y")
    case True
    with Cons.prems show ?thesis by (auto intro: Cons.prems(1) [of "[]"])
  next
    case False
    with Cons.prems(2) obtain ls rs where "ns = ls @ x # rs" "P x" "\<And>z. z \<in> set ls \<Longrightarrow> \<not> P z"
      using Cons.IH by auto
    with False show ?thesis
      by (intro Cons.prems(1) [of "y # ls" rs]) auto
  qed
qed simp

end
