(* ===== verification/Dll.thy ===== *)
theory Dll
  imports Prelude
begin

text \<open>
  Doubly linked chains of cells, as the kernel builds them in \<^verbatim>\<open>kairax/list/list.c\<close>, in the run
  queues of \<^verbatim>\<open>proc/thread_scheduler.c\<close> and in the heap of \<^verbatim>\<open>mem/kheap.c\<close>. A chain is described
  by two link functions (the \<open>next\<close> and \<open>prev\<close> fields of the cells); the lemmas say how
  appending a cell at the tail and unlinking a cell change the sequence of cells.
\<close>

subsection \<open>Segments\<close>

definition first_or :: "'a \<Rightarrow> 'a list \<Rightarrow> 'a" where
  "first_or n xs = (case xs of [] \<Rightarrow> n | y # _ \<Rightarrow> y)"

definition last_or :: "'a \<Rightarrow> 'a list \<Rightarrow> 'a" where
  "last_or p xs = (if xs = [] then p else last xs)"

lemma first_or_simps [simp]:
  "first_or n [] = n"
  "first_or n (x # xs) = x"
  by (simp_all add: first_or_def)

lemma last_or_simps [simp]:
  "last_or p [] = p"
  "last_or p (xs @ [x]) = x"
  "last_or p (x # xs) = last_or x xs"
  by (simp_all add: last_or_def)

lemma first_or_append [simp]: "first_or n (xs @ ys) = first_or (first_or n ys) xs"
  by (cases xs) simp_all

lemma last_or_append [simp]: "last_or p (xs @ ys) = last_or (last_or p xs) ys"
  by (cases ys) (auto simp: last_or_def)

lemma first_or_in: "xs \<noteq> [] \<Longrightarrow> first_or n xs \<in> set xs"
  by (cases xs) simp_all

lemma last_or_in: "xs \<noteq> [] \<Longrightarrow> last_or p xs \<in> set xs"
  by (simp add: last_or_def)

lemma last_or_nonempty: "xs \<noteq> [] \<Longrightarrow> last_or p xs = last xs"
  by (simp add: last_or_def)

text \<open>
  \<open>dseg nx pv p xs n\<close>: the cells \<open>xs\<close> are linked in this order, the first one points back to
  \<open>p\<close> and the last one points forward to \<open>n\<close>.
\<close>

fun dseg :: "('a \<Rightarrow> 'a) \<Rightarrow> ('a \<Rightarrow> 'a) \<Rightarrow> 'a \<Rightarrow> 'a list \<Rightarrow> 'a \<Rightarrow> bool" where
  "dseg nx pv p [] n = True"
| "dseg nx pv p (x # xs) n = (pv x = p \<and> nx x = first_or n xs \<and> dseg nx pv x xs n)"

lemma dseg_append [simp]:
  "dseg nx pv p (xs @ ys) n =
     (dseg nx pv p xs (first_or n ys) \<and> dseg nx pv (last_or p xs) ys n)"
  by (induction xs arbitrary: p) auto

text \<open>Cells outside the segment do not matter.\<close>

lemma dseg_cong:
  assumes "\<And>x. x \<in> set xs \<Longrightarrow> nx x = nx' x" and "\<And>x. x \<in> set xs \<Longrightarrow> pv x = pv' x"
  shows "dseg nx pv p xs n = dseg nx' pv' p xs n"
  using assms by (induction xs arbitrary: p) auto

lemma dseg_upd_next [simp]:
  "u \<notin> set xs \<Longrightarrow> dseg (nx(u := v)) pv p xs n = dseg nx pv p xs n"
  by (rule dseg_cong) auto

lemma dseg_upd_prev [simp]:
  "u \<notin> set xs \<Longrightarrow> dseg nx (pv(u := v)) p xs n = dseg nx pv p xs n"
  by (rule dseg_cong) auto

text \<open>Redirecting the two ends of a segment.\<close>

lemma dseg_set_last_next:
  assumes "dseg nx pv p (xs @ [x]) n" and "x \<notin> set xs"
  shows "dseg (nx(x := m)) pv p (xs @ [x]) m"
  using assms by simp

lemma dseg_set_first_prev:
  assumes "dseg nx pv p (x # xs) n" and "x \<notin> set xs"
  shows "dseg nx (pv(x := q)) q (x # xs) n"
  using assms by simp

subsection \<open>Whole chains\<close>

text \<open>
  A chain starts at the head pointer and ends at the tail pointer; \<open>z\<close> is the null cell that
  marks both ends. No cell occurs twice.
\<close>

definition chain :: "'a \<Rightarrow> ('a \<Rightarrow> 'a) \<Rightarrow> ('a \<Rightarrow> 'a) \<Rightarrow> 'a \<Rightarrow> 'a \<Rightarrow> 'a list \<Rightarrow> bool" where
  "chain z nx pv h t xs \<longleftrightarrow>
     dseg nx pv z xs z \<and> h = first_or z xs \<and> t = last_or z xs \<and> distinct xs \<and> z \<notin> set xs"

lemma chain_empty_iff: "chain z nx pv z t xs \<longleftrightarrow> xs = [] \<and> t = z"
  by (cases xs) (auto simp: chain_def)

lemma chain_head_null: "chain z nx pv h t xs \<Longrightarrow> h = z \<longleftrightarrow> xs = []"
  by (cases xs) (auto simp: chain_def)

lemma chain_tail_null: "chain z nx pv h t xs \<Longrightarrow> t = z \<longleftrightarrow> xs = []"
  by (cases xs rule: rev_cases) (auto simp: chain_def)

lemma chain_tail_in: "chain z nx pv h t xs \<Longrightarrow> xs \<noteq> [] \<Longrightarrow> t \<in> set xs"
  by (simp add: chain_def last_or_in)

lemma chain_head_in: "chain z nx pv h t xs \<Longrightarrow> xs \<noteq> [] \<Longrightarrow> h \<in> set xs"
  by (simp add: chain_def first_or_in)

lemma chain_cong:
  assumes "\<And>x. x \<in> set xs \<Longrightarrow> nx x = nx' x" and "\<And>x. x \<in> set xs \<Longrightarrow> pv x = pv' x"
  shows "chain z nx pv h t xs = chain z nx' pv' h t xs"
  using dseg_cong [of xs nx nx' pv pv'] assms by (simp add: chain_def)

text \<open>Two descriptions of one chain agree: the cells are determined by the links.\<close>

lemma dseg_unique:
  assumes "dseg nx pv p xs z" and "dseg nx pv p ys z" and "first_or z xs = first_or z ys"
    and "z \<notin> set xs" and "z \<notin> set ys"
  shows "xs = ys"
  using assms
proof (induction xs arbitrary: ys p)
  case Nil
  then show ?case by (cases ys) auto
next
  case (Cons x xs)
  then obtain ys' where ys: "ys = x # ys'"
    by (cases ys) auto
  with Cons.prems have "xs = ys'"
    by (intro Cons.IH [of x]) auto
  with ys show ?case by simp
qed

lemma chain_unique: "chain z nx pv h t xs \<Longrightarrow> chain z nx pv h t' ys \<Longrightarrow> xs = ys"
  by (auto simp: chain_def intro: dseg_unique)

text \<open>Appending a fresh cell behind the tail.\<close>

lemma chain_snoc:
  assumes "chain z nx pv h t xs" and "x \<notin> set xs" and "x \<noteq> z"
    and "nx' x = z" and "pv' x = last_or z xs"
    and "\<And>y. y \<in> set xs \<Longrightarrow> y \<noteq> t \<Longrightarrow> nx' y = nx y"
    and "xs \<noteq> [] \<Longrightarrow> nx' t = x"
    and "\<And>y. y \<in> set xs \<Longrightarrow> pv' y = pv y"
  shows "chain z nx' pv' (if h = z then x else h) x (xs @ [x])"
proof (cases xs rule: rev_cases)
  case Nil
  with assms show ?thesis by (simp add: chain_def)
next
  case (snoc ys y)
  have "dseg nx' pv' z ys y"
    using assms snoc by (subst dseg_cong [of ys nx' nx pv' pv]) (auto simp: chain_def)
  with assms snoc show ?thesis
    by (cases ys) (auto simp: chain_def)
qed

text \<open>Unlinking a cell: its neighbours are joined, head and tail move if it was at an end.\<close>

lemma chain_unlink:
  assumes ch: "chain z nx pv h t (ls @ x # rs)"
    and nx': "\<And>y. y \<in> set (ls @ rs) \<Longrightarrow>
       nx' y = (if y = last_or z ls then first_or z rs else nx y)"
    and pv': "\<And>y. y \<in> set (ls @ rs) \<Longrightarrow>
       pv' y = (if y = first_or z rs then last_or z ls else pv y)"
  shows "chain z nx' pv' (if h = x then nx x else h) (if t = x then pv x else t) (ls @ rs)"
proof -
  have dist: "distinct (ls @ x # rs)" "z \<notin> set (ls @ x # rs)"
    and seg: "dseg nx pv z ls x" "dseg nx pv x rs z"
    and x: "nx x = first_or z rs" "pv x = last_or z ls"
    using ch by (auto simp: chain_def)
  have front: "dseg nx' pv' z ls (first_or z rs)"
  proof (cases ls rule: rev_cases)
    case (snoc ys y)
    have "first_or z rs \<notin> set ls"
      using dist by (cases rs) auto
    then have "dseg nx' pv' z ys y"
      using seg(1) dist snoc nx' pv'
      by (subst dseg_cong [of ys nx' nx pv' pv]) auto
    with seg(1) dist snoc nx' pv' \<open>first_or z rs \<notin> set ls\<close> show ?thesis by auto
  qed simp
  have rear: "dseg nx' pv' (last_or z ls) rs z"
  proof (cases rs)
    case (Cons y ys)
    have "last_or z ls \<notin> set rs"
      using dist by (cases ls rule: rev_cases) auto
    then have "dseg nx' pv' y ys z"
      using seg(2) dist Cons nx' pv'
      by (subst dseg_cong [of ys nx' nx pv' pv]) auto
    with seg(2) dist Cons nx' pv' \<open>last_or z ls \<notin> set rs\<close> show ?thesis by auto
  qed simp
  have "(if h = x then nx x else h) = first_or z (ls @ rs)"
    using ch dist x by (cases ls) (auto simp: chain_def)
  moreover have "(if t = x then pv x else t) = last_or z (ls @ rs)"
    using ch dist x by (cases rs rule: rev_cases) (auto simp: chain_def)
  ultimately show ?thesis
    using front rear dist by (auto simp: chain_def)
qed

text \<open>Links of one cell in the middle of a chain.\<close>

lemma chain_links:
  assumes "chain z nx pv h t (ls @ x # rs)"
  shows "nx x = first_or z rs" and "pv x = last_or z ls"
    and "x \<noteq> z" and "x \<notin> set ls" and "x \<notin> set rs" and "z \<notin> set ls" and "z \<notin> set rs"
    and "set ls \<inter> set rs = {}"
  using assms by (auto simp: chain_def)

lemma chain_next_in:
  assumes "chain z nx pv h t xs" and "x \<in> set xs"
  shows "nx x = z \<or> nx x \<in> set xs"
proof -
  obtain ls rs where "xs = ls @ x # rs"
    using assms(2) by (meson split_list)
  with assms(1) show ?thesis
    by (cases rs) (auto simp: chain_def)
qed

lemma chain_prev_in:
  assumes "chain z nx pv h t xs" and "x \<in> set xs"
  shows "pv x = z \<or> pv x \<in> set xs"
proof -
  obtain ls rs where "xs = ls @ x # rs"
    using assms(2) by (meson split_list)
  with assms(1) show ?thesis
    by (cases ls rule: rev_cases) (auto simp: chain_def)
qed

end
