(* ===== verification/Klist.thy ===== *)
theory Klist
  imports Dll "HOL-Library.Monad_Syntax"
begin

text \<open>
  The kernel's doubly linked list, \<^verbatim>\<open>kernel/kairax/list/list.c\<close>. List headers and list nodes live
  in memory cells indexed by their address; an operation that follows a null or dangling
  pointer has no result (\<open>None\<close>), so a theorem that an operation returns \<open>Some\<close> says that it
  does not fault. The address \<open>kmalloc\<close> hands out is an argument of the operations that
  allocate; \<open>kfree\<close> removes the cell.
\<close>

subsection \<open>Data: \<^verbatim>\<open>list.h\<close>\<close>

record list_node =
  ln_element :: ptr
  ln_next :: ptr
  ln_prev :: ptr

record list_t =
  l_size :: u64
  l_head :: ptr
  l_tail :: ptr

record lmem =
  lm_lists :: "ptr \<rightharpoonup> list_t"
  lm_nodes :: "ptr \<rightharpoonup> list_node"

subsection \<open>Memory access\<close>

definition get_list :: "ptr \<Rightarrow> lmem \<Rightarrow> list_t option" where
  "get_list l m = (if l = NULL then None else lm_lists m l)"

definition put_list :: "ptr \<Rightarrow> list_t \<Rightarrow> lmem \<Rightarrow> lmem" where
  "put_list l li m = m\<lparr>lm_lists := (lm_lists m)(l \<mapsto> li)\<rparr>"

definition get_node :: "ptr \<Rightarrow> lmem \<Rightarrow> list_node option" where
  "get_node p m = (if p = NULL then None else lm_nodes m p)"

definition put_node :: "ptr \<Rightarrow> list_node \<Rightarrow> lmem \<Rightarrow> lmem" where
  "put_node p nd m = m\<lparr>lm_nodes := (lm_nodes m)(p \<mapsto> nd)\<rparr>"

definition set_next :: "ptr \<Rightarrow> ptr \<Rightarrow> lmem \<Rightarrow> lmem option" where
  "set_next p v m = do { nd \<leftarrow> get_node p m; Some (put_node p (nd\<lparr>ln_next := v\<rparr>) m) }"

definition set_prev :: "ptr \<Rightarrow> ptr \<Rightarrow> lmem \<Rightarrow> lmem option" where
  "set_prev p v m = do { nd \<leftarrow> get_node p m; Some (put_node p (nd\<lparr>ln_prev := v\<rparr>) m) }"

definition kfree_node :: "ptr \<Rightarrow> lmem \<Rightarrow> lmem" where
  "kfree_node p m = m\<lparr>lm_nodes := (lm_nodes m)(p := None)\<rparr>"

definition kfree_list :: "ptr \<Rightarrow> lmem \<Rightarrow> lmem" where
  "kfree_list p m = m\<lparr>lm_lists := (lm_lists m)(p := None)\<rparr>"

subsection \<open>Operations: \<^verbatim>\<open>list.c\<close>\<close>

definition create_list :: "ptr \<Rightarrow> lmem \<Rightarrow> (ptr \<times> lmem) option" where
  "create_list result m =
     (if result = NULL then None
      else Some (result, put_list result \<lparr>l_size = 0, l_head = NULL, l_tail = NULL\<rparr> m))"

fun list_clear_loop :: "nat \<Rightarrow> ptr \<Rightarrow> lmem \<Rightarrow> lmem option" where
  "list_clear_loop 0 current m = Some m"
| "list_clear_loop (Suc n) current m =
     (if current \<noteq> NULL
      then do {
        nd \<leftarrow> get_node current m;
        list_clear_loop n (ln_next nd) (kfree_node current m)
      }
      else list_clear_loop n current m)"

definition list_clear :: "ptr \<Rightarrow> lmem \<Rightarrow> lmem option" where
  "list_clear l m = do {
     li \<leftarrow> get_list l m;
     list_clear_loop (unat (l_size li)) (l_head li)
       (put_list l (li\<lparr>l_head := NULL, l_tail := NULL\<rparr>) m)
   }"

definition free_list :: "ptr \<Rightarrow> lmem \<Rightarrow> lmem option" where
  "free_list l m = do { m \<leftarrow> list_clear l m; Some (kfree_list l m) }"

definition list_size :: "ptr \<Rightarrow> lmem \<Rightarrow> u64 option" where
  "list_size l m = do { li \<leftarrow> get_list l m; Some (l_size li) }"

definition list_add :: "ptr \<Rightarrow> ptr \<Rightarrow> ptr \<Rightarrow> lmem \<Rightarrow> lmem option" where
  "list_add new_node l element m =
     (if new_node = NULL then None
      else do {
        let m = put_node new_node \<lparr>ln_element = element, ln_next = NULL, ln_prev = NULL\<rparr> m;
        li \<leftarrow> get_list l m;
        m \<leftarrow> (if l_head li = NULL
             then Some (put_list l (li\<lparr>l_head := new_node\<rparr>) m)
             else do {
               m \<leftarrow> set_next (l_tail li) new_node m;
               set_prev new_node (l_tail li) m
             });
        li \<leftarrow> get_list l m;
        Some (put_list l (li\<lparr>l_tail := new_node, l_size := l_size li + 1\<rparr>) m)
      })"

fun list_get_node_loop :: "nat \<Rightarrow> ptr \<Rightarrow> ptr \<Rightarrow> lmem \<Rightarrow> ptr option" where
  "list_get_node_loop 0 current element m = Some NULL"
| "list_get_node_loop (Suc n) current element m = do {
     nd \<leftarrow> get_node current m;
     if ln_element nd = element then Some current
     else list_get_node_loop n (ln_next nd) element m
   }"

definition list_get_node :: "ptr \<Rightarrow> ptr \<Rightarrow> lmem \<Rightarrow> ptr option" where
  "list_get_node l element m =
     (if l = NULL then Some NULL
      else do {
        li \<leftarrow> get_list l m;
        list_get_node_loop (unat (l_size li)) (l_head li) element m
      })"

definition list_unlink :: "ptr \<Rightarrow> ptr \<Rightarrow> lmem \<Rightarrow> lmem option" where
  "list_unlink l node m = do {
     nd \<leftarrow> get_node node m;
     let prev = ln_prev nd;
     let next = ln_next nd;
     m \<leftarrow> (if prev \<noteq> NULL then set_next prev next m else Some m);
     m \<leftarrow> (if next \<noteq> NULL then set_prev next prev m else Some m);
     li \<leftarrow> get_list l m;
     m \<leftarrow> (if l_head li = node
          then let m = put_list l (li\<lparr>l_head := next\<rparr>) m
               in (if next \<noteq> NULL then set_prev next NULL m else Some m)
          else Some m);
     li \<leftarrow> get_list l m;
     m \<leftarrow> (if l_tail li = node
          then let m = put_list l (li\<lparr>l_tail := prev\<rparr>) m
               in (if prev \<noteq> NULL then set_next prev NULL m else Some m)
          else Some m);
     li \<leftarrow> get_list l m;
     Some (put_list l (li\<lparr>l_size := l_size li - 1\<rparr>) m)
   }"

definition list_remove :: "ptr \<Rightarrow> ptr \<Rightarrow> lmem \<Rightarrow> lmem option" where
  "list_remove l element m = do {
     node \<leftarrow> list_get_node l element m;
     if node \<noteq> NULL
     then do { m \<leftarrow> list_unlink l node m; Some (kfree_node node m) }
     else Some m
   }"

definition list_dequeue :: "ptr \<Rightarrow> lmem \<Rightarrow> (ptr \<times> lmem) option" where
  "list_dequeue l m =
     (if l = NULL then Some (NULL, m)
      else do {
        li \<leftarrow> get_list l m;
        if l_head li = NULL then Some (NULL, m)
        else do {
          let node = l_head li;
          nd \<leftarrow> get_node node m;
          m \<leftarrow> list_unlink l node m;
          Some (ln_element nd, kfree_node node m)
        }
      })"

definition list_pop :: "ptr \<Rightarrow> lmem \<Rightarrow> (ptr \<times> lmem) option" where
  "list_pop l m =
     (if l = NULL then Some (NULL, m)
      else do {
        li \<leftarrow> get_list l m;
        if l_tail li = NULL then Some (NULL, m)
        else do {
          let node = l_tail li;
          nd \<leftarrow> get_node node m;
          m \<leftarrow> list_unlink l node m;
          Some (ln_element nd, kfree_node node m)
        }
      })"

fun list_get_loop :: "nat \<Rightarrow> ptr \<Rightarrow> lmem \<Rightarrow> ptr option" where
  "list_get_loop 0 current m = do { nd \<leftarrow> get_node current m; Some (ln_element nd) }"
| "list_get_loop (Suc n) current m = do {
     nd \<leftarrow> get_node current m;
     if ln_next nd \<noteq> NULL then list_get_loop n (ln_next nd) m else Some NULL
   }"

definition list_get :: "ptr \<Rightarrow> u64 \<Rightarrow> lmem \<Rightarrow> ptr option" where
  "list_get l index m =
     (if l = NULL then Some NULL
      else do {
        li \<leftarrow> get_list l m;
        if index \<ge> l_size li then Some NULL
        else list_get_loop (unat index) (l_head li) m
      })"

definition list_head :: "ptr \<Rightarrow> lmem \<Rightarrow> ptr option" where
  "list_head l m =
     (if l = NULL then Some NULL
      else do {
        li \<leftarrow> get_list l m;
        if l_head li = NULL then Some NULL
        else do { nd \<leftarrow> get_node (l_head li) m; Some (ln_element nd) }
      })"

definition list_tail :: "ptr \<Rightarrow> lmem \<Rightarrow> ptr option" where
  "list_tail l m = do {
     li \<leftarrow> get_list l m;
     if l_tail li = NULL then Some NULL
     else do { nd \<leftarrow> get_node (l_tail li) m; Some (ln_element nd) }
   }"

subsection \<open>Representation of an abstract list\<close>

definition node_next :: "lmem \<Rightarrow> ptr \<Rightarrow> ptr" where
  "node_next m p = (case lm_nodes m p of None \<Rightarrow> NULL | Some nd \<Rightarrow> ln_next nd)"

definition node_prev :: "lmem \<Rightarrow> ptr \<Rightarrow> ptr" where
  "node_prev m p = (case lm_nodes m p of None \<Rightarrow> NULL | Some nd \<Rightarrow> ln_prev nd)"

definition node_elem :: "lmem \<Rightarrow> ptr \<Rightarrow> ptr" where
  "node_elem m p = (case lm_nodes m p of None \<Rightarrow> NULL | Some nd \<Rightarrow> ln_element nd)"

text \<open>
  \<open>list_rep m l ns xs\<close>: the header at \<open>l\<close> heads a well-linked chain of the nodes \<open>ns\<close>, whose
  elements are \<open>xs\<close>.
\<close>

definition list_rep :: "lmem \<Rightarrow> ptr \<Rightarrow> ptr list \<Rightarrow> ptr list \<Rightarrow> bool" where
  "list_rep m l ns xs \<longleftrightarrow>
     l \<noteq> NULL \<and>
     (\<exists>li. lm_lists m l = Some li \<and>
           chain NULL (node_next m) (node_prev m) (l_head li) (l_tail li) ns \<and>
           l_size li = of_nat (length ns)) \<and>
     set ns \<subseteq> dom (lm_nodes m) \<and>
     xs = map (node_elem m) ns"

text \<open>What an operation on the list \<open>l\<close> with nodes \<open>ns\<close> may touch.\<close>

definition list_frame :: "ptr \<Rightarrow> ptr set \<Rightarrow> lmem \<Rightarrow> lmem \<Rightarrow> bool" where
  "list_frame l ns m m' \<longleftrightarrow>
     (\<forall>l'. l' \<noteq> l \<longrightarrow> lm_lists m' l' = lm_lists m l') \<and>
     (\<forall>p. p \<notin> ns \<longrightarrow> lm_nodes m' p = lm_nodes m p)"

lemmas access_defs = get_list_def put_list_def get_node_def put_node_def set_next_def
  set_prev_def kfree_node_def kfree_list_def

lemma node_fields_lists [simp]:
  "node_next (m\<lparr>lm_lists := f\<rparr>) = node_next m"
  "node_prev (m\<lparr>lm_lists := f\<rparr>) = node_prev m"
  "node_elem (m\<lparr>lm_lists := f\<rparr>) = node_elem m"
  by (simp_all add: node_next_def node_prev_def node_elem_def fun_eq_iff)

lemma distinct_ptrs_length:
  fixes ns :: "'a::len word list"
  assumes "distinct ns" and "0 \<notin> set ns"
  shows "length ns < 2 ^ LENGTH('a)"
proof -
  have "length (0 # ns) = card (set (0 # ns))"
    using assms by (simp add: distinct_card)
  also have "\<dots> \<le> card (UNIV :: 'a word set)"
    by (rule card_mono) simp_all
  finally show ?thesis
    by (simp add: card_word)
qed

lemma list_rep_length:
  assumes "list_rep m l ns xs"
  shows "length ns < 2 ^ 64" and "length xs = length ns"
  using assms distinct_ptrs_length [of ns] by (auto simp: list_rep_def chain_def)

lemma list_repE:
  assumes "list_rep m l ns xs"
  obtains li where "l \<noteq> NULL" and "lm_lists m l = Some li" and "get_list l m = Some li"
    and "chain NULL (node_next m) (node_prev m) (l_head li) (l_tail li) ns"
    and "unat (l_size li) = length ns"
    and "set ns \<subseteq> dom (lm_nodes m)" and "xs = map (node_elem m) ns"
  using assms list_rep_length [OF assms] by (auto simp: list_rep_def get_list_def)

lemma list_rep_size:
  "list_rep m l ns xs \<Longrightarrow> lm_lists m l = Some li \<Longrightarrow> l_size li = of_nat (length ns)"
  by (auto simp: list_rep_def)

lemma get_node_in:
  assumes "p \<in> set ns" and "set ns \<subseteq> dom (lm_nodes m)" and "NULL \<notin> set ns"
  shows "\<exists>nd. get_node p m = Some nd \<and> lm_nodes m p = Some nd \<and> ln_next nd = node_next m p \<and>
              ln_prev nd = node_prev m p \<and> ln_element nd = node_elem m p"
proof -
  obtain nd where "lm_nodes m p = Some nd" using assms by blast
  moreover have "p \<noteq> NULL" using assms by blast
  ultimately show ?thesis
    by (simp add: get_node_def node_next_def node_prev_def node_elem_def)
qed

subsection \<open>Traversals\<close>

lemma list_get_node_loop_seg:
  assumes "dseg (node_next m) (node_prev m) p ns NULL" and "set ns \<subseteq> dom (lm_nodes m)"
    and "NULL \<notin> set ns"
  shows "list_get_node_loop (length ns) (first_or NULL ns) e m =
     Some (case find (\<lambda>q. node_elem m q = e) ns of None \<Rightarrow> NULL | Some q \<Rightarrow> q)"
  using assms
proof (induction ns arbitrary: p)
  case (Cons x ns)
  obtain nd where nd: "get_node x m = Some nd" "ln_next nd = node_next m x"
    "ln_element nd = node_elem m x"
    using get_node_in [of x "x # ns" m] Cons.prems by auto
  show ?case
    using Cons.IH [of x] Cons.prems nd by simp
qed simp

lemma list_get_node_rep:
  assumes "list_rep m l ns xs"
  shows "list_get_node l e m =
     Some (case find (\<lambda>q. node_elem m q = e) ns of None \<Rightarrow> NULL | Some q \<Rightarrow> q)"
proof -
  obtain li where "l \<noteq> NULL" "get_list l m = Some li" "unat (l_size li) = length ns"
    "chain NULL (node_next m) (node_prev m) (l_head li) (l_tail li) ns"
    "set ns \<subseteq> dom (lm_nodes m)"
    using assms by (elim list_repE) blast
  then show ?thesis
    using list_get_node_loop_seg [of m NULL ns e] by (simp add: list_get_node_def chain_def)
qed

lemma list_get_loop_seg:
  assumes "dseg (node_next m) (node_prev m) p ns NULL" and "set ns \<subseteq> dom (lm_nodes m)"
    and "NULL \<notin> set ns" and "i < length ns"
  shows "list_get_loop i (first_or NULL ns) m = Some (node_elem m (ns ! i))"
  using assms
proof (induction ns arbitrary: p i)
  case (Cons x ns)
  obtain nd where nd: "get_node x m = Some nd" "ln_next nd = node_next m x"
    "ln_element nd = node_elem m x"
    using get_node_in [of x "x # ns" m] Cons.prems by auto
  show ?case
  proof (cases i)
    case 0
    with nd show ?thesis by simp
  next
    case (Suc j)
    with Cons.prems have "ns \<noteq> []" and "first_or NULL ns \<noteq> NULL"
      by (cases ns; auto)+
    with Suc nd Cons.prems Cons.IH [of x j] show ?thesis by simp
  qed
qed simp

lemma list_get_rep:
  assumes rep: "list_rep m l ns xs"
  shows "list_get l i m = Some (if unat i < length xs then xs ! unat i else NULL)"
proof -
  obtain li where li: "l \<noteq> NULL" "get_list l m = Some li" "unat (l_size li) = length ns"
    "chain NULL (node_next m) (node_prev m) (l_head li) (l_tail li) ns"
    "set ns \<subseteq> dom (lm_nodes m)" "xs = map (node_elem m) ns"
    using rep by (elim list_repE) blast
  have "l_size li \<le> i \<longleftrightarrow> length xs \<le> unat i"
    using li by (simp add: word_le_nat_alt)
  then show ?thesis
    using li list_get_loop_seg [of m NULL ns "unat i"]
    by (auto simp: list_get_def chain_def)
qed

lemma list_head_rep:
  assumes "list_rep m l ns xs"
  shows "list_head l m = Some (first_or NULL xs)"
proof -
  obtain li where li: "l \<noteq> NULL" "get_list l m = Some li"
    "chain NULL (node_next m) (node_prev m) (l_head li) (l_tail li) ns"
    "set ns \<subseteq> dom (lm_nodes m)" "xs = map (node_elem m) ns"
    using assms by (elim list_repE) blast
  show ?thesis
  proof (cases ns)
    case Nil
    with li show ?thesis by (simp add: list_head_def chain_def)
  next
    case (Cons x ns')
    with li get_node_in [of x ns m] show ?thesis
      by (auto simp: list_head_def chain_def)
  qed
qed

lemma list_tail_rep:
  assumes "list_rep m l ns xs"
  shows "list_tail l m = Some (last_or NULL xs)"
proof -
  obtain li where li: "l \<noteq> NULL" "get_list l m = Some li"
    "chain NULL (node_next m) (node_prev m) (l_head li) (l_tail li) ns"
    "set ns \<subseteq> dom (lm_nodes m)" "xs = map (node_elem m) ns"
    using assms by (elim list_repE) blast
  show ?thesis
  proof (cases ns rule: rev_cases)
    case Nil
    with li show ?thesis by (simp add: list_tail_def chain_def)
  next
    case (snoc ns' x)
    with li get_node_in [of x ns m] show ?thesis
      by (auto simp: list_tail_def chain_def)
  qed
qed

subsection \<open>Linking and unlinking\<close>

lemma list_add_rep:
  assumes rep: "list_rep m l ns xs" and nd: "nd \<noteq> NULL" "lm_nodes m nd = None"
  obtains m' where "list_add nd l e m = Some m'" and "list_rep m' l (ns @ [nd]) (xs @ [e])"
    and "list_frame l (set (ns @ [nd])) m m'"
proof -
  obtain li where li: "l \<noteq> NULL" "lm_lists m l = Some li"
    "chain NULL (node_next m) (node_prev m) (l_head li) (l_tail li) ns"
    "set ns \<subseteq> dom (lm_nodes m)" "xs = map (node_elem m) ns"
    using rep by (elim list_repE) blast
  have fresh: "nd \<notin> set ns" using li(4) nd(2) by auto
  note chain = li(3)
  define tl where "tl = l_tail li"
  define new where "new = \<lparr>ln_element = e, ln_next = NULL, ln_prev = last_or NULL ns\<rparr>"
  define nodes where "nodes = (if ns = [] then (lm_nodes m)(nd \<mapsto> new)
     else (lm_nodes m)(tl \<mapsto> (the (lm_nodes m tl))\<lparr>ln_next := nd\<rparr>, nd \<mapsto> new))"
  define m' where "m' = m\<lparr>lm_lists := (lm_lists m)(l \<mapsto> li\<lparr>l_head := if l_head li = NULL then nd
       else l_head li, l_tail := nd, l_size := l_size li + 1\<rparr>), lm_nodes := nodes\<rparr>"
  have tl: "ns \<noteq> [] \<Longrightarrow> tl \<in> set ns \<and> tl \<noteq> NULL \<and> tl \<noteq> nd \<and> tl = last_or NULL ns"
    using chain fresh last_or_in [of ns NULL] by (auto simp: chain_def tl_def)
  have tl_node: "ns \<noteq> [] \<Longrightarrow> \<exists>t. lm_nodes m tl = Some t"
    using tl li(4) by blast
  have run: "list_add nd l e m = Some m'"
  proof (cases "ns = []")
    case True
    then have "l_head li = NULL" "l_tail li = NULL" using chain by (auto simp: chain_def)
    with True li nd show ?thesis
      by (simp add: list_add_def access_defs m'_def nodes_def new_def)
  next
    case False
    then have "l_head li \<noteq> NULL" using chain_head_null [OF chain] by simp
    moreover obtain t where "lm_nodes m tl = Some t" using tl_node [OF False] by blast
    ultimately show ?thesis
      using False li nd tl [OF False]
      by (auto simp: list_add_def access_defs m'_def nodes_def new_def tl_def)
  qed
  have at: "lm_nodes m' p = (if p = nd then Some new else if ns \<noteq> [] \<and> p = tl
      then Some ((the (lm_nodes m tl))\<lparr>ln_next := nd\<rparr>) else lm_nodes m p)" for p
    by (simp add: m'_def nodes_def)
  have links: "node_next m' p = (if p = nd then NULL else if ns \<noteq> [] \<and> p = tl then nd else node_next m p)"
    "node_prev m' p = (if p = nd then last_or NULL ns else node_prev m p)"
    "node_elem m' p = (if p = nd then e else node_elem m p)" for p
    using tl_node by (auto simp: node_next_def node_prev_def node_elem_def at new_def)
  have "chain NULL (node_next m') (node_prev m') (if l_head li = NULL then nd else l_head li) nd (ns @ [nd])"
    by (rule chain_snoc [OF chain fresh nd(1)]) (use tl fresh in \<open>auto simp: links tl_def\<close>)
  moreover have "set (ns @ [nd]) \<subseteq> dom (lm_nodes m')"
    using li(4) by (auto simp: m'_def nodes_def)
  moreover have "map (node_elem m') (ns @ [nd]) = xs @ [e]"
    using li(5) fresh by (auto simp: links)
  ultimately have "list_rep m' l (ns @ [nd]) (xs @ [e])"
    using li list_rep_size [OF rep li(2)] by (auto simp: list_rep_def m'_def)
  moreover have "list_frame l (set (ns @ [nd])) m m'"
    using tl by (auto simp: list_frame_def m'_def nodes_def)
  ultimately show ?thesis using that run by blast
qed

lemma list_unlink_eq:
  assumes ch: "chain NULL (node_next m) (node_prev m) (l_head li) (l_tail li) (ls @ x # rs)"
    and li: "l \<noteq> NULL" "lm_lists m l = Some li"
    and dom: "set (ls @ x # rs) \<subseteq> dom (lm_nodes m)"
  shows "\<exists>m'. list_unlink l x m = Some m' \<and>
     lm_lists m' = (lm_lists m)(l \<mapsto> li\<lparr>l_head := if l_head li = x then first_or NULL rs else l_head li,
       l_tail := if l_tail li = x then last_or NULL ls else l_tail li, l_size := l_size li - 1\<rparr>) \<and>
     (\<forall>q \<in> set (ls @ rs). node_next m' q = (if q = last_or NULL ls then first_or NULL rs else node_next m q) \<and>
        node_prev m' q = (if q = first_or NULL rs then last_or NULL ls else node_prev m q)) \<and>
     node_elem m' = node_elem m \<and> dom (lm_nodes m') = dom (lm_nodes m) \<and>
     (\<forall>q. q \<notin> set (ls @ rs) \<longrightarrow> lm_nodes m' q = lm_nodes m q)"
proof -
  note lk = chain_links [OF ch]
  obtain nd where nd: "get_node x m = Some nd" "ln_next nd = first_or NULL rs" "ln_prev nd = last_or NULL ls"
    using get_node_in [of x "ls @ x # rs" m] dom lk by auto
  have hd: "l_head li = x \<longleftrightarrow> ls = []"
    using ch by (cases ls) (auto simp: chain_def)
  have tl: "l_tail li = x \<longleftrightarrow> rs = []"
    using ch by (cases rs rule: rev_cases) (auto simp: chain_def)
  show ?thesis
  proof (cases ls rule: rev_cases)
    case Nil
    then show ?thesis
    proof (cases rs)
      case (Cons r rs')
      obtain nr where "lm_nodes m r = Some nr" "r \<noteq> NULL" using Cons dom lk by auto
      with Nil Cons nd hd tl li lk show ?thesis
        by (auto simp: list_unlink_def access_defs fun_eq_iff node_next_def node_prev_def node_elem_def)
    qed (use nd hd tl li lk in \<open>auto simp: list_unlink_def access_defs\<close>)
  next
    case (snoc ls' p)
    obtain np where np: "lm_nodes m p = Some np" "p \<noteq> NULL" using snoc dom lk by auto
    show ?thesis
    proof (cases rs)
      case Nil
      with snoc np nd hd tl li lk show ?thesis
        by (auto simp: list_unlink_def access_defs fun_eq_iff node_next_def node_prev_def node_elem_def)
    next
      case (Cons r rs')
      obtain nr where nr: "lm_nodes m r = Some nr" "r \<noteq> NULL" using Cons dom lk by auto
      have "p \<noteq> r" using snoc Cons lk by auto
      with snoc Cons np nr nd hd tl li lk show ?thesis
        by (auto simp: list_unlink_def access_defs fun_eq_iff node_next_def node_prev_def node_elem_def)
    qed
  qed
qed

lemma list_unlink_free_rep:
  assumes rep: "list_rep m l (ls @ x # rs) xs"
  obtains m' where "list_unlink l x m = Some m'"
    and "list_rep (kfree_node x m') l (ls @ rs) (map (node_elem m) (ls @ rs))"
    and "list_frame l (set (ls @ x # rs)) m (kfree_node x m')"
    and "lm_nodes (kfree_node x m') x = None"
proof -
  obtain li where li: "l \<noteq> NULL" "lm_lists m l = Some li"
    "chain NULL (node_next m) (node_prev m) (l_head li) (l_tail li) (ls @ x # rs)"
    "set (ls @ x # rs) \<subseteq> dom (lm_nodes m)"
    using rep by (elim list_repE) blast
  note lk = chain_links [OF li(3)]
  obtain m' where m': "list_unlink l x m = Some m'"
     "lm_lists m' = (lm_lists m)(l \<mapsto> li\<lparr>l_head := if l_head li = x then first_or NULL rs else l_head li,
       l_tail := if l_tail li = x then last_or NULL ls else l_tail li, l_size := l_size li - 1\<rparr>)"
     "\<And>q. q \<in> set (ls @ rs) \<Longrightarrow> node_next m' q = (if q = last_or NULL ls then first_or NULL rs else node_next m q)"
     "\<And>q. q \<in> set (ls @ rs) \<Longrightarrow> node_prev m' q = (if q = first_or NULL rs then last_or NULL ls else node_prev m q)"
     "node_elem m' = node_elem m" "dom (lm_nodes m') = dom (lm_nodes m)"
     "\<And>q. q \<notin> set (ls @ rs) \<Longrightarrow> lm_nodes m' q = lm_nodes m q"
    using list_unlink_eq [OF li(3) li(1,2,4)] by blast
  define m'' where "m'' = kfree_node x m'"
  have ne: "\<And>q. q \<in> set (ls @ rs) \<Longrightarrow> q \<noteq> x" using lk(4,5) by auto
  have same: "\<And>q. q \<noteq> x \<Longrightarrow> node_next m'' q = node_next m' q"
    "\<And>q. q \<noteq> x \<Longrightarrow> node_prev m'' q = node_prev m' q" "\<And>q. q \<noteq> x \<Longrightarrow> node_elem m'' q = node_elem m' q"
    by (simp_all add: m''_def kfree_node_def node_next_def node_prev_def node_elem_def)
  have lists: "lm_lists m'' = lm_lists m'" by (simp add: m''_def kfree_node_def)
  have chain: "chain NULL (node_next m'') (node_prev m'')
      (if l_head li = x then node_next m x else l_head li)
      (if l_tail li = x then node_prev m x else l_tail li) (ls @ rs)"
    by (rule chain_unlink [OF li(3)]) (simp_all add: same ne m'(3,4) del: set_append)
  have size: "l_size li - 1 = of_nat (length (ls @ rs))"
    using list_rep_size [OF rep li(2)] by simp
  have dom: "set (ls @ rs) \<subseteq> dom (lm_nodes m'')"
  proof
    fix q assume q: "q \<in> set (ls @ rs)"
    then have "q \<in> dom (lm_nodes m')" unfolding m'(6) using li(4) by auto
    with ne [OF q] show "q \<in> dom (lm_nodes m'')" by (simp add: m''_def kfree_node_def)
  qed
  have elems: "map (node_elem m'') (ls @ rs) = map (node_elem m) (ls @ rs)"
    by (rule map_cong) (simp_all add: same ne m'(5) del: set_append)
  have "list_rep m'' l (ls @ rs) (map (node_elem m) (ls @ rs))"
    unfolding list_rep_def lists m'(2)
    using li(1) chain [unfolded lk(1,2)] size dom elems by (simp split del: if_split)
  moreover have "list_frame l (set (ls @ x # rs)) m m''"
    using m'(2,7) by (simp add: list_frame_def m''_def kfree_node_def)
  moreover have "lm_nodes m'' x = None"
    by (simp add: m''_def kfree_node_def)
  ultimately show ?thesis
    using that m'(1) unfolding m''_def by blast
qed

lemma list_remove_rep:
  assumes rep: "list_rep m l ns xs"
  obtains m' ns' where "list_remove l e m = Some m'" and "list_rep m' l ns' (remove1 e xs)"
    and "set ns' \<subseteq> set ns" and "list_frame l (set ns) m m'"
proof (cases "find (\<lambda>q. node_elem m q = e) ns")
  case None
  have elems: "xs = map (node_elem m) ns" using rep by (simp add: list_rep_def)
  have "e \<notin> set xs" using None by (auto simp: elems find_None_iff)
  then have "remove1 e xs = xs" by (rule remove1_idem)
  moreover have "list_remove l e m = Some m"
    using None by (simp add: list_remove_def list_get_node_rep [OF rep])
  moreover have "list_frame l (set ns) m m" by (simp add: list_frame_def)
  ultimately show ?thesis using that [of m ns] rep by simp
next
  case (Some x)
  then obtain ls rs where sp: "ns = ls @ x # rs" "node_elem m x = e"
    "\<And>y. y \<in> set ls \<Longrightarrow> node_elem m y \<noteq> e"
    by (elim find_split) blast
  have elems: "xs = map (node_elem m) ns" and "NULL \<notin> set ns"
    using rep by (auto simp: list_rep_def chain_def)
  then have "x \<noteq> NULL" using sp by auto
  obtain m' where m': "list_unlink l x m = Some m'"
    "list_rep (kfree_node x m') l (ls @ rs) (map (node_elem m) (ls @ rs))"
    "list_frame l (set ns) m (kfree_node x m')"
    using list_unlink_free_rep [OF rep [unfolded sp(1)]] unfolding sp(1) by blast
  have "remove1 e xs = map (node_elem m) (ls @ rs)"
  proof -
    have "e \<notin> set (map (node_elem m) ls)" using sp(3) by auto
    then show ?thesis using sp(1,2) by (simp add: elems remove1_append)
  qed
  moreover have "list_remove l e m = Some (kfree_node x m')"
    using Some m'(1) \<open>x \<noteq> NULL\<close> by (simp add: list_remove_def list_get_node_rep [OF rep])
  ultimately show ?thesis
    using that [of "kfree_node x m'" "ls @ rs"] m'(2,3) by (simp add: sp(1) subset_insertI2)
qed

lemma list_dequeue_rep:
  assumes rep: "list_rep m l ns xs"
  obtains m' where "list_dequeue l m = Some (first_or NULL xs, m')" and "list_rep m' l (tl ns) (tl xs)"
    and "list_frame l (set ns) m m'"
proof -
  obtain li where li: "l \<noteq> NULL" "get_list l m = Some li"
    "chain NULL (node_next m) (node_prev m) (l_head li) (l_tail li) ns"
    "set ns \<subseteq> dom (lm_nodes m)" "xs = map (node_elem m) ns"
    using rep by (elim list_repE) blast
  show ?thesis
  proof (cases ns)
    case Nil
    with li rep show ?thesis
      by (intro that [of m]) (auto simp: list_dequeue_def chain_def list_frame_def)
  next
    case (Cons x rs)
    obtain nd where nd: "get_node x m = Some nd" "ln_element nd = node_elem m x"
      using get_node_in [of x ns m] li Cons by (auto simp: chain_def)
    obtain m' where m': "list_unlink l x m = Some m'"
      "list_rep (kfree_node x m') l rs (map (node_elem m) rs)"
      "list_frame l (set (x # rs)) m (kfree_node x m')"
      using list_unlink_free_rep [of m l "[]" x rs xs] rep Cons by auto
    have "l_head li = x" "x \<noteq> NULL" using li(3) Cons by (auto simp: chain_def)
    with li m' nd Cons show ?thesis
      by (intro that [of "kfree_node x m'"]) (simp_all add: list_dequeue_def)
  qed
qed

lemma list_pop_rep:
  assumes rep: "list_rep m l ns xs"
  obtains m' where "list_pop l m = Some (last_or NULL xs, m')" and "list_rep m' l (butlast ns) (butlast xs)"
    and "list_frame l (set ns) m m'"
proof -
  obtain li where li: "l \<noteq> NULL" "get_list l m = Some li"
    "chain NULL (node_next m) (node_prev m) (l_head li) (l_tail li) ns"
    "set ns \<subseteq> dom (lm_nodes m)" "xs = map (node_elem m) ns"
    using rep by (elim list_repE) blast
  show ?thesis
  proof (cases ns rule: rev_cases)
    case Nil
    with li rep show ?thesis
      by (intro that [of m]) (auto simp: list_pop_def chain_def list_frame_def)
  next
    case (snoc ls x)
    obtain nd where nd: "get_node x m = Some nd" "ln_element nd = node_elem m x"
      using get_node_in [of x ns m] li snoc by (auto simp: chain_def)
    obtain m' where m': "list_unlink l x m = Some m'"
      "list_rep (kfree_node x m') l ls (map (node_elem m) ls)"
      "list_frame l (set (ls @ [x])) m (kfree_node x m')"
      using list_unlink_free_rep [of m l ls x "[]" xs] rep snoc by auto
    have "l_tail li = x" "x \<noteq> NULL" using li(3) snoc by (auto simp: chain_def)
    with li m' nd snoc show ?thesis
      by (intro that [of "kfree_node x m'"]) (simp_all add: list_pop_def)
  qed
qed

text \<open>Clearing a list frees its nodes, one per loop iteration.\<close>

lemma list_clear_loop_seg:
  assumes "dseg (node_next m) (node_prev m) p ns NULL" and "set ns \<subseteq> dom (lm_nodes m)"
    and "NULL \<notin> set ns" and "distinct ns"
  shows "list_clear_loop (length ns) (first_or NULL ns) m =
     Some (m\<lparr>lm_nodes := (lm_nodes m) |` (- set ns)\<rparr>)"
  using assms
proof (induction ns arbitrary: p m)
  case (Cons x ns)
  obtain nd where nd: "get_node x m = Some nd" "ln_next nd = node_next m x"
    using get_node_in [of x "x # ns" m] Cons.prems by auto
  let ?m = "kfree_node x m"
  have same: "\<And>q. q \<in> set ns \<Longrightarrow> node_next ?m q = node_next m q"
    "\<And>q. q \<in> set ns \<Longrightarrow> node_prev ?m q = node_prev m q"
    using Cons.prems by (auto simp: kfree_node_def node_next_def node_prev_def)
  have seg: "dseg (node_next ?m) (node_prev ?m) x ns NULL"
    using Cons.prems(1) dseg_cong [of ns, OF same, where p = x and n = NULL] by auto
  have dom: "set ns \<subseteq> dom (lm_nodes ?m)"
    using Cons.prems by (auto simp: kfree_node_def)
  have "?m\<lparr>lm_nodes := (lm_nodes ?m) |` (- set ns)\<rparr> = m\<lparr>lm_nodes := (lm_nodes m) |` (- set (x # ns))\<rparr>"
    by (auto simp: kfree_node_def restrict_map_def fun_eq_iff)
  then show ?case
    using Cons.IH [OF seg dom] Cons.prems nd by simp
qed (simp add: restrict_map_def)

lemma list_clear_rep:
  assumes rep: "list_rep m l ns xs"
  shows "\<exists>li. lm_lists m l = Some li \<and> list_clear l m =
     Some (m\<lparr>lm_lists := (lm_lists m)(l \<mapsto> li\<lparr>l_head := NULL, l_tail := NULL\<rparr>),
             lm_nodes := (lm_nodes m) |` (- set ns)\<rparr>)"
proof -
  obtain li where li: "l \<noteq> NULL" "lm_lists m l = Some li" "get_list l m = Some li"
    "chain NULL (node_next m) (node_prev m) (l_head li) (l_tail li) ns"
    "set ns \<subseteq> dom (lm_nodes m)" "unat (l_size li) = length ns"
    using rep by (elim list_repE) blast
  let ?m = "put_list l (li\<lparr>l_head := NULL, l_tail := NULL\<rparr>) m"
  have "dseg (node_next ?m) (node_prev ?m) NULL ns NULL" "l_head li = first_or NULL ns"
    "set ns \<subseteq> dom (lm_nodes ?m)" "NULL \<notin> set ns" "distinct ns"
    using li by (auto simp: chain_def put_list_def)
  then have "list_clear_loop (length ns) (l_head li) ?m = Some (?m\<lparr>lm_nodes := (lm_nodes ?m) |` (- set ns)\<rparr>)"
    using list_clear_loop_seg [of ?m NULL ns] by simp
  with li show ?thesis by (simp add: list_clear_def put_list_def)
qed

subsection \<open>The list as a queue: interface and clients\<close>

definition list_abs :: "lmem \<Rightarrow> ptr \<Rightarrow> ptr list \<Rightarrow> bool" where
  "list_abs m l xs \<longleftrightarrow> (\<exists>ns. list_rep m l ns xs)"

text \<open>
  The contract the other components rely on when they keep packets, requests or threads in a
  \<open>list_t\<close>: elements leave in the order they came in, and an empty queue yields \<open>NULL\<close>.
\<close>

locale kqueue =
  fixes rep :: "'m \<Rightarrow> 'e list \<Rightarrow> bool"
    and enq :: "'a \<Rightarrow> 'e \<Rightarrow> 'm \<Rightarrow> 'm option"
    and deq :: "'m \<Rightarrow> ('e \<times> 'm) option"
    and room :: "'a \<Rightarrow> 'm \<Rightarrow> bool"
    and nil :: 'e
  assumes enq_rep: "rep m xs \<Longrightarrow> room a m \<Longrightarrow> \<exists>m'. enq a e m = Some m' \<and> rep m' (xs @ [e])"
    and deq_rep: "rep m xs \<Longrightarrow> \<exists>m'. deq m = Some (first_or nil xs, m') \<and> rep m' (tl xs)"

text \<open>
  The loop \<^verbatim>\<open>while ((x = list_dequeue(q)) != NULL) f(x);\<close> with which the network stack drops a
  receive queue (\<^verbatim>\<open>tcp_ip4_sock_drop_recv_buffer\<close>, \<^verbatim>\<open>sock_udp4_close\<close>): the elements handed to
  \<open>f\<close>, in order, and the queue at the end. \<open>None\<close> is a fault or a loop that has not finished
  within the fuel.
\<close>

fun drain :: "('m \<Rightarrow> ('e \<times> 'm) option) \<Rightarrow> 'e \<Rightarrow> nat \<Rightarrow> 'm \<Rightarrow> ('e list \<times> 'm) option" where
  "drain deq nil 0 m = None"
| "drain deq nil (Suc n) m = do {
     (x, m) \<leftarrow> deq m;
     if x = nil then Some ([], m)
     else do { (xs, m) \<leftarrow> drain deq nil n m; Some (x # xs, m) }
   }"

context kqueue
begin

lemma drain_rep:
  assumes "rep m xs" and "nil \<notin> set xs" and "length xs < n"
  shows "\<exists>m'. drain deq nil n m = Some (xs, m') \<and> rep m' []"
  using assms
proof (induction xs arbitrary: m n)
  case Nil
  then obtain k where "n = Suc k" by (cases n) auto
  with deq_rep [OF Nil(1)] show ?case by auto
next
  case (Cons x xs)
  then obtain k where n: "n = Suc k" by (cases n) auto
  obtain m' where m': "deq m = Some (x, m')" "rep m' xs"
    using deq_rep [OF Cons.prems(1)] by auto
  obtain m'' where "drain deq nil k m' = Some (xs, m'')" "rep m'' []"
    using Cons.IH [OF m'(2), of k] Cons.prems n by auto
  with n m' Cons.prems show ?case by auto
qed

lemma enq_deq_rep:
  assumes "rep m []" and "room a m"
  shows "\<exists>m' m''. enq a e m = Some m' \<and> deq m' = Some (e, m'') \<and> rep m'' []"
proof -
  obtain m' where m': "enq a e m = Some m'" "rep m' [e]"
    using enq_rep [OF assms, of e] by auto
  with deq_rep [OF m'(2)] show ?thesis by auto
qed

end

lemma list_abs_add:
  assumes "list_abs m l xs" and "nd \<noteq> NULL \<and> lm_nodes m nd = None"
  shows "\<exists>m'. list_add nd l e m = Some m' \<and> list_abs m' l (xs @ [e])"
proof -
  obtain ns where "list_rep m l ns xs" using assms(1) by (auto simp: list_abs_def)
  then obtain m' where "list_add nd l e m = Some m'" "list_rep m' l (ns @ [nd]) (xs @ [e])"
    using assms(2) by - (erule list_add_rep; auto)
  then show ?thesis by (auto simp: list_abs_def)
qed

lemma list_abs_dequeue:
  assumes "list_abs m l xs"
  shows "\<exists>m'. list_dequeue l m = Some (first_or NULL xs, m') \<and> list_abs m' l (tl xs)"
proof -
  obtain ns where "list_rep m l ns xs" using assms by (auto simp: list_abs_def)
  then obtain m' where "list_dequeue l m = Some (first_or NULL xs, m')" "list_rep m' l (tl ns) (tl xs)"
    by - (erule list_dequeue_rep; auto)
  then show ?thesis by (auto simp: list_abs_def)
qed

lemma list_abs_pop:
  assumes "list_abs m l xs"
  shows "\<exists>m'. list_pop l m = Some (last_or NULL xs, m') \<and> list_abs m' l (butlast xs)"
proof -
  obtain ns where "list_rep m l ns xs" using assms by (auto simp: list_abs_def)
  then obtain m' where "list_pop l m = Some (last_or NULL xs, m')" "list_rep m' l (butlast ns) (butlast xs)"
    by - (erule list_pop_rep; auto)
  then show ?thesis by (auto simp: list_abs_def)
qed

lemma list_abs_remove:
  assumes "list_abs m l xs"
  shows "\<exists>m'. list_remove l e m = Some m' \<and> list_abs m' l (remove1 e xs)"
proof -
  obtain ns where "list_rep m l ns xs" using assms by (auto simp: list_abs_def)
  then obtain m' ns' where "list_remove l e m = Some m'" "list_rep m' l ns' (remove1 e xs)"
    by - (erule list_remove_rep; auto)
  then show ?thesis by (auto simp: list_abs_def)
qed

lemma list_abs_reads:
  assumes "list_abs m l xs"
  shows "list_get l i m = Some (if unat i < length xs then xs ! unat i else NULL)"
    and "list_head l m = Some (first_or NULL xs)"
    and "list_tail l m = Some (last_or NULL xs)"
    and "list_size l m = Some (of_nat (length xs))"
proof -
  obtain ns where rep: "list_rep m l ns xs" using assms by (auto simp: list_abs_def)
  show "list_get l i m = Some (if unat i < length xs then xs ! unat i else NULL)"
    by (rule list_get_rep [OF rep])
  show "list_head l m = Some (first_or NULL xs)" by (rule list_head_rep [OF rep])
  show "list_tail l m = Some (last_or NULL xs)" by (rule list_tail_rep [OF rep])
  show "list_size l m = Some (of_nat (length xs))"
    using rep list_rep_length(2) [OF rep] by (auto simp: list_size_def get_list_def list_rep_def)
qed

interpretation klq: kqueue
  "\<lambda>m. list_abs m l" "\<lambda>nd e. list_add nd l e" "list_dequeue l"
  "\<lambda>nd m. nd \<noteq> NULL \<and> lm_nodes m nd = None" NULL for l :: ptr
  by unfold_locales (rule list_abs_add list_abs_dequeue; assumption)+

text \<open>Lists with other headers and other nodes are not affected.\<close>

lemma list_frame_rep:
  assumes "list_frame l ns m m'" and "list_rep m k ks ys" and "k \<noteq> l" and "set ks \<inter> ns = {}"
  shows "list_rep m' k ks ys"
proof -
  have nodes: "\<And>q. q \<in> set ks \<Longrightarrow> lm_nodes m' q = lm_nodes m q"
    using assms(1,4) by (auto simp: list_frame_def)
  then have fields: "\<And>q. q \<in> set ks \<Longrightarrow> node_next m' q = node_next m q"
    "\<And>q. q \<in> set ks \<Longrightarrow> node_prev m' q = node_prev m q"
    "\<And>q. q \<in> set ks \<Longrightarrow> node_elem m' q = node_elem m q"
    by (simp_all add: node_next_def node_prev_def node_elem_def)
  have "lm_lists m' k = lm_lists m k"
    using assms(1,3) by (simp add: list_frame_def)
  moreover have "set ks \<subseteq> dom (lm_nodes m')"
    using assms(2) nodes by (auto simp: list_rep_def)
  moreover have "map (node_elem m') ks = map (node_elem m) ks"
    by (rule map_cong) (simp_all add: fields)
  ultimately show ?thesis
    using assms(2) chain_cong [of ks, OF fields(1,2)] by (simp add: list_rep_def)
qed

text \<open>A concrete memory used by the witnesses: the list at 16 with the elements 7 and 9.\<close>

definition sample_mem :: lmem where
  "sample_mem = \<lparr>lm_lists = [16 \<mapsto> \<lparr>l_size = 2, l_head = 32, l_tail = 64\<rparr>],
     lm_nodes = [32 \<mapsto> \<lparr>ln_element = 7, ln_next = 64, ln_prev = NULL\<rparr>,
                 64 \<mapsto> \<lparr>ln_element = 9, ln_next = NULL, ln_prev = 32\<rparr>]\<rparr>"

lemma sample_mem_rep: "list_rep sample_mem 16 [32, 64] [7, 9]"
  by (simp add: list_rep_def sample_mem_def chain_def node_next_def node_prev_def node_elem_def)

lemma sample_mem_abs: "list_abs sample_mem 16 [7, 9]"
  using sample_mem_rep by (auto simp: list_abs_def)

subsection \<open>Properties\<close>



text \<open>C19. The drain loop over a list without null elements terminates, hands over every element in
  the order the elements were added, and leaves a well-formed empty list.\<close>

theorem list_drain_fifo:
  assumes "list_abs m l xs" and "NULL \<notin> set xs" and "length xs < n"
  shows "\<exists>m'. drain (list_dequeue l) NULL n m = Some (xs, m') \<and> list_abs m' l []"
  using assms by (rule klq.drain_rep)

theorem list_drain_fifo_witness:
  "\<exists>m'. drain (list_dequeue 16) NULL 3 sample_mem = Some ([7, 9], m') \<and> list_abs m' 16 []"
  by (rule list_drain_fifo [OF sample_mem_abs]) simp_all

text \<open>C20. Two lists with different headers and disjoint nodes do not interfere: adding to,
  removing from and dequeuing from one leaves the other one's nodes and elements as they were.\<close>

theorem list_separation:
  assumes "list_rep m l ns xs" and "list_rep m k ks ys" and "k \<noteq> l" and "set ks \<inter> set ns = {}"
    and "nd \<noteq> NULL" and "lm_nodes m nd = None"
  shows "(\<exists>m'. list_add nd l e m = Some m' \<and> list_rep m' k ks ys)
       \<and> (\<exists>m'. list_remove l e m = Some m' \<and> list_rep m' k ks ys)
       \<and> (\<exists>m'. list_dequeue l m = Some (first_or NULL xs, m') \<and> list_rep m' k ks ys)"
proof -
  have "nd \<notin> set ks" using assms(2,6) by (auto simp: list_rep_def)
  then have disj: "set ks \<inter> set (ns @ [nd]) = {}" using assms(4) by auto
  obtain m1 where m1: "list_add nd l e m = Some m1" "list_frame l (set (ns @ [nd])) m m1"
    using list_add_rep [OF assms(1,5,6)] by metis
  obtain m2 where m2: "list_remove l e m = Some m2" "list_frame l (set ns) m m2"
    using list_remove_rep [OF assms(1)] by metis
  obtain m3 where m3: "list_dequeue l m = Some (first_or NULL xs, m3)" "list_frame l (set ns) m m3"
    using list_dequeue_rep [OF assms(1)] by metis
  from m1 m2 m3 show ?thesis
    using list_frame_rep [OF m1(2) assms(2,3) disj] list_frame_rep [OF m2(2) assms(2,3,4)]
      list_frame_rep [OF m3(2) assms(2,3,4)] by simp
qed

definition sample_two :: lmem where
  "sample_two = sample_mem\<lparr>lm_lists := (lm_lists sample_mem)
     (24 \<mapsto> \<lparr>l_size = 0, l_head = NULL, l_tail = NULL\<rparr>)\<rparr>"

theorem list_separation_witness:
  "\<exists>m'. list_add 80 24 5 sample_two = Some m' \<and> list_rep m' 16 [32, 64] [7, 9]"
proof -
  have a: "list_rep sample_two 24 [] []"
    by (simp add: list_rep_def sample_two_def sample_mem_def chain_def)
  have b: "list_rep sample_two 16 [32, 64] [7, 9]"
    by (simp add: list_rep_def sample_two_def sample_mem_def chain_def node_next_def node_prev_def node_elem_def)
  have c: "(80::ptr) \<noteq> NULL" "lm_nodes sample_two 80 = None" "(16::ptr) \<noteq> 24"
    by (simp_all add: sample_two_def sample_mem_def)
  show ?thesis
    using list_separation [OF a b c(3) _ c(1,2), of 5] by simp
qed

text \<open>C28. \<open>list_clear\<close> frees the nodes and resets head and tail but not the size: after clearing a
  non-empty list the header still reports the old number of elements, and a search in it
  follows the null head pointer.\<close>

theorem list_clear_stale_size:
  assumes "list_rep m l ns xs" and "xs \<noteq> []"
  shows "\<exists>m'. list_clear l m = Some m' \<and> (\<forall>p \<in> set ns. lm_nodes m' p = None)
            \<and> list_head l m' = Some NULL \<and> list_tail l m' = Some NULL
            \<and> list_size l m' = Some (of_nat (length xs)) \<and> list_get_node l e m' = None"
proof -
  obtain li where li: "lm_lists m l = Some li"
    and clear: "list_clear l m = Some (m\<lparr>lm_lists := (lm_lists m)(l \<mapsto> li\<lparr>l_head := NULL, l_tail := NULL\<rparr>),
             lm_nodes := (lm_nodes m) |` (- set ns)\<rparr>)"
    using list_clear_rep [OF assms(1)] by blast
  have size: "l_size li = of_nat (length ns)" "length ns = length xs" "l \<noteq> NULL"
    using assms(1) li list_rep_length(2) by (auto simp: list_rep_def)
  have "unat (l_size li) = length xs"
    using list_rep_length(1) [OF assms(1)] size(1,2) by simp
  then obtain k where k: "unat (l_size li) = Suc k"
    using assms(2) by (cases xs) simp_all
  show ?thesis
    using clear size k
    by (auto simp: list_head_def list_tail_def list_size_def list_get_node_def get_list_def get_node_def)
qed

theorem list_clear_stale_size_witness:
  "\<exists>m'. list_clear 16 sample_mem = Some m' \<and> list_head 16 m' = Some NULL \<and>
        list_size 16 m' = Some 2 \<and> list_get_node 16 7 m' = None"
  using list_clear_stale_size [OF sample_mem_rep, of 7] by auto

end
