(* ===== verification/Kstring.thy ===== *)
theory Kstring
  imports Dll "HOL-Library.Monad_Syntax"
begin

text \<open>
  Byte memory and the string routines of \<^verbatim>\<open>kernel/kairax/string.c\<close>. Memory is a total function from
  addresses to bytes, so overlapping buffers alias as they do in the kernel. Loops that run
  until they find a terminator are \<^theory_text>\<open>partial_function (option)\<close>: \<open>None\<close> is a loop that never
  stops. The lemmas give each routine's result on buffers that do not wrap around the end of
  the address space.
\<close>

type_synonym mem = "ptr \<Rightarrow> u8"

subsection \<open>Block operations\<close>

fun memcmp_loop :: "nat \<Rightarrow> ptr \<Rightarrow> ptr \<Rightarrow> mem \<Rightarrow> int" where
  "memcmp_loop 0 a b m = 0"
| "memcmp_loop (Suc n) a b m =
     (if m a < m b then -1 else if m b < m a then 1 else memcmp_loop n (a + 1) (b + 1) m)"

definition memcmp :: "ptr \<Rightarrow> ptr \<Rightarrow> u64 \<Rightarrow> mem \<Rightarrow> int" where
  "memcmp aptr bptr sz m = memcmp_loop (unat sz) aptr bptr m"

fun memset_loop :: "nat \<Rightarrow> ptr \<Rightarrow> u8 \<Rightarrow> mem \<Rightarrow> mem" where
  "memset_loop 0 buf value m = m"
| "memset_loop (Suc n) buf value m = memset_loop n (buf + 1) value (m(buf := value))"

definition memset :: "ptr \<Rightarrow> u8 \<Rightarrow> u64 \<Rightarrow> mem \<Rightarrow> mem" where
  "memset bufptr value sz m = memset_loop (unat sz) bufptr value m"

text \<open>The ascending copy loop of \<open>memcpy\<close> and of the first branch of \<open>memmove\<close>.\<close>

fun copy_up :: "nat \<Rightarrow> ptr \<Rightarrow> ptr \<Rightarrow> mem \<Rightarrow> mem" where
  "copy_up 0 dst src m = m"
| "copy_up (Suc n) dst src m = copy_up n (dst + 1) (src + 1) (m(dst := m src))"

text \<open>The descending loop \<^verbatim>\<open>for (i = size; i != 0; i--) dst[i-1] = src[i-1];\<close>\<close>

fun copy_down :: "nat \<Rightarrow> ptr \<Rightarrow> ptr \<Rightarrow> mem \<Rightarrow> mem" where
  "copy_down 0 dst src m = m"
| "copy_down (Suc n) dst src m =
     copy_down n dst src (m(dst + of_nat n := m (src + of_nat n)))"

definition memcpy :: "ptr \<Rightarrow> ptr \<Rightarrow> u64 \<Rightarrow> mem \<Rightarrow> mem" where
  "memcpy dst src sz m = copy_up (unat sz) dst src m"

definition memmove :: "ptr \<Rightarrow> ptr \<Rightarrow> u64 \<Rightarrow> mem \<Rightarrow> mem" where
  "memmove dst src sz m =
     (if dst < src then copy_up (unat sz) dst src m else copy_down (unat sz) dst src m)"

subsection \<open>Terminated strings\<close>

partial_function (option) strlen_loop :: "mem \<Rightarrow> ptr \<Rightarrow> u64 \<Rightarrow> u64 option" where
  "strlen_loop m str n = (if m str = 0 then Some n else strlen_loop m (str + 1) (n + 1))"

definition strlen :: "mem \<Rightarrow> ptr \<Rightarrow> u64 option" where
  "strlen m str = (if str = NULL then Some 0 else strlen_loop m str 0)"

text \<open>\<^verbatim>\<open>for (j = 0; add_str[j] != 0; j++) str[i+j] = add_str[j];\<close> the result is \<open>j\<close>.\<close>

partial_function (option) strcat_loop :: "ptr \<Rightarrow> ptr \<Rightarrow> u64 \<Rightarrow> mem \<Rightarrow> (u64 \<times> mem) option" where
  "strcat_loop dst add_str j m =
     (if m (add_str + j) \<noteq> 0
      then strcat_loop dst add_str (j + 1) (m(dst + j := m (add_str + j)))
      else Some (j, m))"

definition strcat :: "ptr \<Rightarrow> ptr \<Rightarrow> mem \<Rightarrow> mem option" where
  "strcat str add_str m = do {
     i \<leftarrow> strlen_loop m str 0;
     (j, m) \<leftarrow> strcat_loop (str + i) add_str 0 m;
     Some (m(str + i + j := 0))
   }"

fun strncat_loop :: "nat \<Rightarrow> ptr \<Rightarrow> ptr \<Rightarrow> u64 \<Rightarrow> mem \<Rightarrow> u64 \<times> mem" where
  "strncat_loop 0 dst add_str j m = (j, m)"
| "strncat_loop (Suc n) dst add_str j m =
     (if m (add_str + j) \<noteq> 0
      then strncat_loop n dst add_str (j + 1) (m(dst + j := m (add_str + j)))
      else (j, m))"

definition strncat :: "ptr \<Rightarrow> ptr \<Rightarrow> u64 \<Rightarrow> mem \<Rightarrow> mem option" where
  "strncat str add_str num m = do {
     i \<leftarrow> strlen_loop m str 0;
     let (j, m) = strncat_loop (unat num) (str + i) add_str 0 m;
     Some (m(str + i + j := 0))
   }"

fun str_differ :: "nat \<Rightarrow> ptr \<Rightarrow> ptr \<Rightarrow> mem \<Rightarrow> int" where
  "str_differ 0 a b m = 0"
| "str_differ (Suc n) a b m = (if m a \<noteq> m b then 1 else str_differ n (a + 1) (b + 1) m)"

definition strcmp :: "ptr \<Rightarrow> ptr \<Rightarrow> mem \<Rightarrow> int option" where
  "strcmp str1 str2 m = do {
     n1 \<leftarrow> strlen m str1;
     n2 \<leftarrow> strlen m str2;
     if n1 \<noteq> n2 then Some 1 else Some (str_differ (unat n1) str1 str2 m)
   }"

definition strncmp :: "ptr \<Rightarrow> ptr \<Rightarrow> u64 \<Rightarrow> mem \<Rightarrow> int" where
  "strncmp str1 str2 len m = str_differ (unat len) str1 str2 m"

definition strcpy :: "ptr \<Rightarrow> ptr \<Rightarrow> mem \<Rightarrow> mem option" where
  "strcpy dst src m = do {
     len \<leftarrow> strlen m src;
     Some ((copy_up (unat len) dst src m)(dst + len := 0))
   }"

definition strncpy :: "ptr \<Rightarrow> ptr \<Rightarrow> u64 \<Rightarrow> mem \<Rightarrow> mem option" where
  "strncpy dst src sz m = do {
     len \<leftarrow> strlen m src;
     let len = min len sz;
     Some ((copy_up (unat len) dst src m)(dst + len := 0))
   }"

fun strchr_loop :: "nat \<Rightarrow> ptr \<Rightarrow> u8 \<Rightarrow> mem \<Rightarrow> ptr" where
  "strchr_loop 0 s symbol m = NULL"
| "strchr_loop (Suc n) s symbol m = (if m s = symbol then s else strchr_loop n (s + 1) symbol m)"

definition strchr :: "ptr \<Rightarrow> u8 \<Rightarrow> mem \<Rightarrow> ptr option" where
  "strchr string symbol m = do {
     len \<leftarrow> strlen m string;
     Some (strchr_loop (unat len) string symbol m)
   }"

partial_function (option) strrchr_loop :: "mem \<Rightarrow> ptr \<Rightarrow> u8 \<Rightarrow> ptr \<Rightarrow> ptr option" where
  "strrchr_loop m s symbol result =
     (let result = (if m s = symbol then s else result)
      in if m s \<noteq> 0 then strrchr_loop m (s + 1) symbol result else Some result)"

definition strrchr :: "ptr \<Rightarrow> u8 \<Rightarrow> mem \<Rightarrow> ptr option" where
  "strrchr string symbol m = strrchr_loop m string symbol NULL"

text \<open>\<open>str\<close> is the block \<open>kmalloc(strsize + 1)\<close> returned.\<close>

definition strdup :: "ptr \<Rightarrow> ptr \<Rightarrow> mem \<Rightarrow> (ptr \<times> mem) option" where
  "strdup str s m = do {
     strsize \<leftarrow> strlen m s;
     if strsize = 0 then Some (NULL, m)
     else if str = NULL then Some (NULL, m)
     else let m = m(str + strsize := 0) in Some (str, memcpy str s strsize m)
   }"

text \<open>\<open>size_t\<close> indices: on an empty string \<open>j\<close> starts at the largest index.\<close>

partial_function (option) strrev_loop :: "ptr \<Rightarrow> u64 \<Rightarrow> u64 \<Rightarrow> mem \<Rightarrow> mem option" where
  "strrev_loop str i j m =
     (if i < j
      then strrev_loop str (i + 1) (j - 1) (m(str + i := m (str + j), str + j := m (str + i)))
      else Some m)"

definition strrev :: "ptr \<Rightarrow> mem \<Rightarrow> mem option" where
  "strrev str m = do { n \<leftarrow> strlen m str; strrev_loop str 0 (n - 1) m }"

subsection \<open>Block operations move exactly the bytes they name\<close>

text \<open>
  Ranges are written by the offset \<open>a - p\<close> from their first byte: \<open>a\<close> is one of the \<open>n\<close> bytes
  from \<open>p\<close> when \<open>unat (a - p) < n\<close>. The side condition of each copy loop says that no source
  byte is overwritten before it is read.
\<close>

lemma unat_minus_one_more:
  fixes a d :: u64
  assumes "a \<noteq> d"
  shows "unat (a - (d + 1)) = unat (a - d) - 1" "0 < unat (a - d)"
proof -
  have nz: "a - d \<noteq> 0" using assms by simp
  show "0 < unat (a - d)" using nz by (simp add: unat_gt_0)
  have "a - (d + 1) = (a - d) - 1" by simp
  then show "unat (a - (d + 1)) = unat (a - d) - 1" using unat_minus_one [OF nz] by metis
qed

lemma copy_up_at:
  assumes "n \<le> unat (d - s)"
  shows "copy_up n d s m a = (if unat (a - d) < n then m (s + (a - d)) else m a)"
  using assms
proof (induction n arbitrary: d s m)
  case (Suc n)
  have IH: "copy_up n (d + 1) (s + 1) m' a =
      (if unat (a - (d + 1)) < n then m' (s + 1 + (a - (d + 1))) else m' a)" for m'
    using Suc.prems by (intro Suc.IH) simp
  have n64: "Suc n < 2 ^ 64" using Suc.prems unat_u64_lt [of "d - s"] by simp
  show ?case
  proof (cases "a = d")
    case True
    then show ?thesis using n64 IH [of "m(d := m s)"] by (simp add: unat_u64_minus_1)
  next
    case False
    note off = unat_minus_one_more [OF False]
    have src: "s + (a - d) \<noteq> d" if "unat (a - d) < Suc n"
    proof
      assume "s + (a - d) = d"
      then have "unat (d - s) = unat (a - d)" by (metis add_diff_cancel_left')
      then show False using that Suc.prems by linarith
    qed
    have "s + 1 + (a - (d + 1)) = s + (a - d)" by simp
    then show ?thesis using False off src by (auto simp: IH)
  qed
qed simp

lemma copy_down_at:
  assumes "s = d \<or> n \<le> unat (s - d)" and "n < 2 ^ 64"
  shows "copy_down n d s m a = (if unat (a - d) < n then m (s + (a - d)) else m a)"
  using assms
proof (induction n arbitrary: m)
  case (Suc n)
  let ?m = "m(d + of_nat n := m (s + of_nat n))"
  have n: "unat (of_nat n :: u64) = n" using Suc.prems by (simp add: unat_of_nat)
  have IH: "copy_down n d s ?m a = (if unat (a - d) < n then ?m (s + (a - d)) else ?m a)"
    using Suc.prems by (intro Suc.IH) auto
  have last: "a = d + of_nat n \<longleftrightarrow> unat (a - d) = n"
  proof
    assume "unat (a - d) = n"
    then have "of_nat n = a - d" by auto
    then show "a = d + of_nat n" by simp
  qed (simp add: n)
  have src: "s + (a - d) \<noteq> d + of_nat n" if "unat (a - d) < n"
  proof
    assume e: "s + (a - d) = d + of_nat n"
    show False
    proof (cases "s = d")
      case True
      with e that n show False by simp
    next
      case False
      have "unat (of_nat n - (a - d) :: u64) = n - unat (a - d)"
        using that n by (subst unat_sub) (auto simp: word_le_nat_alt)
      moreover have "s - d = of_nat n - (a - d)" using e by (simp add: algebra_simps)
      ultimately have "unat (s - d) \<le> n" by (metis diff_le_self)
      then show False using False Suc.prems by simp
    qed
  qed
  show ?case using last src by (auto simp: IH)
qed simp

lemma memset_loop_at:
  assumes "n < 2 ^ 64"
  shows "memset_loop n p v m a = (if unat (a - p) < n then v else m a)"
  using assms
proof (induction n arbitrary: p m)
  case (Suc n)
  then have IH: "memset_loop n (p + 1) v m' a = (if unat (a - (p + 1)) < n then v else m' a)" for m'
    by simp
  show ?case
  proof (cases "a = p")
    case True
    then show ?thesis using Suc.prems IH [of "m(p := v)"] by (simp add: unat_u64_minus_1)
  next
    case False
    then show ?thesis using unat_minus_one_more [OF False] by (auto simp: IH)
  qed
qed simp

lemma memset_at: "memset p v n m a = (if a - p < n then v else m a)"
  using unat_u64_lt [of n] by (simp add: memset_def memset_loop_at word_less_nat_alt)

lemma memcpy_at:
  "n \<le> d - s \<Longrightarrow> memcpy d s n m a = (if a - d < n then m (s + (a - d)) else m a)"
  by (simp add: memcpy_def copy_up_at word_less_nat_alt word_le_nat_alt)

lemma memmove_at:
  assumes "unat d + unat n \<le> 2 ^ 64" and "unat s + unat n \<le> 2 ^ 64"
  shows "memmove d s n m a = (if a - d < n then m (s + (a - d)) else m a)"
proof (cases "d < s")
  case True
  then have "unat (d - s) = 2 ^ 64 + unat d - unat s"
    by (simp add: unat_sub_if' word_less_nat_alt word_le_nat_alt)
  then have "unat n \<le> unat (d - s)" using assms by simp
  then show ?thesis using True by (simp add: memmove_def copy_up_at word_less_nat_alt)
next
  case False
  have "s = d \<or> unat n \<le> unat (s - d)"
  proof (cases "s = d")
    case sd: False
    with False have "unat (s - d) = 2 ^ 64 + unat s - unat d"
      by (auto simp: unat_sub_if' word_less_nat_alt word_le_nat_alt not_less le_less word_unat_eq_iff)
    then show ?thesis using assms by linarith
  qed simp
  then show ?thesis using False unat_u64_lt [of n]
    by (simp add: memmove_def copy_down_at word_less_nat_alt)
qed

text \<open>\<open>memcmp\<close> is the sign of the lexicographic comparison.\<close>

fun bytes_at :: "mem \<Rightarrow> ptr \<Rightarrow> nat \<Rightarrow> u8 list" where
  "bytes_at m p 0 = []"
| "bytes_at m p (Suc n) = m p # bytes_at m (p + 1) n"

lemma bytes_at_numeral [simp]:
  "bytes_at m p (numeral k) = m p # bytes_at m (p + 1) (pred_numeral k)"
  by (simp add: numeral_eq_Suc)

lemma memcmp_loop_zero: "memcmp_loop n a b m = 0 \<longleftrightarrow> bytes_at m a n = bytes_at m b n"
  by (induction n arbitrary: a b) auto

lemma memcmp_zero: "memcmp a b n m = 0 \<longleftrightarrow> bytes_at m a (unat n) = bytes_at m b (unat n)"
  by (simp add: memcmp_def memcmp_loop_zero)

subsection \<open>Terminated strings\<close>

text \<open>\<open>cstr m p bs\<close>: the bytes \<open>bs\<close>, none of them zero, stand at \<open>p\<close> and a zero follows.\<close>

fun cstr :: "mem \<Rightarrow> ptr \<Rightarrow> u8 list \<Rightarrow> bool" where
  "cstr m p [] = (m p = 0)"
| "cstr m p (b # bs) = (b \<noteq> 0 \<and> m p = b \<and> cstr m (p + 1) bs)"

lemma cstr_nth: "cstr m p bs \<Longrightarrow> i < length bs \<Longrightarrow> m (p + of_nat i) = bs ! i \<and> bs ! i \<noteq> 0"
proof (induction bs arbitrary: p i)
  case (Cons b bs)
  then show ?case by (cases i) (force simp: add.assoc)+
qed simp

lemma cstr_end: "cstr m p bs \<Longrightarrow> m (p + of_nat (length bs)) = 0"
  by (induction bs arbitrary: p) (force simp: add.assoc)+

lemma cstr_I:
  assumes "\<And>i. i < length bs \<Longrightarrow> m (p + of_nat i) = bs ! i \<and> bs ! i \<noteq> 0"
    and "m (p + of_nat (length bs)) = 0"
  shows "cstr m p bs"
  using assms
proof (induction bs arbitrary: p)
  case (Cons b bs)
  have "m (p + 1 + of_nat i) = bs ! i \<and> bs ! i \<noteq> 0" if "i < length bs" for i
    using Cons.prems(1) [of "Suc i"] that by (simp add: add.assoc)
  then have "cstr m (p + 1) bs" using Cons.prems(2) by (intro Cons.IH) (auto simp: add.assoc)
  then show ?case using Cons.prems(1) [of 0] by simp
qed simp

lemma cstr_length:
  assumes "cstr m p bs"
  shows "length bs < 2 ^ 64"
proof (rule ccontr)
  assume long: "\<not> ?thesis"
  then have len: "length bs = (length bs - 2 ^ 64) + 2 ^ 64" by simp
  have "(of_nat (length bs) :: u64) = of_nat (length bs - 2 ^ 64) + of_nat (2 ^ 64)"
    by (subst len) (simp only: of_nat_add)
  moreover have "(of_nat (2 ^ 64) :: u64) = 0" by simp
  ultimately have "p + of_nat (length bs) = p + of_nat (length bs - 2 ^ 64)" by simp
  moreover have "length bs - 2 ^ 64 < length bs" using long by simp
  ultimately show False using cstr_nth [OF assms] cstr_end [OF assms] by metis
qed

lemma cstr_unat_length: "cstr m p bs \<Longrightarrow> unat (of_nat (length bs) :: u64) = length bs"
  using cstr_length by (simp add: unat_of_nat)

lemma cstr_unique: "cstr m p bs \<Longrightarrow> cstr m p cs \<Longrightarrow> bs = cs"
proof (induction bs arbitrary: p cs)
  case Nil
  then show ?case by (cases cs) auto
next
  case (Cons b bs)
  then show ?case by (cases cs) auto
qed

lemma strlen_loop_cstr: "cstr m p bs \<Longrightarrow> strlen_loop m p n = Some (n + of_nat (length bs))"
proof (induction bs arbitrary: p n)
  case Nil
  then show ?case by (simp add: strlen_loop.simps)
next
  case (Cons b bs)
  then show ?case by (subst strlen_loop.simps) (simp add: add.assoc)
qed

lemma strlen_cstr: "cstr m p bs \<Longrightarrow> p \<noteq> NULL \<Longrightarrow> strlen m p = Some (of_nat (length bs))"
  by (simp add: strlen_def strlen_loop_cstr)

lemma str_differ_cstr:
  "cstr m p bs \<Longrightarrow> cstr m q cs \<Longrightarrow> length bs = length cs \<Longrightarrow>
   str_differ (length bs) p q m = (if bs = cs then 0 else 1)"
proof (induction bs arbitrary: p q cs)
  case (Cons b bs)
  then show ?case by (cases cs) auto
qed simp

lemma strcmp_cstr:
  assumes "cstr m p bs" and "cstr m q cs" and "p \<noteq> NULL" and "q \<noteq> NULL"
  shows "strcmp p q m = Some (if bs = cs then 0 else 1)"
proof -
  have "of_nat (length bs) = (of_nat (length cs) :: u64) \<longleftrightarrow> length bs = length cs"
    using cstr_unat_length [OF assms(1)] cstr_unat_length [OF assms(2)] by metis
  then show ?thesis
    using assms str_differ_cstr [OF assms(1,2)] cstr_unat_length [OF assms(1)]
    by (auto simp: strcmp_def strlen_cstr)
qed

text \<open>
  \<open>strcpy\<close> and \<open>strncpy\<close> leave the (truncated) string at the destination and change nothing
  beyond its terminator. The buffer of \<open>strncpy\<close> must hold \<open>sz + 1\<close> bytes.
\<close>

lemma strncpy_cstr:
  fixes sz :: u64
  assumes src: "cstr m s bs" "s \<noteq> NULL" and apart: "length bs < unat (d - s)"
  defines "k \<equiv> min (length bs) (unat sz)"
  shows "\<exists>m'. strncpy d s sz m = Some m' \<and> cstr m' d (take k bs) \<and>
              (\<forall>a. k < unat (a - d) \<longrightarrow> m' a = m a)"
proof -
  have len: "unat (min (of_nat (length bs)) sz) = k"
    using cstr_unat_length [OF src(1)] by (auto simp: min_def word_le_nat_alt k_def)
  then have len': "min (of_nat (length bs)) sz = (of_nat k :: u64)" by (metis of_nat_unat ucast_id)
  define m' where "m' = (copy_up k d s m)(d + of_nat k := 0)"
  have k64: "k < 2 ^ 64" using cstr_length [OF src(1)] by (simp add: k_def)
  have at: "copy_up k d s m a = (if unat (a - d) < k then m (s + (a - d)) else m a)" for a
    using apart by (intro copy_up_at) (simp add: k_def)
  have off: "unat (of_nat i :: u64) = i" if "i \<le> k" for i
    using that k64 by (simp add: unat_of_nat)
  have "m' (d + of_nat i) = bs ! i \<and> bs ! i \<noteq> 0" if "i < k" for i
  proof -
    have "(of_nat i :: u64) \<noteq> of_nat k" using that off [of i] off [of k] by (metis less_imp_le nat_neq_iff order_refl)
    then show ?thesis
      using that off [of i] cstr_nth [OF src(1), of i] by (simp add: m'_def at) (simp add: k_def)
  qed
  then have "cstr m' d (take k bs)"
    by (intro cstr_I) (auto simp: m'_def k_def)
  moreover have "m' a = m a" if "k < unat (a - d)" for a
    using that off [of k] by (auto simp: m'_def at)
  moreover have "strncpy d s sz m = Some m'"
    using src by (simp add: strncpy_def strlen_cstr Let_def len' off m'_def)
  ultimately show ?thesis by blast
qed

lemma bytes_at_cong:
  assumes "\<And>i. i < n \<Longrightarrow> m (p + of_nat i) = m' (q + of_nat i)"
  shows "bytes_at m p n = bytes_at m' q n"
  using assms
proof (induction n arbitrary: p q)
  case (Suc n)
  have "m (p + 1 + of_nat i) = m' (q + 1 + of_nat i)" if "i < n" for i
    using Suc.prems [of "Suc i"] that by (simp add: add.assoc)
  then have "bytes_at m (p + 1) n = bytes_at m' (q + 1) n" by (rule Suc.IH)
  then show ?case using Suc.prems [of 0] by simp
qed simp

subsection \<open>Properties\<close>

text \<open>C18. \<open>memmove\<close> is a copy for overlapping buffers too: the destination holds what the source
  held before the call, and no byte outside the destination changes. The only requirement is that
  neither buffer wraps around the end of the address space.\<close>

theorem memmove_correct:
  assumes "unat dst + unat n \<le> 2 ^ 64" and "unat src + unat n \<le> 2 ^ 64"
  shows "bytes_at (memmove dst src n m) dst (unat n) = bytes_at m src (unat n) \<and>
         (\<forall>a. n \<le> a - dst \<longrightarrow> memmove dst src n m a = m a)"
proof
  have "memmove dst src n m (dst + of_nat i) = m (src + of_nat i)" if "i < unat n" for i
  proof -
    have "unat (of_nat i :: u64) = i" using that unat_u64_lt [of n] by (simp add: unat_of_nat)
    then show ?thesis using that by (simp add: memmove_at [OF assms] word_less_nat_alt)
  qed
  then show "bytes_at (memmove dst src n m) dst (unat n) = bytes_at m src (unat n)"
    by (rule bytes_at_cong)
qed (auto simp: memmove_at [OF assms])

theorem memmove_correct_witness:
  "bytes_at (memmove 102 100 4 (\<lambda>a. ucast a)) 102 4 = [100, 101, 102, 103] \<and>
   memmove 102 100 4 (\<lambda>a. ucast a) 106 = 106"
proof -
  have pre: "unat (102 :: u64) + unat (4 :: u64) \<le> 2 ^ 64" "unat (100 :: u64) + unat (4 :: u64) \<le> 2 ^ 64"
    by simp_all
  have "bytes_at (\<lambda>a. ucast a) 100 4 = [100, 101, 102, 103]"
    by simp
  then show ?thesis using memmove_correct [OF pre, of "\<lambda>a. ucast a"] by simp
qed

text \<open>\<open>strncpy\<close> leaves a terminated string, the source cut to at most \<open>sz\<close> bytes, and touches
  nothing past its terminator; \<open>strcmp\<close> then tells it apart from the source exactly when it was cut.
  The copy needs the destination not to start inside the source.\<close>

theorem strncpy_terminates:
  fixes sz :: u64
  assumes "cstr m s bs" and "s \<noteq> NULL" and "d \<noteq> NULL"
    and "length bs < unat (d - s)" and "unat sz < unat (s - d)"
  shows "\<exists>m'. strncpy d s sz m = Some m' \<and> cstr m' d (take (unat sz) bs) \<and>
              strlen m' d = Some (of_nat (min (length bs) (unat sz))) \<and>
              strcmp d s m' = Some (if length bs \<le> unat sz then 0 else 1) \<and>
              (\<forall>a. min (length bs) (unat sz) < unat (a - d) \<longrightarrow> m' a = m a)"
proof -
  let ?k = "min (length bs) (unat sz)"
  have take_k: "take ?k bs = take (unat sz) bs" by (simp add: min_def)
  obtain m' where m': "strncpy d s sz m = Some m'" "cstr m' d (take (unat sz) bs)"
    and frame: "\<forall>a. ?k < unat (a - d) \<longrightarrow> m' a = m a"
    using strncpy_cstr [OF assms(1,2,4), of sz] unfolding take_k by blast
  have apart: "?k < unat (s + of_nat i - d)" if "i \<le> length bs" for i
  proof -
    have i: "unat (of_nat i :: u64) = i"
      using that cstr_length [OF assms(1)] by (simp add: unat_of_nat)
    have "unat (s - d) + unat (d - s) = 2 ^ 64"
      using assms(4) by (intro unat_sub_both_ways) auto
    then have "unat (s - d + of_nat i) = unat (s - d) + i"
      using that assms(4) i by (subst unat_add_no_wrap) auto
    moreover have "s + of_nat i - d = s - d + of_nat i" by simp
    ultimately have "unat (s + of_nat i - d) = unat (s - d) + i" by metis
    then show ?thesis using assms(5) by linarith
  qed
  have "cstr m' s bs"
    using cstr_nth [OF assms(1)] cstr_end [OF assms(1)] apart frame by (intro cstr_I) auto
  then have "strcmp d s m' = Some (if take (unat sz) bs = bs then 0 else 1)"
    by (rule strcmp_cstr [OF m'(2) _ assms(3,2)])
  moreover have "take (unat sz) bs = bs \<longleftrightarrow> length bs \<le> unat sz"
    by (metis length_take min.absorb_iff1 min.commute take_all)
  ultimately show ?thesis using m' frame strlen_cstr [OF m'(2) assms(3)] by (auto simp: min.commute)
qed

definition two_letters :: mem where
  "two_letters = (\<lambda>_. 0)(100 := 97, 101 := 98)"

theorem strncpy_terminates_witness:
  "\<exists>m'. strncpy 200 100 1 two_letters = Some m' \<and> cstr m' 200 [97] \<and>
        strlen m' 200 = Some 1 \<and> strcmp 200 100 m' = Some 1"
proof -
  have "cstr two_letters 100 [97, 98]" by (simp add: two_letters_def)
  moreover have "length [97 :: u8, 98] < unat (200 - 100 :: u64)" "unat (1 :: u64) < unat (100 - 200 :: u64)"
    by simp_all
  ultimately show ?thesis
    using strncpy_terminates [of two_letters 100 "[97, 98]" 200 1] by auto
qed

end
