(* ===== verification/Kstdlib.thy ===== *)
theory Kstdlib
  imports Kstring "HOL-Library.Signed_Division"
begin

text \<open>
  \<^verbatim>\<open>kernel/kairax/stdlib.c\<close> and \<^verbatim>\<open>kernel/kairax/ctype.c\<close>: alignment of sizes, number formatting
  and number parsing on the byte memory of \<^verbatim>\<open>Kstring\<close>. The conversions \<open>ulltoa\<close>/\<open>strtoul\<close> and
  \<open>lltoa\<close>/\<open>strtol\<close> are shown to be inverse to each other on every value whose magnitude fits.
\<close>

subsection \<open>Alignment\<close>

definition align :: "u64 \<Rightarrow> u64 \<Rightarrow> u64" where
  "align val alignment =
     (if val < alignment then alignment
      else if val mod alignment \<noteq> 0 then val + (alignment - val mod alignment)
      else val)"

definition align_down :: "u64 \<Rightarrow> u64 \<Rightarrow> u64" where
  "align_down val alignment = val - val mod alignment"

subsection \<open>Character classes (arguments are \<open>int\<close>)\<close>

definition isalpha :: "int \<Rightarrow> bool" where
  "isalpha character \<longleftrightarrow> character \<ge> 97 \<and> character \<le> 122 \<or> character \<ge> 65 \<and> character \<le> 90"

definition isdigit :: "int \<Rightarrow> bool" where
  "isdigit character \<longleftrightarrow> character \<ge> 48 \<and> character \<le> 57"

definition isspace :: "int \<Rightarrow> bool" where
  "isspace c \<longleftrightarrow> c = 32"

definition iscntrl :: "int \<Rightarrow> bool" where
  "iscntrl c \<longleftrightarrow> c < 32 \<or> c = 127"

definition tolower :: "int \<Rightarrow> int" where
  "tolower c = (if 65 \<le> c \<and> c \<le> 90 then c + (97 - 65) else c)"

subsection \<open>Reversal in place\<close>

definition swap_cells :: "mem \<Rightarrow> ptr \<Rightarrow> ptr \<Rightarrow> mem" where
  "swap_cells m a b = m(a := m b, b := m a)"

partial_function (option) reverse_loop :: "ptr \<Rightarrow> ptr \<Rightarrow> mem \<Rightarrow> mem option" where
  "reverse_loop src dst m =
     (if src < dst then reverse_loop (src + 1) (dst - 1) (swap_cells m src dst) else Some m)"

definition reverse :: "ptr \<Rightarrow> mem \<Rightarrow> mem option" where
  "reverse str m =
     (if str \<noteq> NULL
      then do {
        len \<leftarrow> strlen m str;
        if len > 1 then reverse_loop str (str + len - 1) m else Some m
      }
      else Some m)"

subsection \<open>Parsing\<close>

text \<open>\<open>char\<close> is signed: bytes from 128 on are negative and neither space nor digit.\<close>

partial_function (option) skip_spaces :: "mem \<Rightarrow> ptr \<Rightarrow> ptr option" where
  "skip_spaces m curpos = (if isspace (sint (m curpos)) then skip_spaces m (curpos + 1) else Some curpos)"

partial_function (option) parse_digits :: "mem \<Rightarrow> ptr \<Rightarrow> u64 \<Rightarrow> (u64 \<times> ptr) option" where
  "parse_digits m curpos val =
     (if isdigit (sint (m curpos))
      then parse_digits m (curpos + 1) (val * 10 + (ucast (m curpos) - 48))
      else Some (val, curpos))"

text \<open>The result and the position stored through \<open>endptr\<close>; \<open>base\<close> is not used by the code.\<close>

definition strtoul :: "mem \<Rightarrow> ptr \<Rightarrow> (u64 \<times> ptr) option" where
  "strtoul m nptr = do { curpos \<leftarrow> skip_spaces m nptr; parse_digits m curpos 0 }"

definition strtol :: "mem \<Rightarrow> ptr \<Rightarrow> (int \<times> ptr) option" where
  "strtol m nptr = do {
     curpos \<leftarrow> skip_spaces m nptr;
     let neg = (m curpos = 45);
     let curpos = (if m curpos = 45 \<or> m curpos = 43 then curpos + 1 else curpos);
     (val, e) \<leftarrow> strtoul m curpos;
     Some (sint (if neg then - val else val), e)
   }"

definition atol :: "mem \<Rightarrow> ptr \<Rightarrow> int option" where
  "atol m s = map_option fst (strtol m s)"

definition atoi :: "mem \<Rightarrow> ptr \<Rightarrow> int option" where
  "atoi m s = map_option (\<lambda>v. sint (of_int v :: u32)) (atol m s)"

subsection \<open>Formatting\<close>

definition digit_char :: "int \<Rightarrow> u8" where
  "digit_char digit = of_int (if digit > 9 then digit + 65 - 10 else digit + 48)"

partial_function (option) ulltoa_loop ::
    "u64 \<Rightarrow> ptr \<Rightarrow> nat \<Rightarrow> u64 \<Rightarrow> mem \<Rightarrow> (nat \<times> mem) option" where
  "ulltoa_loop number str count base m =
     (if base = 0 then None
      else let m = m(str + of_nat count := digit_char (sint (number mod base)));
               number = number div base
           in if number \<noteq> 0 then ulltoa_loop number str (count + 1) base m
              else Some (count + 1, m))"

text \<open>\<^verbatim>\<open>for (i = 0; i < k; ++i)\<close> swap \<open>str[i]\<close> and \<open>str[count - i - 1]\<close>\<close>

definition swap_ends :: "ptr \<Rightarrow> nat \<Rightarrow> nat \<Rightarrow> mem \<Rightarrow> mem" where
  "swap_ends str count k m =
     fold (\<lambda>i m. swap_cells m (str + of_nat i) (str + of_nat (count - i - 1))) [0..<k] m"

definition ulltoa :: "u64 \<Rightarrow> ptr \<Rightarrow> u64 \<Rightarrow> mem \<Rightarrow> mem option" where
  "ulltoa number str base m = do {
     (count, m) \<leftarrow> ulltoa_loop number str 0 base m;
     let m = m(str + of_nat count := 0);
     Some (swap_ends str count (count div 2) m)
   }"

text \<open>\<open>long long\<close> values are integers; negating wraps at 64 bits.\<close>

definition wrap64 :: "int \<Rightarrow> int" where
  "wrap64 x = sint (of_int x :: u64)"

partial_function (option) lltoa_loop ::
    "int \<Rightarrow> ptr \<Rightarrow> nat \<Rightarrow> int \<Rightarrow> mem \<Rightarrow> (nat \<times> mem) option" where
  "lltoa_loop number str count base m =
     (if base = 0 then None
      else let m = m(str + of_nat count := digit_char (number smod base));
               number = number sdiv base
           in if number \<noteq> 0 then lltoa_loop number str (count + 1) base m
              else Some (count + 1, m))"

definition lltoa :: "int \<Rightarrow> ptr \<Rightarrow> int \<Rightarrow> mem \<Rightarrow> mem option" where
  "lltoa number str base m = do {
     let neg = number < 0;
     (count, m) \<leftarrow> lltoa_loop (if neg then wrap64 (number * -1) else number) str 0 base m;
     let (count, m) = (if neg then (count + 1, m(str + of_nat count := 45)) else (count, m));
     let m = m(str + of_nat count := 0);
     strrev str m
   }"

text \<open>\<^verbatim>\<open>seize_str\<close>: 16-bit units at \<open>inp\<close>, bytes at \<open>out\<close>; only the low byte is kept.\<close>

partial_function (option) seize_str_loop ::
    "(u64 \<Rightarrow> u16) \<Rightarrow> ptr \<Rightarrow> u64 \<Rightarrow> mem \<Rightarrow> (u64 \<times> mem) option" where
  "seize_str_loop inp out i m =
     (if inp i \<noteq> 0 then seize_str_loop inp out (i + 1) (m(out + i := ucast (inp i)))
      else Some (i, m))"

definition seize_str :: "(u64 \<Rightarrow> u16) \<Rightarrow> ptr \<Rightarrow> mem \<Rightarrow> mem option" where
  "seize_str inp out m = do { (i, m) \<leftarrow> seize_str_loop inp out 0 m; Some (m(out + i := 0)) }"

subsection \<open>Alignment rounds up to the next multiple, and never to zero\<close>

lemma align_unat:
  assumes "0 < a" and "unat v + unat a \<le> 2 ^ 64"
  shows "unat (align v a) =
    (if v < a then unat a
     else if unat v mod unat a = 0 then unat v
     else unat v + (unat a - unat v mod unat a))"
proof -
  have a0: "0 < unat a" using assms by (simp add: word_less_nat_alt)
  have "unat (v + (a - v mod a)) = unat v + (unat a - unat v mod unat a)"
    if "unat v mod unat a \<noteq> 0"
  proof -
    have sub: "unat (a - v mod a) = unat a - unat v mod unat a"
      using a0 by (subst unat_sub) (auto simp: word_le_nat_alt unat_mod less_imp_le)
    then show ?thesis using assms(2) that a0 by (subst unat_add_no_wrap) auto
  qed
  then show ?thesis using unat_0_iff [of "v mod a"] by (auto simp: align_def unat_mod)
qed

text \<open>\<open>align v a\<close> is the least positive multiple of \<open>a\<close> that is at least \<open>v\<close>.\<close>

lemma align_least:
  assumes "0 < a" and "unat v + unat a \<le> 2 ^ 64"
  shows "unat a dvd unat (align v a)" and "v \<le> align v a" and "0 < align v a"
    and "unat (align v a) < unat v + unat a \<or> v = 0"
    and "\<And>k. unat a dvd k \<Longrightarrow> unat v \<le> k \<Longrightarrow> 0 < k \<Longrightarrow> unat (align v a) \<le> k"
proof -
  have a0: "0 < unat a" using assms by (simp add: word_less_nat_alt)
  note al = align_unat [OF assms]
  have up: "unat v + (unat a - unat v mod unat a) = unat a * (unat v div unat a + 1)"
    using mult_div_mod_eq [of "unat a" "unat v"] mod_less_divisor [OF a0, of "unat v"]
    by (simp only: distrib_left mult_1_right)
  show dvd: "unat a dvd unat (align v a)"
    unfolding al using up by (auto intro: dvdI)
  show le: "v \<le> align v a" by (auto simp: word_le_nat_alt al word_less_nat_alt)
  show "0 < align v a"
    using a0 mod_less_divisor [OF a0, of "unat v"] by (auto simp: word_less_nat_alt al)
  show "unat (align v a) < unat v + unat a \<or> v = 0"
    using a0 by (auto simp: al unat_gt_0 word_less_nat_alt unat_0_iff)
  show "unat (align v a) \<le> k" if k: "unat a dvd k" "unat v \<le> k" "0 < k" for k
  proof -
    obtain q where q: "k = unat a * q" using k(1) by blast
    have "unat v div unat a + 1 \<le> q" if "unat v mod unat a \<noteq> 0"
    proof (rule ccontr)
      assume "\<not> ?thesis"
      then have "unat a * q \<le> unat a * (unat v div unat a)" by simp
      then show False using k(2) q that mult_div_mod_eq [of "unat a" "unat v"] by linarith
    qed
    then show ?thesis using k q up dvd_imp_le [OF k(1,3)]
      by (auto simp: al simp del: mult_Suc_right)
  qed
qed

lemma of_nat_u64_eq_iff:
  assumes "i < 2 ^ 64" and "j < 2 ^ 64"
  shows "(of_nat i :: u64) = of_nat j \<longleftrightarrow> i = j"
proof
  assume "(of_nat i :: u64) = of_nat j"
  then have "unat (of_nat i :: u64) = unat (of_nat j :: u64)" by simp
  then show "i = j" using assms by (simp add: unat_of_nat)
qed simp

subsection \<open>Writing a run of bytes\<close>

fun store :: "mem \<Rightarrow> ptr \<Rightarrow> u8 list \<Rightarrow> mem" where
  "store m p [] = m"
| "store m p (b # bs) = store (m(p := b)) (p + 1) bs"

lemma store_at:
  assumes "length bs < 2 ^ 64"
  shows "store m p bs a = (if unat (a - p) < length bs then bs ! unat (a - p) else m a)"
  using assms
proof (induction bs arbitrary: p m)
  case (Cons b bs)
  then have IH: "store m' (p + 1) bs a =
      (if unat (a - (p + 1)) < length bs then bs ! unat (a - (p + 1)) else m' a)" for m'
    by simp
  show ?case
  proof (cases "a = p")
    case True
    then show ?thesis using Cons.prems IH [of "m(p := b)"] by (simp add: unat_u64_minus_1)
  next
    case False
    note off = unat_minus_one_more [OF False]
    then have "bs ! unat (a - (p + 1)) = (b # bs) ! unat (a - p)" by simp
    then show ?thesis using False off by (auto simp: IH)
  qed
qed simp

lemma store_append: "store m p (bs @ cs) = store (store m p bs) (p + of_nat (length bs)) cs"
  by (induction bs arbitrary: m p) (auto simp: add.assoc)

lemma cstr_store:
  assumes "length bs < 2 ^ 64" and "0 \<notin> set bs"
  shows "cstr ((store m p bs)(p + of_nat (length bs) := 0)) p bs"
proof (rule cstr_I)
  fix i assume i: "i < length bs"
  then have "unat (of_nat i :: u64) = i" using assms(1) by (simp add: unat_of_nat)
  moreover have "(of_nat i :: u64) \<noteq> of_nat (length bs)"
    using i assms(1) by (simp add: of_nat_u64_eq_iff)
  ultimately show "((store m p bs)(p + of_nat (length bs) := 0)) (p + of_nat i) = bs ! i \<and> bs ! i \<noteq> 0"
    using i assms by (auto simp: store_at in_set_conv_nth)
qed simp

subsection \<open>Reversal\<close>

lemma swap_ends_at:
  assumes "n < 2 ^ 64" and "k \<le> n div 2" and "j < n"
  shows "swap_ends p n k m (p + of_nat j) =
    (if j < k \<or> n - k \<le> j then m (p + of_nat (n - j - 1)) else m (p + of_nat j))"
  using assms(2,3)
proof (induction k arbitrary: j)
  case 0
  then show ?case by (simp add: swap_ends_def)
next
  case (Suc k)
  let ?m = "swap_ends p n k m"
  have IH: "?m (p + of_nat j) =
      (if j < k \<or> n - k \<le> j then m (p + of_nat (n - j - 1)) else m (p + of_nat j))" if "j < n" for j
    using Suc that by simp
  have step: "swap_ends p n (Suc k) m = swap_cells ?m (p + of_nat k) (p + of_nat (n - k - 1))"
    by (simp add: swap_ends_def)
  have eq: "(of_nat j :: u64) = of_nat k \<longleftrightarrow> j = k" "(of_nat j :: u64) = of_nat (n - k - 1) \<longleftrightarrow> j = n - k - 1"
    "(of_nat k :: u64) = of_nat (n - k - 1) \<longleftrightarrow> k = n - k - 1"
    by (rule of_nat_u64_eq_iff; use Suc.prems assms(1) in linarith)+
  let ?l = "n - k - 1"
  have val: "swap_ends p n (Suc k) m (p + of_nat j) =
      (if j = ?l then ?m (p + of_nat k) else if j = k then ?m (p + of_nat ?l) else ?m (p + of_nat j))"
    by (simp only: step swap_cells_def fun_upd_apply add_left_cancel eq)
  have l: "k < n" "?l < n" "n - k - 1 - k > 0" "n - ?l - 1 = k" using Suc.prems by linarith+
  have kl: "?m (p + of_nat k) = m (p + of_nat k)" "?m (p + of_nat ?l) = m (p + of_nat ?l)"
    using IH [OF l(1)] IH [OF l(2)] l(3) by (auto simp del: of_nat_diff)
  consider "j = ?l" | "j = k" "j \<noteq> ?l" | "j \<noteq> k" "j \<noteq> ?l" by blast
  then show ?case
  proof cases
    case 1
    then have j: "n - Suc k \<le> j" "n - j - 1 = k" using l by linarith+
    show ?thesis unfolding val j(2) using 1 j(1) kl(1) by presburger
  next
    case 2
    then have "j < Suc k" by simp
    then show ?thesis unfolding val using 2 kl(2) by presburger
  next
    case 3
    then have "(j < Suc k \<or> n - Suc k \<le> j) = (j < k \<or> n - k \<le> j)" by linarith
    then show ?thesis using 3 IH [OF Suc.prems(2)] by (simp only: val if_False)
  qed
qed

lemma swap_ends_frame:
  assumes "n < 2 ^ 64" and "k \<le> n div 2" and "n \<le> unat (a - p)"
  shows "swap_ends p n k m a = m a"
  using assms(2)
proof (induction k)
  case (Suc k)
  have "unat (of_nat k :: u64) = k" "unat (of_nat (n - k - 1) :: u64) = n - k - 1"
    using Suc.prems assms(1) by (auto simp: unat_of_nat simp del: of_nat_diff)
  then have "a \<noteq> p + of_nat k" "a \<noteq> p + of_nat (n - k - 1)"
    using Suc.prems assms(3) by auto
  then show ?case using Suc by (simp add: swap_ends_def swap_cells_def)
qed (simp add: swap_ends_def)

lemma cstr_swap_ends:
  assumes c: "cstr m p bs"
  shows "cstr (swap_ends p (length bs) (length bs div 2) m) p (rev bs)"
proof (rule cstr_I)
  let ?n = "length bs"
  note n64 = cstr_length [OF c]
  fix i assume "i < length (rev bs)"
  then have i: "i < ?n" by simp
  have mid: "i = ?n - i - 1" if "\<not> (i < ?n div 2 \<or> ?n - ?n div 2 \<le> i)" using that i by linarith
  have "swap_ends p ?n (?n div 2) m (p + of_nat i) = m (p + of_nat (?n - i - 1))"
    using swap_ends_at [OF n64 order_refl i, of p m] mid by metis
  also have "\<dots> = bs ! (?n - i - 1)" using cstr_nth [OF c, of "?n - i - 1"] i by linarith
  finally show "swap_ends p ?n (?n div 2) m (p + of_nat i) = rev bs ! i \<and> rev bs ! i \<noteq> 0"
    using cstr_nth [OF c, of "?n - i - 1"] i by (simp add: rev_nth)
next
  show "swap_ends p (length bs) (length bs div 2) m (p + of_nat (length (rev bs))) = 0"
    using cstr_length [OF c] cstr_end [OF c] by (simp add: swap_ends_frame unat_of_nat)
qed

lemma strrev_loop_swap_ends:
  assumes "n < 2 ^ 64" and "0 < n" and "i \<le> n div 2"
  shows "strrev_loop p (of_nat i) (of_nat (n - Suc i)) (swap_ends p n i m) =
         Some (swap_ends p n (n div 2) m)"
  using assms(3)
proof (induction "n div 2 - i" arbitrary: i)
  case 0
  then have "i = n div 2" "n - Suc i \<le> i" by simp_all
  moreover have "\<not> (of_nat i :: u64) < of_nat (n - Suc i)"
    using calculation assms(1) by (simp add: word_less_nat_alt unat_of_nat del: of_nat_diff)
  ultimately show ?case by (subst strrev_loop.simps) simp
next
  case (Suc d)
  then have i: "i < n div 2" by simp
  then have lt: "(of_nat i :: u64) < of_nat (n - Suc i)"
    using assms(1) by (simp add: word_less_nat_alt unat_of_nat del: of_nat_diff)
  have j: "(of_nat (n - Suc i) :: u64) - 1 = of_nat (n - Suc (Suc i))"
    using i by (subst of_nat_1 [symmetric], subst of_nat_diff [symmetric]) (auto simp del: of_nat_diff)
  have sw: "(swap_ends p n i m)(p + of_nat i := swap_ends p n i m (p + of_nat (n - Suc i)),
      p + of_nat (n - Suc i) := swap_ends p n i m (p + of_nat i)) = swap_ends p n (Suc i) m"
    by (simp add: swap_ends_def swap_cells_def)
  have "strrev_loop p (of_nat (Suc i)) (of_nat (n - Suc (Suc i))) (swap_ends p n (Suc i) m) =
        Some (swap_ends p n (n div 2) m)"
    using Suc by (intro Suc.hyps(1)) simp_all
  then show ?case
    using lt by (subst strrev_loop.simps) (simp add: j sw add.commute del: of_nat_diff)
qed

lemma strrev_cstr:
  assumes "cstr m p bs" and "p \<noteq> NULL" and "bs \<noteq> []"
  shows "strrev p m = Some (swap_ends p (length bs) (length bs div 2) m)"
proof -
  have "(of_nat (length bs) :: u64) - 1 = of_nat (length bs - Suc 0)"
    using assms(3) by (cases bs) simp_all
  then have "strrev p m = strrev_loop p (of_nat 0) (of_nat (length bs - Suc 0)) (swap_ends p (length bs) 0 m)"
    using strlen_cstr [OF assms(1,2)] by (simp add: strrev_def swap_ends_def)
  then show ?thesis
    using strrev_loop_swap_ends [OF cstr_length [OF assms(1)], of 0 p m] assms(3) by simp
qed

subsection \<open>Digits\<close>

text \<open>The digits of a number in a base, least significant first.\<close>

fun digits_of :: "nat \<Rightarrow> nat \<Rightarrow> nat list" where
  "digits_of b n = (if 2 \<le> b \<and> b \<le> n then n mod b # digits_of b (n div b) else [n])"

declare digits_of.simps [simp del]

lemma digits_of_ne [simp]: "digits_of b n \<noteq> []"
  by (subst digits_of.simps) simp

lemma digits_of_lt: "2 \<le> b \<Longrightarrow> d \<in> set (digits_of b n) \<Longrightarrow> d < b"
  by (induction b n rule: digits_of.induct) (subst (asm) (2) digits_of.simps, auto split: if_splits)

lemma digits_of_length: "2 \<le> b \<Longrightarrow> n < b ^ k \<Longrightarrow> 0 < k \<Longrightarrow> length (digits_of b n) \<le> k"
proof (induction k arbitrary: n)
  case (Suc k)
  show ?case
  proof (cases "b \<le> n")
    case True
    have "0 < k" using True Suc.prems by (cases k) auto
    moreover have "n div b < b ^ k" using Suc.prems by (simp add: less_mult_imp_div_less mult.commute)
    ultimately show ?thesis using Suc True by (subst digits_of.simps) simp
  next
    case False
    then show ?thesis by (subst digits_of.simps) simp
  qed
qed simp

text \<open>Horner's rule on the digits, most significant first, gives the number back.\<close>

lemma digits_of_value: "2 \<le> b \<Longrightarrow> foldr (\<lambda>d v. v * b + d) (digits_of b n) 0 = n"
proof (induction b n rule: digits_of.induct)
  case (1 b n)
  then show ?case by (subst digits_of.simps) (auto simp: mult.commute)
qed

lemma ulltoa_loop_store:
  assumes "2 \<le> base" and "base < 2 ^ 31"
  shows "ulltoa_loop number str c base m =
    (let ds = digits_of (unat base) (unat number)
     in Some (c + length ds, store m (str + of_nat c) (map (\<lambda>d. digit_char (int d)) ds)))"
proof (induction "unat number" arbitrary: number c m rule: less_induct)
  case less
  have b: "2 \<le> unat base" "unat base < 2 ^ 31"
    using assms by (auto simp: word_le_nat_alt word_less_nat_alt)
  have md: "unat number mod unat base < 2 ^ 63"
    using b by (intro less_trans [OF mod_less_divisor]) auto
  then have dig: "sint (number mod base) = int (unat number mod unat base)"
    by (subst sint_small) (simp_all add: unat_mod)
  have nz: "base \<noteq> 0" using b by auto
  have q0: "number div base = 0 \<longleftrightarrow> unat number < unat base"
    using b by (auto simp: word_unat_eq_iff unat_div div_eq_0_iff)
  show ?case
  proof (cases "unat base \<le> unat number")
    case True
    then have "unat (number div base) < unat number" using b by (simp add: unat_div)
    note IH = less(1) [OF this]
    show ?thesis using True b q0 nz dig
      by (subst ulltoa_loop.simps, subst digits_of.simps) (simp add: Let_def IH unat_div add.assoc add.commute [of 1])
  next
    case False
    then show ?thesis using b q0 nz dig
      by (subst ulltoa_loop.simps, subst digits_of.simps) (simp add: Let_def)
  qed
qed

lemma lltoa_loop_store:
  assumes "2 \<le> base" and "0 \<le> number"
  shows "lltoa_loop number str c base m =
    (let ds = digits_of (nat base) (nat number)
     in Some (c + length ds, store m (str + of_nat c) (map (\<lambda>d. digit_char (int d)) ds)))"
  using assms(2)
proof (induction "nat number" arbitrary: number c m rule: less_induct)
  case less
  have sd: "number smod base = int (nat number mod nat base)" "number sdiv base = number div base"
    using assms less.prems
    by (cases "number = 0"; simp add: signed_modulo_int_def signed_divide_int_def zmod_int)+
  have q: "nat (number div base) = nat number div nat base" using assms less.prems by (simp add: nat_div_distrib)
  have b2: "2 \<le> nat base" using assms by simp
  show ?case
  proof (cases "base \<le> number")
    case True
    then have "number div base \<noteq> 0" "nat (number div base) < nat number" "0 \<le> number div base"
      using assms less.prems by (auto simp: pos_imp_zdiv_neg_iff pos_imp_zdiv_nonneg_iff int_div_less_self div_int_pos_iff zdiv_eq_0_iff)
    then show ?thesis using True assms less.prems sd less.hyps [of "number div base"] b2
      by (subst lltoa_loop.simps, subst digits_of.simps)
        (simp add: Let_def q nat_le_eq_zle add.assoc add.commute [of 1])
  next
    case False
    then show ?thesis using assms less.prems sd
      by (subst lltoa_loop.simps, subst digits_of.simps) (simp add: Let_def nat_le_eq_zle)
  qed
qed

lemma digit_char_dec:
  assumes "d < 10"
  shows "digit_char (int d) \<noteq> 0" and "isdigit (sint (digit_char (int d)))"
    and "ucast (digit_char (int d)) - 48 = (of_nat d :: u64)"
    and "\<not> isspace (sint (digit_char (int d)))"
    and "digit_char (int d) \<noteq> 45" and "digit_char (int d) \<noteq> 43"
proof -
  have "d = 0 \<or> d = 1 \<or> d = 2 \<or> d = 3 \<or> d = 4 \<or> d = 5 \<or> d = 6 \<or> d = 7 \<or> d = 8 \<or> d = 9"
    using assms by auto
  then have "digit_char (int d) \<noteq> 0 \<and> isdigit (sint (digit_char (int d))) \<and>
      ucast (digit_char (int d)) - 48 = (of_nat d :: u64) \<and>
      \<not> isspace (sint (digit_char (int d))) \<and> digit_char (int d) \<noteq> 45 \<and> digit_char (int d) \<noteq> 43"
    by (elim disjE; hypsubst; simp add: digit_char_def isdigit_def isspace_def)
  then show "digit_char (int d) \<noteq> 0" and "isdigit (sint (digit_char (int d)))"
    and "ucast (digit_char (int d)) - 48 = (of_nat d :: u64)"
    and "\<not> isspace (sint (digit_char (int d)))"
    and "digit_char (int d) \<noteq> 45" and "digit_char (int d) \<noteq> 43"
    by blast+
qed

lemma parse_digits_cstr:
  "cstr m p (map (\<lambda>d. digit_char (int d)) ds) \<Longrightarrow> (\<And>d. d \<in> set ds \<Longrightarrow> d < 10) \<Longrightarrow>
   parse_digits m p v = Some (foldl (\<lambda>v d. v * 10 + of_nat d) v ds, p + of_nat (length ds))"
proof (induction ds arbitrary: p v)
  case Nil
  then show ?case by (subst parse_digits.simps) (simp add: isdigit_def)
next
  case (Cons d ds)
  then have mp: "m p = digit_char (int d)" "d < 10" by simp_all
  have "parse_digits m (p + 1) (v * 10 + of_nat d) =
      Some (foldl (\<lambda>v d. v * 10 + of_nat d) (v * 10 + of_nat d) ds, p + 1 + of_nat (length ds))"
    using Cons.prems by (intro Cons.IH) auto
  then show ?case
    using mp(1) digit_char_dec(2,3) [OF mp(2)] by (subst parse_digits.simps) (simp add: add.assoc)
qed

lemma digit_char_nz: "d < 200 \<Longrightarrow> digit_char (int d) \<noteq> 0"
proof -
  assume "d < 200"
  then have "\<not> (2 ^ 8 :: int) dvd int d + 65 - 10" "\<not> (2 ^ 8 :: int) dvd int d + 48"
    by (auto dest!: zdvd_imp_le)
  then show ?thesis by (simp add: digit_char_def word_of_int_eq_0_iff)
qed

lemma digits_word_value:
  "foldl (\<lambda>v d. v * 10 + of_nat d) 0 (rev (digits_of 10 n)) = (of_nat n :: u64)"
proof -
  have "foldr (\<lambda>d v. v * 10 + of_nat d) ds 0 = (of_nat (foldr (\<lambda>d v. v * 10 + d) ds 0) :: u64)" for ds
    by (induction ds) simp_all
  then show ?thesis using digits_of_value [of 10 n] by (simp add: foldl_conv_foldr)
qed

lemma skip_spaces_stop: "\<not> isspace (sint (m p)) \<Longrightarrow> skip_spaces m p = Some p"
  by (subst skip_spaces.simps) simp

lemma strtoul_decimal:
  assumes "cstr m p (rev (map (\<lambda>d. digit_char (int d)) (digits_of 10 n)))"
  shows "strtoul m p = Some (of_nat n, p + of_nat (length (digits_of 10 n)))"
proof -
  let ?ds = "rev (digits_of 10 n)"
  have c: "cstr m p (map (\<lambda>d. digit_char (int d)) ?ds)" using assms by (simp add: rev_map)
  have lt: "\<And>d. d \<in> set ?ds \<Longrightarrow> d < 10" using digits_of_lt [of 10 _ n] by simp
  obtain d es where ds: "?ds = d # es" by (cases ?ds) auto
  then have "m p = digit_char (int d)" "d < 10" using c lt [of d] by simp_all
  then have "skip_spaces m p = Some p" using digit_char_dec(4) [of d] by (simp add: skip_spaces_stop)
  then show ?thesis
    using parse_digits_cstr [OF c lt, of 0] by (simp add: strtoul_def digits_word_value)
qed

text \<open>The text \<open>ulltoa\<close> leaves at \<open>p\<close> for any base up to 200, most significant digit first.\<close>

lemma ulltoa_cstr:
  fixes n :: u64
  assumes "2 \<le> base" and "base \<le> 200"
  defines "ds \<equiv> digits_of (unat base) (unat n)"
  shows "\<exists>m'. ulltoa n p base m = Some m' \<and> cstr m' p (rev (map (\<lambda>d. digit_char (int d)) ds)) \<and>
              (\<forall>a. length ds < unat (a - p) \<longrightarrow> m' a = m a)"
proof -
  let ?bs = "map (\<lambda>d. digit_char (int d)) ds" and ?k = "length ds"
  have b: "2 \<le> unat base" "unat base \<le> 200" using assms by (simp_all add: word_le_nat_alt)
  have "unat n < unat base ^ 64"
    using unat_u64_lt [of n] power_mono [OF b(1), of 64] by linarith
  then have k64: "?k < 2 ^ 64" using digits_of_length [OF b(1), of "unat n" 64] by (simp add: ds_def)
  have nz: "0 \<notin> set ?bs"
    using digits_of_lt [OF b(1), of _ "unat n"] b(2) digit_char_nz by (fastforce simp: ds_def)
  define m1 where "m1 = (store m p ?bs)(p + of_nat ?k := 0)"
  have c: "cstr m1 p ?bs" using cstr_store [of ?bs m p] k64 nz by (simp add: m1_def)
  have base: "base < 2 ^ 31" using b by (simp add: word_less_nat_alt)
  have "ulltoa n p base m = Some (swap_ends p ?k (?k div 2) m1)"
    using ulltoa_loop_store [OF assms(1) base, of n p 0 m] by (simp add: ulltoa_def Let_def ds_def m1_def)
  moreover have "swap_ends p ?k (?k div 2) m1 a = m a" if a: "?k < unat (a - p)" for a
  proof -
    have "a \<noteq> p + of_nat ?k" using a k64 by (auto simp: unat_of_nat)
    then show ?thesis using a k64 by (simp add: swap_ends_frame m1_def store_at)
  qed
  ultimately show ?thesis using cstr_swap_ends [OF c] by simp
qed

lemma sint_of_int_u64: "- (2 ^ 63) \<le> x \<Longrightarrow> x < 2 ^ 63 \<Longrightarrow> sint (of_int x :: u64) = x"
  by (simp add: sint_sbintrunc' signed_take_bit_int_eq_self)

lemma lltoa_cstr:
  assumes "- (2 ^ 63) < n" and "n < 2 ^ 63" and "p \<noteq> NULL"
  defines "bs \<equiv> map (\<lambda>d. digit_char (int d)) (digits_of 10 (nat \<bar>n\<bar>)) @ (if n < 0 then [45] else [])"
  shows "\<exists>m'. lltoa n p 10 m = Some m' \<and> cstr m' p (rev bs)"
proof -
  let ?ds = "digits_of 10 (nat \<bar>n\<bar>)"
  have "nat \<bar>n\<bar> < 2 ^ 63" using assms(1,2) by (simp add: nat_less_iff abs_less_iff)
  then have "nat \<bar>n\<bar> < 10 ^ 19" by simp
  then have "length ?ds \<le> 19" by (intro digits_of_length) simp_all
  moreover have "length bs \<le> length ?ds + 1" by (simp add: bs_def)
  ultimately have k: "length bs < 2 ^ 64" by (simp del: One_nat_def)
  have nz: "0 \<notin> set bs"
    using digits_of_lt [of 10 _ "nat \<bar>n\<bar>"] digit_char_dec(1) by (fastforce simp: bs_def)
  define m1 where "m1 = (store m p bs)(p + of_nat (length bs) := 0)"
  have c: "cstr m1 p bs" using cstr_store [OF k nz] by (simp add: m1_def)
  have "wrap64 (- n) = - n" if "n < 0"
    unfolding wrap64_def using assms(1) that by (intro sint_of_int_u64) simp_all
  then have neg: "(if n < 0 then wrap64 (n * -1) else n) = \<bar>n\<bar>" by simp
  have "lltoa n p 10 m = strrev p m1"
    using lltoa_loop_store [of 10 "\<bar>n\<bar>" p 0 m]
    by (auto simp: lltoa_def neg Let_def m1_def bs_def store_append add.assoc add.commute [of 1] split: if_splits)
  also have "\<dots> = Some (swap_ends p (length bs) (length bs div 2) m1)"
    using strrev_cstr [OF c assms(3)] by (simp add: bs_def)
  finally show ?thesis using cstr_swap_ends [OF c] by blast
qed

lemma strtol_decimal:
  assumes "- (2 ^ 63) < n" and "n < 2 ^ 63"
    and "cstr m p (rev (map (\<lambda>d. digit_char (int d)) (digits_of 10 (nat \<bar>n\<bar>)) @ (if n < 0 then [45] else [])))"
  shows "\<exists>e. strtol m p = Some (n, e)"
proof (cases "n < 0")
  case True
  let ?k = "nat (- n)"
  have c: "m p = 45" "cstr m (p + 1) (rev (map (\<lambda>d. digit_char (int d)) (digits_of 10 ?k)))"
    using assms(3) True by simp_all
  have "- (of_nat ?k :: u64) = of_int n" using True by (simp add: word_of_int_minus)
  then have "sint (- (of_nat ?k :: u64)) = n" using sint_of_int_u64 [of n] assms by simp
  moreover have "skip_spaces m p = Some p" using c(1) by (simp add: skip_spaces_stop isspace_def)
  ultimately show ?thesis using c(1) strtoul_decimal [OF c(2)] by (simp add: strtol_def Let_def)
next
  case False
  let ?ds = "digits_of 10 (nat n)"
  have c: "cstr m p (rev (map (\<lambda>d. digit_char (int d)) ?ds))" using assms(3) False by simp
  obtain d es where ds: "rev ?ds = d # es" by (cases "rev ?ds") auto
  then have "d \<in> set (rev ?ds)" by simp
  then have "d < 10" using digits_of_lt [of 10 d "nat n"] by simp
  moreover have "m p = digit_char (int d)" using c ds by (simp add: rev_map)
  ultimately have mp: "m p \<noteq> 45" "m p \<noteq> 43" "\<not> isspace (sint (m p))"
    using digit_char_dec by simp_all
  have "sint (of_nat (nat n) :: u64) = n" using sint_of_int_u64 [of n] assms False by simp
  then show ?thesis
    using mp strtoul_decimal [OF c] skip_spaces_stop [of m p] by (simp add: strtol_def Let_def)
qed

subsection \<open>Properties\<close>

text \<open>C16. Printing a 64-bit number in decimal and parsing the text gives the number back, with
  \<open>endptr\<close> at the terminator; the text takes at most 20 bytes and a terminator, and nothing else in
  memory changes.\<close>

theorem ulltoa_strtoul_roundtrip:
  "\<exists>m' k. ulltoa n p 10 m = Some m' \<and> k \<le> 20 \<and> strtoul m' p = Some (n, p + of_nat k) \<and>
         m' (p + of_nat k) = 0 \<and> (\<forall>a. k < unat (a - p) \<longrightarrow> m' a = m a)"
proof -
  have ten: "unat (10 :: u64) = 10" by simp
  let ?ds = "digits_of 10 (unat n)"
  obtain m' where m': "ulltoa n p 10 m = Some m'" "cstr m' p (rev (map (\<lambda>d. digit_char (int d)) ?ds))"
      "\<forall>a. length ?ds < unat (a - p) \<longrightarrow> m' a = m a"
    using ulltoa_cstr [of 10 n p m] unfolding ten by auto
  have "unat n < 10 ^ 20" using unat_u64_lt [of n] by simp
  then have "length ?ds \<le> 20" by (intro digits_of_length) simp_all
  moreover have "strtoul m' p = Some (n, p + of_nat (length ?ds))"
    using strtoul_decimal [OF m'(2)] by simp
  moreover have "m' (p + of_nat (length ?ds)) = 0" using cstr_end [OF m'(2)] by simp
  ultimately show ?thesis using m' by blast
qed

theorem ulltoa_strtoul_roundtrip_witness:
  "\<exists>m' k. ulltoa 1024 4096 10 (\<lambda>_. 7) = Some m' \<and> k \<le> 20 \<and>
         strtoul m' 4096 = Some (1024, 4096 + of_nat k) \<and> m' (4096 + of_nat k) = 0 \<and> m' 4117 = 7"
proof -
  obtain m' k where r: "ulltoa 1024 4096 10 (\<lambda>_. 7) = Some m'" "k \<le> 20"
    "strtoul m' 4096 = Some (1024, 4096 + of_nat k)" "m' (4096 + of_nat k) = 0"
    and frame: "\<forall>a. k < unat (a - 4096) \<longrightarrow> m' a = 7"
    using ulltoa_strtoul_roundtrip [of 1024 4096 "\<lambda>_. 7"] by auto
  have "k < unat (4117 - 4096 :: u64)" using r(2) by simp
  then have "m' 4117 = 7" using frame by blast
  then show ?thesis using r by blast
qed

text \<open>C17. The signed conversions are inverse too, for every \<open>long long\<close> but the smallest one, whose
  negation does not fit: \<open>strtol\<close> of the text \<open>lltoa\<close> writes is the number.\<close>

theorem lltoa_strtol_roundtrip:
  assumes "- (2 ^ 63) < n" and "n < 2 ^ 63" and "p \<noteq> NULL"
  shows "\<exists>m' e. lltoa n p 10 m = Some m' \<and> strtol m' p = Some (n, e)"
  using lltoa_cstr [OF assms, of m] strtol_decimal [OF assms(1,2)] by blast

theorem lltoa_strtol_roundtrip_witness:
  "\<exists>m' e. lltoa (- 42) 4096 10 (\<lambda>_. 7) = Some m' \<and> strtol m' 4096 = Some (- 42, e)"
  by (rule lltoa_strtol_roundtrip) simp_all

end
