(* ===== verification/Pmm.thy ===== *)
theory Pmm
  imports Kstdlib
begin

text \<open>
  The physical page allocator, \<^verbatim>\<open>kernel/mem/pmm.c\<close>: a bitmap of pages, one bit per 4 KiB page,
  and the number of pages in use. The bitmap is a function from word index to word; an access
  outside its \<open>MAX_BITMASK_DATA\<close> words is a fault, \<open>None\<close>. Every routine of the file that takes
  the lock runs as one step, so the lock itself has no state here.
\<close>

definition MAX_BITMASK_DATA :: nat where
  "MAX_BITMASK_DATA = 657356"

abbreviation PAGE_SIZE :: u64 where
  "PAGE_SIZE \<equiv> 0x1000"

abbreviation PMM_MAX_REGIONS :: nat where
  "PMM_MAX_REGIONS \<equiv> 100"

record pmm_params_t =
  physical_mem_total :: u64
  kernel_base :: u64
  kernel_size :: u64

record pmm_region =
  rg_base :: u64
  rg_length :: u64
  rg_flags :: int

record pmm =
  bitmap :: "nat \<Rightarrow> u64"
  pages_used :: u64
  pmm_params :: pmm_params_t
  pmm_regions :: "nat \<Rightarrow> pmm_region"
  pmm_regions_count :: nat

subsection \<open>Regions and parameters\<close>

definition pmm_add_region :: "u64 \<Rightarrow> u64 \<Rightarrow> int \<Rightarrow> pmm \<Rightarrow> pmm option" where
  "pmm_add_region base len flags s =
     (if pmm_regions_count s < PMM_MAX_REGIONS
      then Some (s\<lparr>pmm_regions := (pmm_regions s)
                     (pmm_regions_count s := \<lparr>rg_base = base, rg_length = len, rg_flags = flags\<rparr>),
                   pmm_regions_count := pmm_regions_count s + 1\<rparr>)
      else None)"

definition pmm_set_params :: "pmm_params_t \<Rightarrow> pmm \<Rightarrow> pmm" where
  "pmm_set_params params s = s\<lparr>pmm_params := params\<rparr>"

definition pmm_get_physical_mem_size :: "pmm \<Rightarrow> u64" where
  "pmm_get_physical_mem_size s = physical_mem_total (pmm_params s)"

subsection \<open>Bits\<close>

definition set_bit_pmm :: "u64 \<Rightarrow> pmm \<Rightarrow> pmm option" where
  "set_bit_pmm b s =
     (let i = unat (b div 64)
      in if i < MAX_BITMASK_DATA
         then Some (s\<lparr>bitmap := (bitmap s)(i := bitmap s i OR push_bit (unat (b mod 64)) 1)\<rparr>)
         else None)"

definition unset_bit_pmm :: "u64 \<Rightarrow> pmm \<Rightarrow> pmm option" where
  "unset_bit_pmm b s =
     (let i = unat (b div 64)
      in if i < MAX_BITMASK_DATA
         then Some (s\<lparr>bitmap := (bitmap s)(i := bitmap s i AND NOT (push_bit (unat (b mod 64)) 1))\<rparr>)
         else None)"

definition test_bit_pmm :: "u64 \<Rightarrow> pmm \<Rightarrow> bool option" where
  "test_bit_pmm b s =
     (let i = unat (b div 64)
      in if i < MAX_BITMASK_DATA then Some (bitmap s i AND push_bit (unat (b mod 64)) 1 \<noteq> 0) else None)"

text \<open>\<^verbatim>\<open>while (bitmap[i] == 0xFFFFFFFFFFFFFFFF) i++;\<close> \<open>None\<close> when the loop reaches the end of the array.\<close>

function skip_full :: "(nat \<Rightarrow> u64) \<Rightarrow> nat \<Rightarrow> nat option" where
  "skip_full bm i =
     (if i < MAX_BITMASK_DATA
      then if bm i = 0xFFFFFFFFFFFFFFFF then skip_full bm (i + 1) else Some i
      else None)"
  by auto
termination by (relation "measure (\<lambda>(_, i). MAX_BITMASK_DATA - i)") auto

lemma low_bit_div: "(bits :: u64) AND 1 \<noteq> 0 \<Longrightarrow> unat (drop_bit 1 bits) < unat bits"
  by (cases "bits = 0") (auto simp: unat_drop_bit_eq drop_bit_Suc unat_div unat_gt_0)

text \<open>\<^verbatim>\<open>while ((bits & 1) != 0) { bits >>= 1; bitpos++; }\<close>\<close>

function low_zero :: "u64 \<Rightarrow> nat \<Rightarrow> nat" where
  "low_zero bits bitpos =
     (if bits AND 1 \<noteq> 0 then low_zero (drop_bit 1 bits) (bitpos + 1) else bitpos)"
  by auto
termination by (relation "measure (\<lambda>(bits, _). unat bits)") (auto dest: low_bit_div)

declare skip_full.simps [simp del] low_zero.simps [simp del]

text \<open>Here the end of the array is checked, and gives 0.\<close>

definition find_free_page :: "(nat \<Rightarrow> u64) \<Rightarrow> u64" where
  "find_free_page bm =
     (case skip_full bm 0 of
        None \<Rightarrow> 0
      | Some i \<Rightarrow> of_nat i * 64 + of_nat (low_zero (bm i) 0))"

text \<open>
  The \<open>for\<close> loop of \<open>find_free_pages\<close> over the bits of one word, \<open>bitpos = 64 - k\<close>. As in the
  source \<open>bits\<close> is shifted only when its lowest bit is set. \<open>Inr\<close> is the early return.
\<close>

fun scan_word :: "int \<Rightarrow> nat \<Rightarrow> u64 \<Rightarrow> int \<Rightarrow> int + nat" where
  "scan_word pages 0 bits nfound = Inl nfound"
| "scan_word pages (Suc k) bits nfound =
     (if bits AND 1 \<noteq> 0 then scan_word pages k (drop_bit 1 bits) 0
      else if pages = nfound + 1 then Inr (64 - Suc k)
      else scan_word pages k bits (nfound + 1))"

lemma skip_full_ge: "skip_full bm i = Some j \<Longrightarrow> i \<le> j \<and> j < MAX_BITMASK_DATA"
proof (induction bm i rule: skip_full.induct)
  case (1 bm i)
  from "1.prems" show ?case
    by (subst (asm) skip_full.simps) (auto dest: "1.IH" split: if_splits)
qed

text \<open>The inner skip of this loop has no end check: a bitmap full to its end is read out of bounds.\<close>

function find_free_pages_loop :: "(nat \<Rightarrow> u64) \<Rightarrow> int \<Rightarrow> nat \<Rightarrow> int \<Rightarrow> u64 option" where
  "find_free_pages_loop bm pages i nfound =
     (if i < MAX_BITMASK_DATA
      then (case skip_full bm i of
              None \<Rightarrow> None
            | Some j \<Rightarrow>
                (case scan_word pages 64 (bm j) nfound of
                   Inr bitpos \<Rightarrow> Some (of_nat j * 64 + of_nat bitpos - of_int pages + 1)
                 | Inl nfound \<Rightarrow> find_free_pages_loop bm pages (j + 1) nfound))
      else Some 0)"
  by auto
termination
  by (relation "measure (\<lambda>(_, _, i, _). MAX_BITMASK_DATA - i)") (auto dest: skip_full_ge)

declare find_free_pages_loop.simps [simp del]

definition find_free_pages :: "int \<Rightarrow> (nat \<Rightarrow> u64) \<Rightarrow> u64 option" where
  "find_free_pages pages bm = find_free_pages_loop bm pages 0 0"

subsection \<open>Allocation and release\<close>

definition pmm_alloc_page :: "pmm \<Rightarrow> (ptr \<times> pmm) option" where
  "pmm_alloc_page s =
     (let i = find_free_page (bitmap s)
      in if i = 0 then Some (NULL, s)
         else do {
           s \<leftarrow> set_bit_pmm i s;
           Some (i * PAGE_SIZE, s\<lparr>pages_used := pages_used s + 1\<rparr>)
         })"

fun set_bits :: "nat \<Rightarrow> u64 \<Rightarrow> pmm \<Rightarrow> pmm option" where
  "set_bits 0 i s = Some s"
| "set_bits (Suc n) i s = do { s \<leftarrow> set_bit_pmm i s; set_bits n (i + 1) s }"

fun unset_bits :: "nat \<Rightarrow> u64 \<Rightarrow> pmm \<Rightarrow> pmm option" where
  "unset_bits 0 i s = Some s"
| "unset_bits (Suc n) i s = do { s \<leftarrow> unset_bit_pmm i s; unset_bits n (i + 1) s }"

text \<open>The \<open>uint32_t\<close> argument becomes an \<open>int\<close> in the call of \<open>find_free_pages\<close>.\<close>

definition pmm_alloc_pages :: "u32 \<Rightarrow> pmm \<Rightarrow> (ptr \<times> pmm) option" where
  "pmm_alloc_pages pages s = do {
     i \<leftarrow> find_free_pages (sint pages) (bitmap s);
     if i = 0 then Some (NULL, s)
     else do {
       s \<leftarrow> set_bits (unat pages) i s;
       Some (i * PAGE_SIZE, s\<lparr>pages_used := pages_used s + ucast pages\<rparr>)
     }
   }"

text \<open>The number of pages stored through \<open>npages\<close>, the result and the new state.\<close>

definition pmm_alloc :: "u64 \<Rightarrow> pmm \<Rightarrow> (u64 \<times> ptr \<times> pmm) option" where
  "pmm_alloc bytes s =
     (let npages = align bytes PAGE_SIZE div PAGE_SIZE
      in do { (p, s) \<leftarrow> pmm_alloc_pages (ucast npages) s; Some (npages, p, s) })"

definition pmm_free_page :: "ptr \<Rightarrow> pmm \<Rightarrow> pmm option" where
  "pmm_free_page addr s = do {
     s \<leftarrow> unset_bit_pmm (addr div PAGE_SIZE) s;
     Some (s\<lparr>pages_used := pages_used s - 1\<rparr>)
   }"

definition pmm_free_pages :: "ptr \<Rightarrow> u32 \<Rightarrow> pmm \<Rightarrow> pmm option" where
  "pmm_free_pages addr pages s = do {
     s \<leftarrow> unset_bits (unat pages) (addr div PAGE_SIZE) s;
     Some (s\<lparr>pages_used := pages_used s - ucast pages\<rparr>)
   }"

definition pmm_set_mem_region :: "u64 \<Rightarrow> u64 \<Rightarrow> bool \<Rightarrow> pmm \<Rightarrow> pmm option" where
  "pmm_set_mem_region offset sz mark_as_used s =
     (let offset = offset - offset mod PAGE_SIZE;
          sz = align sz PAGE_SIZE
      in do {
        s \<leftarrow> set_bits (unat (sz div PAGE_SIZE)) (offset div PAGE_SIZE) s;
        Some (if mark_as_used then s\<lparr>pages_used := pages_used s + sz div PAGE_SIZE\<rparr> else s)
      })"

definition init_pmm :: "pmm \<Rightarrow> pmm" where
  "init_pmm s = s\<lparr>bitmap := (\<lambda>_. 0), pages_used := 0\<rparr>"

text \<open>\<open>ksize\<close> is the distance of the linker symbols \<open>__KERNEL_VIRT_END\<close> and \<open>__KERNEL_VIRT_LINK\<close>.\<close>

definition pmm_take_base_regions :: "u64 \<Rightarrow> pmm \<Rightarrow> pmm option" where
  "pmm_take_base_regions ksize s = do {
     s \<leftarrow> pmm_set_mem_region 0x0 0x100000 True s;
     pmm_set_mem_region 0x100000 ksize True s
   }"

definition pmm_get_used_pages :: "pmm \<Rightarrow> u64" where
  "pmm_get_used_pages s = pages_used s"

subsection \<open>The set of used pages\<close>

definition page_used :: "pmm \<Rightarrow> nat \<Rightarrow> bool" where
  "page_used s n \<longleftrightarrow> bit (bitmap s (n div 64)) (n mod 64)"

text \<open>The number of pages the bitmap describes.\<close>

abbreviation npages :: nat where
  "npages \<equiv> 64 * MAX_BITMASK_DATA"

lemma npages_val: "npages = 42070784"
  by (simp add: MAX_BITMASK_DATA_def)

lemma unat_div_64: "unat (b div 64 :: u64) = unat b div 64" "unat (b mod 64 :: u64) = unat b mod 64"
  by (simp_all add: unat_div unat_mod)

lemma word_index_lt: "unat (b div 64 :: u64) < MAX_BITMASK_DATA \<longleftrightarrow> unat b < npages"
  by (simp add: unat_div_64 less_mult_imp_div_less mult.commute div_less_iff_less_mult)

lemma bit_one_shifted: "k < 64 \<Longrightarrow> bit (2 ^ k :: u64) j \<longleftrightarrow> j = k"
  by (auto simp: bit_exp_iff)

lemma same_page: "(n :: nat) div 64 = m div 64 \<and> n mod 64 = m mod 64 \<longleftrightarrow> n = m"
  by (metis div_mult_mod_eq)

lemma set_bit_pmm_used:
  assumes "unat b < npages"
  obtains s' where "set_bit_pmm b s = Some s'" "pages_used s' = pages_used s"
    "\<And>n. page_used s' n \<longleftrightarrow> page_used s n \<or> n = unat b"
proof -
  let ?i = "unat b div 64" and ?k = "unat b mod 64"
  let ?s = "s\<lparr>bitmap := (bitmap s)(?i := bitmap s ?i OR push_bit ?k 1)\<rparr>"
  have set: "set_bit_pmm b s = Some ?s"
    using assms word_index_lt [of b] by (simp add: set_bit_pmm_def Let_def unat_div_64)
  have "page_used ?s n \<longleftrightarrow> page_used s n \<or> n = unat b" for n
    using same_page [of n "unat b"] by (auto simp: page_used_def bit_or_iff bit_one_shifted)
  then show ?thesis using set by (intro that [of ?s]) simp_all
qed

lemma unset_bit_pmm_used:
  assumes "unat b < npages"
  obtains s' where "unset_bit_pmm b s = Some s'" "pages_used s' = pages_used s"
    "\<And>n. page_used s' n \<longleftrightarrow> page_used s n \<and> n \<noteq> unat b"
proof -
  let ?i = "unat b div 64" and ?k = "unat b mod 64"
  let ?s = "s\<lparr>bitmap := (bitmap s)(?i := bitmap s ?i AND NOT (push_bit ?k 1))\<rparr>"
  have set: "unset_bit_pmm b s = Some ?s"
    using assms word_index_lt [of b] by (simp add: unset_bit_pmm_def Let_def unat_div_64)
  have "page_used ?s n \<longleftrightarrow> page_used s n \<and> n \<noteq> unat b" for n
    using same_page [of n "unat b"]
    by (auto simp: page_used_def bit_and_iff bit_not_iff bit_one_shifted)
  then show ?thesis using set by (intro that [of ?s]) simp_all
qed

lemma test_bit_pmm_used: "unat b < npages \<Longrightarrow> test_bit_pmm b s = Some (page_used s (unat b))"
  using word_index_lt [of b]
  by (simp add: test_bit_pmm_def Let_def unat_div_64 page_used_def and_exp_eq_0_iff_not_bit)

subsection \<open>Searching\<close>

lemma skip_full_spec:
  "(case skip_full bm i of
      None \<Rightarrow> \<forall>k. i \<le> k \<and> k < MAX_BITMASK_DATA \<longrightarrow> bm k = - 1
    | Some j \<Rightarrow> i \<le> j \<and> j < MAX_BITMASK_DATA \<and> bm j \<noteq> - 1 \<and> (\<forall>k. i \<le> k \<and> k < j \<longrightarrow> bm k = - 1))"
proof (induction bm i rule: skip_full.induct)
  case (1 bm i)
  have full: "(0xFFFFFFFFFFFFFFFF :: u64) = - 1" by simp
  show ?case
  proof (cases "i < MAX_BITMASK_DATA \<and> bm i = - 1")
    case True
    have "skip_full bm i = skip_full bm (i + 1)" using True by (subst skip_full.simps) simp
    moreover have "i \<le> k \<longleftrightarrow> k = i \<or> i + 1 \<le> k" for k by auto
    ultimately show ?thesis using "1.IH" True full by (auto split: option.splits)
  next
    case False
    then show ?thesis by (subst skip_full.simps) auto
  qed
qed

lemma low_bit: "(w :: u64) AND 1 \<noteq> 0 \<longleftrightarrow> bit w 0"
  by (simp add: and_one_eq mod_2_eq_odd bit_0)

lemma low_zero_ex:
  "\<exists>k. low_zero bits p = p + k \<and> \<not> bit bits k \<and> (\<forall>j<k. bit bits j)"
proof (induction bits p rule: low_zero.induct)
  case (1 bits p)
  show ?case
  proof (cases "bit bits 0")
    case True
    then obtain k where k: "low_zero (drop_bit 1 bits) (p + 1) = p + 1 + k"
        "\<not> bit (drop_bit 1 bits) k" "\<forall>j<k. bit (drop_bit 1 bits) j"
      using "1.IH" low_bit by blast
    have "bit bits j" if "j < Suc k" for j
      using k(3) True that by (cases j) (auto simp: bit_drop_bit_eq)
    then show ?thesis using True k low_bit [of bits]
      by (subst low_zero.simps) (intro exI [of _ "Suc k"], auto simp: bit_drop_bit_eq)
  next
    case False
    then show ?thesis using low_bit [of bits] by (subst low_zero.simps) auto
  qed
qed

lemma low_zero_spec:
  fixes bits :: u64
  assumes "bits \<noteq> - 1"
  shows "low_zero bits 0 < 64" "\<not> bit bits (low_zero bits 0)" "\<And>j. j < low_zero bits 0 \<Longrightarrow> bit bits j"
proof -
  obtain k where k: "low_zero bits 0 = k" "\<not> bit bits k" "\<forall>j<k. bit bits j"
    using low_zero_ex [of bits 0] by auto
  have "\<exists>j<64. \<not> bit bits j" using assms by (auto simp: bit_eq_iff)
  then show "low_zero bits 0 < 64" using k by (metis le_less_trans not_le)
  show "\<not> bit bits (low_zero bits 0)" "\<And>j. j < low_zero bits 0 \<Longrightarrow> bit bits j"
    using k by auto
qed

lemma below_in_words:
  "k < 64 * i + b \<Longrightarrow> b < 64 \<Longrightarrow> k div 64 < i \<or> k div 64 = i \<and> k mod 64 < (b :: nat)"
  using mult_div_mod_eq [of 64 k] by linarith

lemma find_free_page_cases:
  obtains (full) "find_free_page (bitmap s) = 0" "\<And>k. k < npages \<Longrightarrow> page_used s k"
  | (found) "unat (find_free_page (bitmap s)) < npages"
      "\<not> page_used s (unat (find_free_page (bitmap s)))"
      "\<And>k. k < unat (find_free_page (bitmap s)) \<Longrightarrow> page_used s k"
proof (cases "skip_full (bitmap s) 0")
  case None
  have "page_used s k" if "k < npages" for k
  proof -
    have "k div 64 < MAX_BITMASK_DATA" using that by (simp add: less_mult_imp_div_less mult.commute)
    then have "bitmap s (k div 64) = - 1" using None skip_full_spec [where bm = "bitmap s" and i = 0] by simp
    then show ?thesis by (simp add: page_used_def)
  qed
  then show ?thesis using None by (intro full) (simp_all add: find_free_page_def)
next
  case (Some i)
  let ?b = "low_zero (bitmap s i) 0"
  have i: "i < MAX_BITMASK_DATA" "bitmap s i \<noteq> - 1" "\<And>k. k < i \<Longrightarrow> bitmap s k = - 1"
    using Some skip_full_spec [where bm = "bitmap s" and i = 0] by auto
  note b = low_zero_spec [OF i(2)]
  have n: "unat (find_free_page (bitmap s)) = 64 * i + ?b"
  proof -
    have "find_free_page (bitmap s) = of_nat (64 * i + ?b)" using Some by (simp add: find_free_page_def)
    moreover have "64 * i + ?b < 2 ^ 64" using i(1) b(1) by (simp add: MAX_BITMASK_DATA_def)
    ultimately show ?thesis by (simp only: unat_of_nat) simp
  qed
  show ?thesis
  proof (rule found)
    show "unat (find_free_page (bitmap s)) < npages" using n i(1) b(1) by linarith
    show "\<not> page_used s (unat (find_free_page (bitmap s)))"
      using b(1,2) by (simp add: n page_used_def)
    fix k assume "k < unat (find_free_page (bitmap s))"
    then have "k div 64 < i \<or> k div 64 = i \<and> k mod 64 < ?b"
      using below_in_words [of k i ?b] n b(1) by simp
    then show "page_used s k" using i(3) b(3) by (auto simp: page_used_def)
  qed
qed

text \<open>The address of page number \<open>n\<close>.\<close>

abbreviation page_addr :: "nat \<Rightarrow> ptr" where
  "page_addr n \<equiv> of_nat n * PAGE_SIZE"

lemma page_addr_div: "n < npages \<Longrightarrow> unat (page_addr n div PAGE_SIZE) = n"
proof -
  assume n: "n < npages"
  then have "unat (of_nat n :: u64) = n" by (simp add: unat_of_nat npages_val)
  moreover have "unat (of_nat n * PAGE_SIZE) = unat (of_nat n :: u64) * 4096"
    using n calculation by (subst unat_mult_lem [THEN iffD1]) (simp_all add: npages_val)
  ultimately show ?thesis by (simp add: unat_div)
qed

lemma page_addr_inj: "n < npages \<Longrightarrow> m < npages \<Longrightarrow> page_addr n = page_addr m \<longleftrightarrow> n = m"
  by (metis page_addr_div)

text \<open>
  \<open>pmm_alloc_page\<close> never faults. It gives \<open>NULL\<close> and leaves the state when no page is free (or
  when page 0 is: the search result 0 means failure), and otherwise the lowest free page.
\<close>

lemma pmm_alloc_page_cases:
  obtains (fail) "pmm_alloc_page s = Some (NULL, s)"
      "(\<forall>k<npages. page_used s k) \<or> \<not> page_used s 0"
  | (found) n s' where "pmm_alloc_page s = Some (page_addr n, s')" "page_addr n \<noteq> NULL"
      "0 < n" "n < npages" "\<not> page_used s n" "\<And>k. k < n \<Longrightarrow> page_used s k"
      "\<And>k. page_used s' k \<longleftrightarrow> page_used s k \<or> k = n" "pages_used s' = pages_used s + 1"
proof -
  let ?i = "find_free_page (bitmap s)"
  show ?thesis
  proof (cases "?i = 0")
    case True
    then have "(\<forall>k<npages. page_used s k) \<or> \<not> page_used s 0"
      by (cases rule: find_free_page_cases [of s]) auto
    then show ?thesis using True by (intro fail) (simp_all add: pmm_alloc_page_def)
  next
    case False
    then have i: "unat ?i < npages" "\<not> page_used s (unat ?i)" "\<And>k. k < unat ?i \<Longrightarrow> page_used s k"
      by (cases rule: find_free_page_cases [of s]; auto)+
    obtain s' where s': "set_bit_pmm ?i s = Some s'" "pages_used s' = pages_used s"
        "\<And>n. page_used s' n \<longleftrightarrow> page_used s n \<or> n = unat ?i"
      using set_bit_pmm_used [OF i(1), of s] by blast
    have "page_addr (unat ?i) \<noteq> page_addr 0"
      using False i(1) by (subst page_addr_inj) (simp_all add: unat_0_iff npages_val)
    then show ?thesis
      using s' i False
      by (intro found [of "unat ?i" "s'\<lparr>pages_used := pages_used s' + 1\<rparr>"])
        (simp_all add: pmm_alloc_page_def page_used_def unat_gt_0)
  qed
qed

lemma pmm_free_page_used:
  assumes "n < npages"
  obtains s' where "pmm_free_page (page_addr n) s = Some s'" "pages_used s' = pages_used s - 1"
    "\<And>k. page_used s' k \<longleftrightarrow> page_used s k \<and> k \<noteq> n"
proof -
  have b: "unat (page_addr n div PAGE_SIZE) < npages" using assms by (simp add: page_addr_div)
  obtain s' where s': "unset_bit_pmm (page_addr n div PAGE_SIZE) s = Some s'"
      "pages_used s' = pages_used s" "\<And>k. page_used s' k \<longleftrightarrow> page_used s k \<and> k \<noteq> n"
    using unset_bit_pmm_used [OF b, of s] page_addr_div [OF assms] by metis
  then show ?thesis
    by (intro that [of "s'\<lparr>pages_used := pages_used s' - 1\<rparr>"])
      (simp_all add: pmm_free_page_def page_used_def)
qed

subsection \<open>Runs of pages\<close>

lemma set_bits_used:
  assumes "unat i + n \<le> npages"
  shows "\<exists>s'. set_bits n i s = Some s' \<and> pages_used s' = pages_used s \<and>
    (\<forall>k. page_used s' k \<longleftrightarrow> page_used s k \<or> unat i \<le> k \<and> k < unat i + n)"
  using assms
proof (induction n arbitrary: i s)
  case (Suc n)
  then have i: "unat i < npages" by simp
  obtain s1 where s1: "set_bit_pmm i s = Some s1" "pages_used s1 = pages_used s"
      "\<And>k. page_used s1 k \<longleftrightarrow> page_used s k \<or> k = unat i"
    using set_bit_pmm_used [OF i] by blast
  have nxt: "unat (i + 1) = unat i + 1"
    using i by (subst unat_add_no_wrap) (simp_all add: npages_val)
  then obtain s2 where s2: "set_bits n (i + 1) s1 = Some s2" "pages_used s2 = pages_used s1"
      "\<And>k. page_used s2 k \<longleftrightarrow> page_used s1 k \<or> unat (i + 1) \<le> k \<and> k < unat (i + 1) + n"
    using Suc.IH [of "i + 1" s1] Suc.prems by auto
  have "page_used s2 k \<longleftrightarrow> page_used s k \<or> unat i \<le> k \<and> k < unat i + Suc n" for k
    unfolding s2(3) s1(3) nxt by (cases "page_used s k"; simp; linarith)
  then show ?case using s1(1,2) s2(1,2) by simp
qed auto

lemma unset_bits_used:
  assumes "unat i + n \<le> npages"
  shows "\<exists>s'. unset_bits n i s = Some s' \<and> pages_used s' = pages_used s \<and>
    (\<forall>k. page_used s' k \<longleftrightarrow> page_used s k \<and> \<not> (unat i \<le> k \<and> k < unat i + n))"
  using assms
proof (induction n arbitrary: i s)
  case (Suc n)
  then have i: "unat i < npages" by simp
  obtain s1 where s1: "unset_bit_pmm i s = Some s1" "pages_used s1 = pages_used s"
      "\<And>k. page_used s1 k \<longleftrightarrow> page_used s k \<and> k \<noteq> unat i"
    using unset_bit_pmm_used [OF i] by blast
  have nxt: "unat (i + 1) = unat i + 1"
    using i by (subst unat_add_no_wrap) (simp_all add: npages_val)
  then obtain s2 where s2: "unset_bits n (i + 1) s1 = Some s2" "pages_used s2 = pages_used s1"
      "\<And>k. page_used s2 k \<longleftrightarrow> page_used s1 k \<and> \<not> (unat (i + 1) \<le> k \<and> k < unat (i + 1) + n)"
    using Suc.IH [of "i + 1" s1] Suc.prems by auto
  have "page_used s2 k \<longleftrightarrow> page_used s k \<and> \<not> (unat i \<le> k \<and> k < unat i + Suc n)" for k
    unfolding s2(3) s1(3) nxt by (cases "page_used s k"; simp; linarith)
  then show ?case using s1(1,2) s2(1,2) by simp
qed auto

text \<open>The pages a region of \<open>sz\<close> bytes takes: at least one, even for \<open>sz = 0\<close>.\<close>

definition region_pages :: "u64 \<Rightarrow> nat" where
  "region_pages sz = unat (align sz PAGE_SIZE) div 4096"

lemma pmm_set_mem_region_used:
  assumes "f + region_pages sz \<le> npages"
  shows "\<exists>s'. pmm_set_mem_region (page_addr f) sz True s = Some s' \<and>
    pages_used s' = pages_used s + of_nat (region_pages sz) \<and>
    (\<forall>k. page_used s' k \<longleftrightarrow> page_used s k \<or> f \<le> k \<and> k < f + region_pages sz)"
proof -
  have f: "f \<le> npages" using assms by simp
  have "unat (of_nat f :: u64) = f" using f by (simp add: unat_of_nat npages_val)
  moreover have "unat (page_addr f) = unat (of_nat f :: u64) * 4096"
    using f calculation by (subst unat_mult_lem [THEN iffD1]) (simp_all add: npages_val)
  ultimately have pa: "unat (page_addr f) = f * 4096" by simp
  then have "page_addr f mod PAGE_SIZE = 0" by (simp add: word_unat_eq_iff unat_mod)
  moreover have "unat (page_addr f div PAGE_SIZE) = f" using pa by (simp add: unat_div)
  moreover have n: "unat (align sz PAGE_SIZE div PAGE_SIZE) = region_pages sz"
    by (simp add: region_pages_def unat_div)
  moreover have "align sz PAGE_SIZE div PAGE_SIZE = of_nat (region_pages sz)"
    by (metis n of_nat_unat ucast_id)
  ultimately show ?thesis
    using set_bits_used [of "page_addr f div PAGE_SIZE" "region_pages sz" s] assms
    by (auto simp: pmm_set_mem_region_def Let_def page_used_def)
qed

lemma scan_word_clear:
  "\<not> bit bits 0 \<Longrightarrow> nf < p \<Longrightarrow> p \<le> nf + int k \<Longrightarrow> k \<le> 64 \<Longrightarrow>
   scan_word p k bits nf = Inr (64 - k + nat (p - nf - 1))"
proof (induction k arbitrary: nf)
  case (Suc k)
  have low: "bits AND 1 = 0" using Suc.prems(1) low_bit by blast
  show ?case
  proof (cases "p = nf + 1")
    case False
    then have "scan_word p k bits (nf + 1) = Inr (64 - k + nat (p - (nf + 1) - 1))"
      using Suc.prems by (intro Suc.IH) auto
    moreover have "64 - k + nat (p - (nf + 1) - 1) = 64 - Suc k + nat (p - nf - 1)"
      using False Suc.prems by linarith
    ultimately show ?thesis using False low by simp
  qed (simp add: low)
qed simp

lemma scan_word_ones:
  "(\<And>j. j < b \<Longrightarrow> bit bits j) \<Longrightarrow> b \<le> k \<Longrightarrow> scan_word p k bits 0 = scan_word p (k - b) (drop_bit b bits) 0"
proof (induction b arbitrary: k bits)
  case (Suc b)
  then obtain k' where k: "k = Suc k'" by (cases k) auto
  have "bits AND 1 \<noteq> 0" using Suc.prems(1) [of 0] low_bit by auto
  then have "scan_word p k bits 0 = scan_word p k' (drop_bit 1 bits) 0" by (simp add: k)
  also have "\<dots> = scan_word p (k' - b) (drop_bit b (drop_bit 1 bits)) 0"
    using Suc.prems k by (intro Suc.IH) (auto simp: bit_drop_bit_eq)
  finally show ?case by (simp add: k)
qed simp

text \<open>
  In the word of the lowest free page \<open>n\<close>, \<open>find_free_pages\<close> answers \<open>n\<close> whenever the request fits
  below the end of the word. The bits above \<open>n\<close> play no role.
\<close>

lemma find_free_pages_in_word:
  assumes low: "\<not> page_used s n" "\<And>k. k < n \<Longrightarrow> page_used s k" and "n < npages"
    and p: "0 < p" "n mod 64 + p \<le> 64"
  shows "find_free_pages (int p) (bitmap s) = Some (of_nat n)"
proof -
  let ?i = "n div 64" and ?b = "n mod 64" and ?w = "bitmap s (n div 64)"
  have i: "?i < MAX_BITMASK_DATA" using assms(3) by linarith
  have full: "bitmap s k = - 1" if "k < ?i" for k
  proof (rule bit_word_eqI)
    fix j assume "j < LENGTH(64)"
    then have j: "j < 64" by simp
    then have "64 * k + j < n" using that mult_div_mod_eq [of 64 n] by linarith
    then have "page_used s (64 * k + j)" by (rule low(2))
    then show "bit (bitmap s k) j \<longleftrightarrow> bit (- 1 :: u64) j"
      using j by (simp add: page_used_def)
  qed
  have clear: "\<not> bit ?w ?b" using low(1) by (simp add: page_used_def)
  then have "?w \<noteq> - 1" by auto
  then have skip: "skip_full (bitmap s) 0 = Some ?i"
    using skip_full_spec [where bm = "bitmap s" and i = 0] full i
    by (auto split: option.splits) (metis linorder_neqE_nat)
  have ones: "bit ?w j" if "j < ?b" for j
  proof -
    have "64 * ?i + j < n" using that mult_div_mod_eq [of 64 n] by linarith
    then have "page_used s (64 * ?i + j)" by (rule low(2))
    moreover have "j < 64" using that by linarith
    ultimately show ?thesis by (simp add: page_used_def)
  qed
  have "scan_word (int p) 64 ?w 0 = scan_word (int p) (64 - ?b) (drop_bit ?b ?w) 0"
    using ones p by (intro scan_word_ones) auto
  also have "\<dots> = Inr (64 - (64 - ?b) + nat (int p - 0 - 1))"
    using clear p by (intro scan_word_clear) (auto simp: bit_drop_bit_eq)
  also have "64 - (64 - ?b) + nat (int p - 0 - 1) = ?b + (p - 1)" using p by linarith
  finally have scan: "scan_word (int p) 64 ?w 0 = Inr (?b + (p - 1))" .
  have "of_nat ?i * 64 + of_nat (?b + (p - 1)) - of_int (int p) + 1 = (of_nat n :: u64)"
  proof -
    have "(of_nat n :: u64) = of_nat ?i * 64 + of_nat ?b"
      by (metis div_mult_mod_eq of_nat_add of_nat_mult of_nat_numeral)
    moreover have "(of_nat p :: u64) = of_nat (p - 1) + 1" using p by (cases p) simp_all
    ultimately show ?thesis by (simp add: algebra_simps)
  qed
  then show ?thesis using i skip scan
    unfolding find_free_pages_def by (subst find_free_pages_loop.simps) simp
qed

subsection \<open>What a client of the allocator may rely on\<close>

text \<open>
  The contract of a source of pages: allocation always returns, a page it gives was owned by
  nobody and is owned afterwards, nothing else changes owner, and failure changes nothing.
\<close>

locale page_source =
  fixes alloc :: "'s \<Rightarrow> (ptr \<times> 's) option" and owned :: "'s \<Rightarrow> ptr \<Rightarrow> bool"
  assumes alloc_returns: "\<exists>p s'. alloc s = Some (p, s')"
    and alloc_fresh: "alloc s = Some (p, s') \<Longrightarrow> p \<noteq> NULL \<Longrightarrow> \<not> owned s p"
    and alloc_owned: "alloc s = Some (p, s') \<Longrightarrow> p \<noteq> NULL \<Longrightarrow> owned s' q \<longleftrightarrow> owned s q \<or> q = p"
    and alloc_failed: "alloc s = Some (NULL, s') \<Longrightarrow> s' = s"
begin

text \<open>\<open>n\<close> requests in a row; the list holds the pages that were given.\<close>

fun alloc_run :: "nat \<Rightarrow> 's \<Rightarrow> (ptr list \<times> 's) option" where
  "alloc_run 0 s = Some ([], s)"
| "alloc_run (Suc n) s =
     do { (p, s) \<leftarrow> alloc s; (ps, s) \<leftarrow> alloc_run n s; Some (if p = NULL then ps else p # ps, s) }"

lemma alloc_run_returns: "\<exists>ps s'. alloc_run n s = Some (ps, s')"
proof (induction n arbitrary: s)
  case (Suc n)
  obtain p s1 where "alloc s = Some (p, s1)" using alloc_returns by blast
  moreover obtain ps s2 where "alloc_run n s1 = Some (ps, s2)" using Suc by blast
  ultimately show ?case by simp
qed simp

lemma alloc_run_distinct:
  "alloc_run n s = Some (ps, s') \<Longrightarrow>
   distinct ps \<and> NULL \<notin> set ps \<and> (\<forall>p\<in>set ps. \<not> owned s p) \<and>
   (\<forall>q. owned s' q \<longleftrightarrow> owned s q \<or> q \<in> set ps)"
proof (induction n arbitrary: s ps)
  case (Suc n)
  then obtain p s1 qs where p: "alloc s = Some (p, s1)" and qs: "alloc_run n s1 = Some (qs, s')"
    and ps: "ps = (if p = NULL then qs else p # qs)"
    by (auto split: option.splits bind_splits)
  note IH = Suc.IH [OF qs]
  show ?case
  proof (cases "p = NULL")
    case True
    then show ?thesis using IH ps alloc_failed p by auto
  next
    case False
    then show ?thesis using IH ps alloc_fresh [OF p False] alloc_owned [OF p False] by auto
  qed
qed simp

end

definition page_owned :: "pmm \<Rightarrow> ptr \<Rightarrow> bool" where
  "page_owned s p \<longleftrightarrow> (\<exists>n<npages. p = page_addr n \<and> page_used s n)"

interpretation pages: page_source pmm_alloc_page page_owned
proof
  fix s :: pmm
  show "\<exists>p s'. pmm_alloc_page s = Some (p, s')"
    by (cases rule: pmm_alloc_page_cases [of s]) blast+
next
  fix s p s' assume a: "pmm_alloc_page s = Some (p, s')" "p \<noteq> NULL"
  then obtain n where n: "p = page_addr n" "n < npages" "\<not> page_used s n"
      "\<And>k. page_used s' k \<longleftrightarrow> page_used s k \<or> k = n"
    by (cases rule: pmm_alloc_page_cases [of s]) auto
  show "\<not> page_owned s p" using n page_addr_inj by (auto simp: page_owned_def)
  show "page_owned s' q \<longleftrightarrow> page_owned s q \<or> q = p" for q using n by (auto simp: page_owned_def)
next
  fix s s' assume "pmm_alloc_page s = Some (NULL, s')"
  then show "s' = s" by (cases rule: pmm_alloc_page_cases [of s]) auto
qed

subsection \<open>The allocator after boot\<close>

text \<open>
  The states the single-page interface reaches: boot reserves the first megabyte and the kernel
  image, then pages are taken and given back. \<open>held\<close> is the set of pages given out.
\<close>

inductive pmm_run :: "u64 \<Rightarrow> pmm \<Rightarrow> nat set \<Rightarrow> bool" for ksize where
  boot: "pmm_take_base_regions ksize (init_pmm s0) = Some s \<Longrightarrow> pmm_run ksize s {}"
| alloc: "pmm_run ksize s held \<Longrightarrow> pmm_alloc_page s = Some (p, s') \<Longrightarrow> p \<noteq> NULL \<Longrightarrow>
    pmm_run ksize s' (insert (unat (p div PAGE_SIZE)) held)"
| alloc_fail: "pmm_run ksize s held \<Longrightarrow> pmm_alloc_page s = Some (NULL, s') \<Longrightarrow> pmm_run ksize s' held"
| free: "pmm_run ksize s held \<Longrightarrow> n \<in> held \<Longrightarrow> pmm_free_page (page_addr n) s = Some s' \<Longrightarrow>
    pmm_run ksize s' (held - {n})"

abbreviation reserved :: "u64 \<Rightarrow> nat" where
  "reserved ksize \<equiv> 256 + region_pages ksize"

definition pmm_inv :: "u64 \<Rightarrow> pmm \<Rightarrow> nat set \<Rightarrow> bool" where
  "pmm_inv ksize s held \<longleftrightarrow>
     held \<subseteq> {reserved ksize..<npages} \<and>
     (\<forall>k<npages. page_used s k \<longleftrightarrow> k < reserved ksize \<or> k \<in> held) \<and>
     pages_used s = of_nat (reserved ksize + card held)"

lemma pmm_inv_boot:
  assumes "reserved ksize \<le> npages" and "pmm_take_base_regions ksize (init_pmm s0) = Some s"
  shows "pmm_inv ksize s {}"
proof -
  have "align 0x100000 PAGE_SIZE = 0x100000" by (simp add: align_def)
  then have mb: "region_pages 0x100000 = 256" by (simp add: region_pages_def)
  have none: "\<not> page_used (init_pmm s0) k" "pages_used (init_pmm s0) = 0" for k
    by (simp_all add: page_used_def init_pmm_def)
  obtain s1 where s1: "pmm_set_mem_region 0 0x100000 True (init_pmm s0) = Some s1"
      "pages_used s1 = 256" "\<And>k. page_used s1 k \<longleftrightarrow> k < 256"
    using pmm_set_mem_region_used [of 0 "0x100000" "init_pmm s0"] none mb by (auto simp: npages_val)
  have range: "(k < 256 \<or> 256 \<le> k \<and> k < reserved ksize) \<longleftrightarrow> k < reserved ksize" for k by auto
  have "page_addr 256 = 0x100000" by simp
  then obtain s2 where "pmm_set_mem_region 0x100000 ksize True s1 = Some s2"
      "pages_used s2 = 256 + of_nat (region_pages ksize)" "\<And>k. page_used s2 k \<longleftrightarrow> k < reserved ksize"
    using pmm_set_mem_region_used [of 256 ksize s1] assms(1) s1(2,3) range by auto
  then show ?thesis using assms(2) s1(1) by (simp add: pmm_take_base_regions_def pmm_inv_def)
qed

lemma pmm_inv_alloc:
  assumes inv: "pmm_inv ksize s held" and p: "pmm_alloc_page s = Some (p, s')" "p \<noteq> NULL"
  defines "n \<equiv> unat (p div PAGE_SIZE)"
  shows "pmm_inv ksize s' (insert n held)" and "n \<notin> held" and "reserved ksize \<le> n" and "n < npages"
    and "p = page_addr n"
proof -
  obtain m where m: "p = page_addr m" "m < npages" "\<not> page_used s m"
      "\<And>k. page_used s' k \<longleftrightarrow> page_used s k \<or> k = m" "pages_used s' = pages_used s + 1"
    using p by (cases rule: pmm_alloc_page_cases [of s]) auto
  have nm: "n = m" using m(1,2) by (simp add: n_def page_addr_div)
  show new: "n \<notin> held" "reserved ksize \<le> n" "n < npages" "p = page_addr n"
    using inv m nm by (auto simp: pmm_inv_def)
  have "finite held" using inv finite_subset by (fastforce simp: pmm_inv_def)
  then show "pmm_inv ksize s' (insert n held)"
    using inv m(4,5) new nm by (auto simp: pmm_inv_def card_insert_if)
qed

lemma pmm_inv_free:
  assumes inv: "pmm_inv ksize s held" and n: "n \<in> held" "pmm_free_page (page_addr n) s = Some s'"
  shows "pmm_inv ksize s' (held - {n})"
proof -
  have r: "reserved ksize \<le> n" "n < npages" and fin: "finite held"
    using inv n(1) finite_subset by (fastforce simp: pmm_inv_def)+
  have s': "pages_used s' = pages_used s - 1" "\<And>k. page_used s' k \<longleftrightarrow> page_used s k \<and> k \<noteq> n"
    using pmm_free_page_used [OF r(2), of s] n(2) by auto
  have "card held = Suc (card (held - {n}))" using fin n(1) by (rule card.remove)
  then show ?thesis using inv s' r by (auto simp: pmm_inv_def)
qed

lemma pmm_run_inv:
  assumes "pmm_run ksize s held" and r: "reserved ksize \<le> npages"
  shows "pmm_inv ksize s held"
  using assms(1)
proof (induction rule: pmm_run.induct)
  case (boot s0 s)
  then show ?case using r by (intro pmm_inv_boot)
next
  case (alloc s held p s')
  then show ?case by (intro pmm_inv_alloc(1))
next
  case (alloc_fail s held s')
  then show ?case using pages.alloc_failed by metis
next
  case (free s held n s')
  then show ?case by (intro pmm_inv_free)
qed

lemma pmm_boot_ok:
  assumes "reserved ksize \<le> npages"
  shows "\<exists>s. pmm_take_base_regions ksize (init_pmm s0) = Some s"
proof -
  have "align 0x100000 PAGE_SIZE = 0x100000" by (simp add: align_def)
  then have mb: "region_pages 0x100000 = 256" by (simp add: region_pages_def)
  obtain s1 where s1: "pmm_set_mem_region 0 0x100000 True (init_pmm s0) = Some s1"
    using pmm_set_mem_region_used [of 0 "0x100000" "init_pmm s0"] mb by (auto simp: npages_val)
  have "page_addr 256 = 0x100000" by simp
  then show ?thesis using s1 pmm_set_mem_region_used [of 256 ksize s1] assms
    by (auto simp: pmm_take_base_regions_def)
qed

text \<open>Sample states: pages below 3 used; pages 0, 1 and 3 used.\<close>

definition pmm_sample :: "u64 \<Rightarrow> pmm" where
  "pmm_sample w = \<lparr>bitmap = (\<lambda>_. 0)(0 := w), pages_used = 3,
     pmm_params = \<lparr>physical_mem_total = 0x8000000, kernel_base = 0x100000, kernel_size = 0x200000\<rparr>,
     pmm_regions = (\<lambda>_. \<lparr>rg_base = 0, rg_length = 0, rg_flags = 0\<rparr>), pmm_regions_count = 0\<rparr>"

lemma page_used_sample: "page_used (pmm_sample w) k \<longleftrightarrow> k < 64 \<and> bit w k"
  by (auto simp: page_used_def pmm_sample_def)

lemma sample_7: "page_used (pmm_sample 7) k \<longleftrightarrow> k < 3"
proof -
  have "(7 :: u64) = mask 3" by (simp add: mask_eq_exp_minus_1)
  then show ?thesis unfolding page_used_sample by (simp only: bit_mask_iff) auto
qed

lemma sample_11: "page_used (pmm_sample 11) k \<longleftrightarrow> k = 0 \<or> k = 1 \<or> k = 3"
proof -
  have "(11 :: u64) = 2 ^ 3 OR mask 2" by (simp add: mask_eq_exp_minus_1)
  then show ?thesis
    unfolding page_used_sample by (simp only: bit_or_iff bit_exp_iff bit_mask_iff) auto
qed

subsection \<open>Properties\<close>

text \<open>C21. Once page 0 is reserved, \<open>pmm_alloc_page\<close> gives \<open>NULL\<close> only when every page is used, and
  otherwise the lowest free page: it marks exactly that page and counts it.\<close>

theorem pmm_alloc_page_lowest:
  assumes "page_used s 0"
  shows "(\<forall>k<npages. page_used s k) \<and> pmm_alloc_page s = Some (NULL, s) \<or>
    (\<exists>n s'. pmm_alloc_page s = Some (page_addr n, s') \<and> page_addr n \<noteq> NULL \<and> n < npages \<and>
       \<not> page_used s n \<and> (\<forall>k<n. page_used s k) \<and>
       (\<forall>k. page_used s' k \<longleftrightarrow> page_used s k \<or> k = n) \<and> pages_used s' = pages_used s + 1)"
  using assms by (cases rule: pmm_alloc_page_cases [of s]) blast+

theorem pmm_alloc_page_lowest_witness:
  "\<exists>s'. pmm_alloc_page (pmm_sample 7) = Some (0x3000, s') \<and> pages_used s' = 4"
proof -
  note used = sample_7
  have "\<not> page_used (pmm_sample 7) 3" "3 < npages" using used by (simp_all add: npages_val)
  then obtain n s' where n: "pmm_alloc_page (pmm_sample 7) = Some (page_addr n, s')"
      "\<not> n < 3" "\<forall>k<n. k < 3" "pages_used s' = pages_used (pmm_sample 7) + 1"
    using pmm_alloc_page_lowest [of "pmm_sample 7"] used by auto
  then have "n = 3" by (metis less_irrefl linorder_neqE_nat)
  then show ?thesis using n by (auto simp: pmm_sample_def)
qed



text \<open>C22. Giving a page back right after taking it restores the allocator's state bit for bit.\<close>

theorem pmm_alloc_free_roundtrip:
  assumes "pmm_alloc_page s = Some (p, s')" and "p \<noteq> NULL"
  shows "pmm_free_page p s' = Some s"
proof -
  let ?i = "find_free_page (bitmap s)"
  let ?w = "bitmap s (unat ?i div 64)" and ?k = "unat ?i mod 64"
  have nz: "?i \<noteq> 0" using assms by (auto simp: pmm_alloc_page_def)
  then have i: "unat ?i < npages" "\<not> page_used s (unat ?i)"
    by (cases rule: find_free_page_cases [of s]; auto)+
  then have lt: "unat ?i div 64 < MAX_BITMASK_DATA" using word_index_lt [of ?i] by (simp add: unat_div_64)
  have "?i * PAGE_SIZE div PAGE_SIZE = ?i"
    using page_addr_div [OF i(1)] by (simp add: word_unat_eq_iff)
  moreover have "(?w OR 2 ^ ?k) AND NOT (2 ^ ?k) = ?w"
    using i(2) by (intro bit_word_eqI) (auto simp: bit_simps page_used_def bit_one_shifted)
  ultimately show ?thesis using assms nz lt
    by (auto simp: pmm_alloc_page_def pmm_free_page_def set_bit_pmm_def unset_bit_pmm_def Let_def
        unat_div_64)
qed

theorem pmm_alloc_free_roundtrip_witness:
  "\<exists>s'. pmm_alloc_page (pmm_sample 7) = Some (0x3000, s') \<and> pmm_free_page 0x3000 s' = Some (pmm_sample 7)"
proof -
  note used = sample_7
  obtain s' where "pmm_alloc_page (pmm_sample 7) = Some (page_addr 3, s')"
  proof (cases rule: pmm_alloc_page_cases [of "pmm_sample 7"])
    case fail
    then have "page_used (pmm_sample 7) 3 \<or> \<not> page_used (pmm_sample 7) 0" by (auto simp: npages_val)
    then show ?thesis using used by simp
  next
    case (found n s')
    then have "n = 3" using used by (metis less_irrefl linorder_neqE_nat)
    then show ?thesis using found that by blast
  qed
  then have "pmm_alloc_page (pmm_sample 7) = Some (0x3000, s')" by simp
  then show ?thesis using pmm_alloc_free_roundtrip by fastforce
qed



end
