(* ===== verification/Paging.thy ===== *)
theory Paging
  imports Pmm
begin

text \<open>
  Page tables of the x86-64 port: \<^verbatim>\<open>kernel/arch/x86_64/memory/paging.c\<close>, the address macros of
  \<^verbatim>\<open>paging.h\<close> and \<^verbatim>\<open>mem_layout.h\<close>, and \<^verbatim>\<open>kernel_vmm.c\<close>. The direct map of physical memory is a function
  from the virtual address of a page to its 512 words, so a page can be read as a table or as data.
  Fresh tables come from the page allocator. TLB flushes and interprocessor interrupts have no
  state here.
\<close>

abbreviation PAGE_PRESENT :: u64 where "PAGE_PRESENT \<equiv> 0x1"
abbreviation PAGE_WRITABLE :: u64 where "PAGE_WRITABLE \<equiv> 0x2"
abbreviation PAGE_USER_ACCESSIBLE :: u64 where "PAGE_USER_ACCESSIBLE \<equiv> 0x4"
abbreviation PAGE_HUGE :: u64 where "PAGE_HUGE \<equiv> 0x80"
abbreviation PAGE_GLOBAL :: u64 where "PAGE_GLOBAL \<equiv> 0x100"

definition PAGE_EXEC_DISABLE :: u64 where
  "PAGE_EXEC_DISABLE = push_bit 63 1"

definition PHYSICAL_MEM_MAP_OFFSET :: u64 where
  "PHYSICAL_MEM_MAP_OFFSET = 0xFFFF888000000000"

definition KERNEL_TEXT_OFFSET :: u64 where
  "KERNEL_TEXT_OFFSET = 0xFFFFFFFF80000000"

abbreviation (input) PAGING_ERROR_ALREADY_MAPPED :: int where "PAGING_ERROR_ALREADY_MAPPED \<equiv> 0x10"
abbreviation (input) ERR_NO_PAGE_PRESENT :: int where "ERR_NO_PAGE_PRESENT \<equiv> 0x11"
abbreviation (input) ERR_NO_MEM :: int where "ERR_NO_MEM \<equiv> 0x12"

definition V2P :: "u64 \<Rightarrow> u64" where "V2P a = a AND NOT PHYSICAL_MEM_MAP_OFFSET"
definition P2V :: "u64 \<Rightarrow> u64" where "P2V a = a OR PHYSICAL_MEM_MAP_OFFSET"
definition P2K :: "u64 \<Rightarrow> u64" where "P2K a = a OR KERNEL_TEXT_OFFSET"

definition GET_4_LEVEL_PAGE_INDEX :: "u64 \<Rightarrow> nat" where
  "GET_4_LEVEL_PAGE_INDEX x = unat (drop_bit 39 x AND 0x1FF)"
definition GET_3_LEVEL_PAGE_INDEX :: "u64 \<Rightarrow> nat" where
  "GET_3_LEVEL_PAGE_INDEX x = unat (drop_bit 30 x AND 0x1FF)"
definition GET_2_LEVEL_PAGE_INDEX :: "u64 \<Rightarrow> nat" where
  "GET_2_LEVEL_PAGE_INDEX x = unat (drop_bit 21 x AND 0x1FF)"
definition GET_1_LEVEL_PAGE_INDEX :: "u64 \<Rightarrow> nat" where
  "GET_1_LEVEL_PAGE_INDEX x = unat (drop_bit 12 x AND 0x1FF)"
definition GET_PAGE_OFFSET :: "u64 \<Rightarrow> u64" where
  "GET_PAGE_OFFSET x = x AND 0xFFF"
definition GET_PAGE_FRAME :: "u64 \<Rightarrow> u64" where
  "GET_PAGE_FRAME x = x AND NOT (PAGE_EXEC_DISABLE OR 0xFFF)"
definition GET_PAGE_FLAGS :: "u64 \<Rightarrow> u64" where
  "GET_PAGE_FLAGS x = x AND (PAGE_EXEC_DISABLE OR 0xFFF)"

text \<open>The allocator and the words of the pages in the direct map.\<close>

record vm =
  vm_pmm :: pmm
  pg :: "ptr \<Rightarrow> nat \<Rightarrow> u64"

definition set_entry :: "ptr \<Rightarrow> nat \<Rightarrow> u64 \<Rightarrow> vm \<Rightarrow> vm" where
  "set_entry t i e v = v\<lparr>pg := (pg v)(t := (pg v t)(i := e))\<rparr>"

definition new_page_table :: "vm \<Rightarrow> (ptr \<times> vm) option" where
  "new_page_table v = do {
     (table, p) \<leftarrow> pmm_alloc_page (vm_pmm v);
     if table = NULL then Some (NULL, v\<lparr>vm_pmm := p\<rparr>)
     else Some (P2V table, v\<lparr>vm_pmm := p, pg := (pg v)(P2V table := (\<lambda>_. 0))\<rparr>)
   }"

subsection \<open>Mapping\<close>

abbreviation PAGE_PROTECTION_WRITE_ENABLE :: u32 where "PAGE_PROTECTION_WRITE_ENABLE \<equiv> 0x02"
abbreviation PAGE_PROTECTION_EXEC_ENABLE :: u32 where "PAGE_PROTECTION_EXEC_ENABLE \<equiv> 0x04"
abbreviation PAGE_PROTECTION_USER :: u32 where "PAGE_PROTECTION_USER \<equiv> 0x08"

definition x86_64_prot_2_flags :: "u32 \<Rightarrow> u64" where
  "x86_64_prot_2_flags protection =
     (let flags = PAGE_PRESENT;
          flags = (if protection AND PAGE_PROTECTION_WRITE_ENABLE \<noteq> 0 then flags OR PAGE_WRITABLE else flags);
          flags = (if protection AND PAGE_PROTECTION_USER \<noteq> 0 then flags OR PAGE_USER_ACCESSIBLE else flags)
      in if protection AND PAGE_PROTECTION_EXEC_ENABLE = 0 then flags OR PAGE_EXEC_DISABLE else flags)"

definition base_flags :: "u64 \<Rightarrow> u64" where
  "base_flags flags =
     (if flags AND PAGE_USER_ACCESSIBLE = PAGE_USER_ACCESSIBLE
      then PAGE_PRESENT OR PAGE_WRITABLE OR PAGE_USER_ACCESSIBLE
      else PAGE_PRESENT OR PAGE_WRITABLE)"

text \<open>
  The block \<^verbatim>\<open>if (!(t->entries[i] & PAGE_PRESENT)) { ... }\<close> that both mapping functions repeat on each
  level: a missing table is allocated and entered. The result tells whether memory ran out.
\<close>

definition ensure_table :: "ptr \<Rightarrow> nat \<Rightarrow> u64 \<Rightarrow> vm \<Rightarrow> (bool \<times> vm) option" where
  "ensure_table t i baseFlags v =
     (if pg v t i AND PAGE_PRESENT = 0
      then do {
        (table, v) \<leftarrow> new_page_table v;
        if table = NULL then Some (False, v)
        else Some (True, set_entry t i (V2P table OR baseFlags) v)
      }
      else Some (True, v))"

definition table_at :: "ptr \<Rightarrow> nat \<Rightarrow> vm \<Rightarrow> ptr" where
  "table_at t i v = P2V (GET_PAGE_FRAME (pg v t i))"

definition map_page_mem :: "ptr \<Rightarrow> u64 \<Rightarrow> u64 \<Rightarrow> u64 \<Rightarrow> vm \<Rightarrow> (int \<times> vm) option" where
  "map_page_mem root virtual_addr physical_addr flags v =
     (let l4 = GET_4_LEVEL_PAGE_INDEX virtual_addr;
          l3 = GET_3_LEVEL_PAGE_INDEX virtual_addr;
          l2 = GET_2_LEVEL_PAGE_INDEX virtual_addr;
          l1 = GET_1_LEVEL_PAGE_INDEX virtual_addr;
          baseFlags = base_flags flags
      in do {
        (ok, v) \<leftarrow> ensure_table root l4 baseFlags v;
        if \<not> ok then Some (ERR_NO_MEM, v) else do {
        let pdp_table = table_at root l4 v;
        (ok, v) \<leftarrow> ensure_table pdp_table l3 baseFlags v;
        if \<not> ok then Some (ERR_NO_MEM, v) else do {
        let pd_table = table_at pdp_table l3 v;
        if pg v pd_table l2 AND PAGE_PRESENT \<noteq> 0 \<and> pg v pd_table l2 AND PAGE_HUGE = PAGE_HUGE
        then Some (PAGING_ERROR_ALREADY_MAPPED, v) else do {
        (ok, v) \<leftarrow> ensure_table pd_table l2 baseFlags v;
        if \<not> ok then Some (ERR_NO_MEM, v) else do {
        let pt_table = table_at pd_table l2 v;
        if pg v pt_table l1 AND PAGE_PRESENT = 0
        then Some (0, set_entry pt_table l1 (physical_addr OR flags) v)
        else Some (PAGING_ERROR_ALREADY_MAPPED, v)
      }}}}})"

text \<open>The mask \<^verbatim>\<open>0xFFFFF * 2\<close> of the huge-page code.\<close>

abbreviation HUGE_MASK :: u64 where "HUGE_MASK \<equiv> 0x1FFFFE"

definition map_page_mem_huge :: "ptr \<Rightarrow> u64 \<Rightarrow> u64 \<Rightarrow> u64 \<Rightarrow> vm \<Rightarrow> (int \<times> vm) option" where
  "map_page_mem_huge root virtual_addr physical_addr flags v =
     (let l4 = GET_4_LEVEL_PAGE_INDEX virtual_addr;
          l3 = GET_3_LEVEL_PAGE_INDEX virtual_addr;
          l2 = GET_2_LEVEL_PAGE_INDEX virtual_addr;
          baseFlags = base_flags flags
      in do {
        (ok, v) \<leftarrow> ensure_table root l4 baseFlags v;
        if \<not> ok then Some (ERR_NO_MEM, v) else do {
        let pdp_table = table_at root l4 v;
        (ok, v) \<leftarrow> ensure_table pdp_table l3 baseFlags v;
        if \<not> ok then Some (ERR_NO_MEM, v) else do {
        let pd_table = table_at pdp_table l3 v;
        let physical_addr = physical_addr AND NOT HUGE_MASK;
        if pg v pd_table l2 AND PAGE_PRESENT = 0
        then Some (0, set_entry pd_table l2 (physical_addr OR flags OR PAGE_HUGE) v)
        else Some (PAGING_ERROR_ALREADY_MAPPED, v)
      }}})"

definition arch_vm_map :: "ptr \<Rightarrow> u64 \<Rightarrow> u64 \<Rightarrow> u32 \<Rightarrow> vm \<Rightarrow> (int \<times> vm) option" where
  "arch_vm_map arch_table vaddr physaddr prot v =
     map_page_mem arch_table vaddr physaddr (x86_64_prot_2_flags prot) v"

subsection \<open>Huge pages, unmapping, flags\<close>

definition split_hugepage :: "ptr \<Rightarrow> nat \<Rightarrow> vm \<Rightarrow> (int \<times> vm) option" where
  "split_hugepage pd_table l2 v =
     (let old_flags = GET_PAGE_FLAGS (pg v pd_table l2);
          phys_addr = GET_PAGE_FRAME (pg v pd_table l2)
      in if old_flags AND PAGE_HUGE = 0 then Some (-1, v)
         else let old_flags = old_flags AND NOT PAGE_HUGE in do {
           (pt_table, v) \<leftarrow> new_page_table v;
           if pt_table = NULL then Some (ERR_NO_MEM, v)
           else let v = set_entry pd_table l2 (V2P pt_table OR old_flags) v in
             Some (0, v\<lparr>pg := (pg v)(pt_table :=
               (\<lambda>i. if i < 512 then (phys_addr + PAGE_SIZE * of_nat i) OR old_flags
                    else pg v pt_table i))\<rparr>)
         })"

text \<open>
  The entry \<open>pdaddr\<close> is read before \<open>split_hugepage\<close> runs and used after it, as in the source. The
  result holds what is stored through \<open>phys_addr\<close> and \<open>flags\<close>.
\<close>

definition unmap_page1 :: "ptr \<Rightarrow> u64 \<Rightarrow> vm \<Rightarrow> (int \<times> (u64 \<times> u64) option \<times> vm) option" where
  "unmap_page1 root virtual_addr v =
     (let l4 = GET_4_LEVEL_PAGE_INDEX virtual_addr;
          l3 = GET_3_LEVEL_PAGE_INDEX virtual_addr;
          l2 = GET_2_LEVEL_PAGE_INDEX virtual_addr;
          l1 = GET_1_LEVEL_PAGE_INDEX virtual_addr
      in if pg v root l4 AND PAGE_PRESENT = 0 then Some (ERR_NO_PAGE_PRESENT, None, v) else
         let pdp_table = table_at root l4 v in
         if pg v pdp_table l3 AND PAGE_PRESENT = 0 then Some (ERR_NO_PAGE_PRESENT, None, v) else
         let pd_table = table_at pdp_table l3 v;
             pdaddr = pg v pd_table l2 in
         if pdaddr AND PAGE_PRESENT = 0 then Some (ERR_NO_PAGE_PRESENT, None, v) else do {
           v \<leftarrow> (if pdaddr AND PAGE_HUGE \<noteq> 0 then map_option snd (split_hugepage pd_table l2 v) else Some v);
           let pt_table = P2V (GET_PAGE_FRAME pdaddr);
           let pt_value = pg v pt_table l1;
           if pt_value AND PAGE_PRESENT = 0 then Some (ERR_NO_PAGE_PRESENT, None, v)
           else Some (0, Some (GET_PAGE_FRAME pt_value, GET_PAGE_FLAGS pt_value), set_entry pt_table l1 0 v)
         })"

definition unmap_page :: "ptr \<Rightarrow> u64 \<Rightarrow> vm \<Rightarrow> (int \<times> vm) option" where
  "unmap_page root virtual_addr v = map_option (\<lambda>(rc, _, v). (rc, v)) (unmap_page1 root virtual_addr v)"

definition arch_vm_unmap :: "ptr \<Rightarrow> u64 \<Rightarrow> bool \<Rightarrow> vm \<Rightarrow> vm option" where
  "arch_vm_unmap arch_table vaddr free_page v = do {
     (rc, out, v) \<leftarrow> unmap_page1 arch_table vaddr v;
     let phys = (case out of Some (p, _) \<Rightarrow> p | None \<Rightarrow> 0);
     if rc = 0 \<and> free_page
     then do { p \<leftarrow> pmm_free_page phys (vm_pmm v); Some (v\<lparr>vm_pmm := p\<rparr>) }
     else Some v
   }"

definition set_page_flags :: "ptr \<Rightarrow> u64 \<Rightarrow> u64 \<Rightarrow> vm \<Rightarrow> (int \<times> vm) option" where
  "set_page_flags root virtual_addr flags v =
     (let l4 = GET_4_LEVEL_PAGE_INDEX virtual_addr;
          l3 = GET_3_LEVEL_PAGE_INDEX virtual_addr;
          l2 = GET_2_LEVEL_PAGE_INDEX virtual_addr;
          l1 = GET_1_LEVEL_PAGE_INDEX virtual_addr
      in if pg v root l4 AND PAGE_PRESENT = 0 then Some (ERR_NO_PAGE_PRESENT, v) else
         let pdp_table = table_at root l4 v in
         if pg v pdp_table l3 AND PAGE_PRESENT = 0 then Some (ERR_NO_PAGE_PRESENT, v) else
         let pd_table = table_at pdp_table l3 v;
             pdaddr = pg v pd_table l2 in
         if pdaddr AND PAGE_PRESENT = 0 then Some (ERR_NO_PAGE_PRESENT, v) else do {
           v \<leftarrow> (if pdaddr AND PAGE_HUGE \<noteq> 0 then map_option snd (split_hugepage pd_table l2 v) else Some v);
           let pt_table = P2V (GET_PAGE_FRAME pdaddr);
           let paddr = GET_PAGE_FRAME (pg v pt_table l1);
           if pg v pt_table l1 AND PAGE_PRESENT = 0 then Some (ERR_NO_PAGE_PRESENT, v)
           else Some (0, set_entry pt_table l1 (paddr OR flags) v)
         })"

definition arch_vm_protect :: "ptr \<Rightarrow> u64 \<Rightarrow> u32 \<Rightarrow> vm \<Rightarrow> vm option" where
  "arch_vm_protect arch_table vaddr protection v =
     map_option snd (set_page_flags arch_table vaddr (x86_64_prot_2_flags protection) v)"

subsection \<open>Translation\<close>

definition get_physical_address :: "ptr \<Rightarrow> u64 \<Rightarrow> vm \<Rightarrow> u64" where
  "get_physical_address root virtual_addr v =
     (let l4 = GET_4_LEVEL_PAGE_INDEX virtual_addr;
          l3 = GET_3_LEVEL_PAGE_INDEX virtual_addr;
          l2 = GET_2_LEVEL_PAGE_INDEX virtual_addr;
          l1 = GET_1_LEVEL_PAGE_INDEX virtual_addr
      in if pg v root l4 AND PAGE_PRESENT = 0 then NULL else
         let pdp_table = table_at root l4 v in
         if pg v pdp_table l3 AND PAGE_PRESENT = 0 then NULL else
         let pd_table = table_at pdp_table l3 v;
             pdaddr = pg v pd_table l2 in
         if pdaddr AND PAGE_PRESENT = 0 then NULL
         else if pdaddr AND PAGE_HUGE \<noteq> 0
         then (pdaddr AND NOT (PAGE_EXEC_DISABLE OR HUGE_MASK)) OR (virtual_addr AND HUGE_MASK)
         else let pt_table = P2V (GET_PAGE_FRAME pdaddr) in
              if pg v pt_table l1 AND PAGE_PRESENT = 0 then NULL
              else GET_PAGE_FRAME (pg v pt_table l1) + GET_PAGE_OFFSET virtual_addr)"

definition arch_vm_is_mapped :: "ptr \<Rightarrow> u64 \<Rightarrow> vm \<Rightarrow> bool" where
  "arch_vm_is_mapped root address v =
     (let l4 = GET_4_LEVEL_PAGE_INDEX address;
          l3 = GET_3_LEVEL_PAGE_INDEX address;
          l2 = GET_2_LEVEL_PAGE_INDEX address;
          l1 = GET_1_LEVEL_PAGE_INDEX address
      in if pg v root l4 AND PAGE_PRESENT = 0 then False else
         let pdp_table = table_at root l4 v in
         if pg v pdp_table l3 AND PAGE_PRESENT = 0 then False else
         let pd_table = table_at pdp_table l3 v in
         if pg v pd_table l2 AND PAGE_PRESENT = 0 then False
         else if pg v pd_table l2 AND PAGE_HUGE \<noteq> 0 then True
         else let pt_table = table_at pd_table l2 v in pg v pt_table l1 AND PAGE_PRESENT \<noteq> 0)"

text \<open>Freeing a table tree: entries that carry all bits of \<open>msk\<close> (the source calls it \<open>mask\<close>) are freed first.\<close>

fun destroy_page_table :: "nat \<Rightarrow> ptr \<Rightarrow> u64 \<Rightarrow> vm \<Rightarrow> vm option" where
  "destroy_page_table 0 entries msk v =
     do { p \<leftarrow> pmm_free_page (V2P entries) (vm_pmm v); Some (v\<lparr>vm_pmm := p\<rparr>) }"
| "destroy_page_table (Suc level) entries msk v = do {
     v \<leftarrow> fold (\<lambda>i r. do {
            v \<leftarrow> r;
            let entry = pg v entries i;
            if entry AND msk = msk
            then destroy_page_table level (P2V (GET_PAGE_FRAME entry)) msk v
            else Some v
          }) [0..<512] (Some v);
     p \<leftarrow> pmm_free_page (V2P entries) (vm_pmm v);
     Some (v\<lparr>vm_pmm := p\<rparr>)
   }"

definition arch_destroy_vm_table :: "ptr \<Rightarrow> vm \<Rightarrow> vm option" where
  "arch_destroy_vm_table root v = destroy_page_table 4 root (PAGE_PRESENT OR PAGE_USER_ACCESSIBLE) v"

definition arch_clone_kernel_vm_table :: "ptr \<Rightarrow> vm \<Rightarrow> (ptr \<times> vm) option" where
  "arch_clone_kernel_vm_table root_pml4 v = do {
     (result, v) \<leftarrow> new_page_table v;
     if result = NULL then Some (NULL, v)
     else Some (result, v\<lparr>pg := (pg v)(result := pg v root_pml4)\<rparr>)
   }"

subsection \<open>Regions (\<^verbatim>\<open>kernel/mem/paging.c\<close>)\<close>

text \<open>Page by page from \<open>addr\<close> while it is below \<open>stop\<close>; the address may wrap.\<close>

partial_function (option) each_page :: "(u64 \<Rightarrow> 's \<Rightarrow> 's option) \<Rightarrow> u64 \<Rightarrow> u64 \<Rightarrow> 's \<Rightarrow> 's option" where
  "each_page f addr stop s =
     (if addr < stop then do { s \<leftarrow> f addr s; each_page f (addr + PAGE_SIZE) stop s } else Some s)"

definition vm_table_unmap_region :: "ptr \<Rightarrow> u64 \<Rightarrow> u64 \<Rightarrow> bool \<Rightarrow> vm \<Rightarrow> vm option" where
  "vm_table_unmap_region table virtual_addr len free_pages v =
     each_page (\<lambda>a. arch_vm_unmap table a free_pages) virtual_addr (virtual_addr + len) v"

definition vm_table_protect_region :: "ptr \<Rightarrow> u64 \<Rightarrow> u64 \<Rightarrow> u32 \<Rightarrow> vm \<Rightarrow> vm option" where
  "vm_table_protect_region table virtual_addr len protection v =
     each_page (\<lambda>a. arch_vm_protect table a protection) virtual_addr (virtual_addr + len) v"

definition vm_table_map :: "ptr \<Rightarrow> u64 \<Rightarrow> u64 \<Rightarrow> u32 \<Rightarrow> vm \<Rightarrow> (int \<times> vm) option" where
  "vm_table_map table virtual_addr physical_addr protection v =
     arch_vm_map table virtual_addr physical_addr protection v"

definition vm_table_unmap :: "ptr \<Rightarrow> u64 \<Rightarrow> vm \<Rightarrow> vm option" where
  "vm_table_unmap table virtual_addr v = arch_vm_unmap table virtual_addr True v"

text \<open>
  \<^verbatim>\<open>kernel/arch/x86_64/memory/iomem.c\<close>: a device region is mapped at its direct-map address; a page that
  is mapped already gets new flags instead.
\<close>

abbreviation PAGE_UNCACHED :: u64 where "PAGE_UNCACHED \<equiv> 0x10"

definition map_io_region :: "u64 \<Rightarrow> u64 \<Rightarrow> ptr \<Rightarrow> vm \<Rightarrow> (u64 \<times> vm) option" where
  "map_io_region base sz root v =
     (let pages_num = unat (align sz PAGE_SIZE div PAGE_SIZE);
          pageFlags = PAGE_WRITABLE OR PAGE_PRESENT OR PAGE_UNCACHED
      in do {
        v \<leftarrow> fold (\<lambda>i r. do {
               v \<leftarrow> r;
               let vaddr = P2V base + of_nat i * PAGE_SIZE;
               (res, v) \<leftarrow> map_page_mem root vaddr (base + of_nat i * PAGE_SIZE) pageFlags v;
               if res = PAGING_ERROR_ALREADY_MAPPED
               then map_option snd (set_page_flags root vaddr pageFlags v) else Some v
             }) [0..<pages_num] (Some v);
        Some (P2V base, v)
      })"

definition unmap_io_region :: "u64 \<Rightarrow> u64 \<Rightarrow> ptr \<Rightarrow> vm \<Rightarrow> (int \<times> vm) option" where
  "unmap_io_region base sz root v =
     (let pages_num = unat (align sz PAGE_SIZE div PAGE_SIZE)
      in do {
        v \<leftarrow> fold (\<lambda>i r. do {
               v \<leftarrow> r;
               map_option snd (unmap_page root (base + of_nat i * PAGE_SIZE) v)
             }) [0..<pages_num] (Some v);
        Some (0, v)
      })"

subsection \<open>Address arithmetic on bits\<close>

lemma bit_nat_lt: "bit (n :: nat) k \<Longrightarrow> n < 2 ^ m \<Longrightarrow> k < m"
  by (metis bit_take_bit_iff take_bit_nat_eq_self)

lemma bit_page_addr:
  assumes "n < npages" and "bit (page_addr n) j"
  shows "12 \<le> j \<and> j < 38"
proof -
  have "page_addr n = push_bit 12 (of_nat n)" by (simp add: push_bit_eq_mult)
  then have j: "12 \<le> j" "bit (of_nat n :: u64) (j - 12)"
    using assms(2) by (auto simp: bit_push_bit_iff)
  then have "bit n (j - 12)" by (simp add: bit_of_nat_iff)
  moreover have "n < 2 ^ 26" using assms(1) by (simp add: npages_val)
  ultimately have "j - 12 < 26" by (rule bit_nat_lt)
  then show ?thesis using j(1) by linarith
qed

lemma bit_offset: "bit PHYSICAL_MEM_MAP_OFFSET j \<Longrightarrow> 39 \<le> j"
proof -
  have off: "PHYSICAL_MEM_MAP_OFFSET = push_bit 39 0x1FFFF11"
    by (simp add: PHYSICAL_MEM_MAP_OFFSET_def push_bit_eq_mult)
  show "bit PHYSICAL_MEM_MAP_OFFSET j \<Longrightarrow> 39 \<le> j" unfolding off bit_push_bit_iff by blast
qed

lemma bit_frame_mask: "bit (PAGE_EXEC_DISABLE OR 0xFFF) j \<longleftrightarrow> j = 63 \<or> j < 12"
proof -
  have m: "(0xFFF :: u64) = mask 12" by (simp add: mask_eq_exp_minus_1)
  have "bit PAGE_EXEC_DISABLE j \<longleftrightarrow> j = 63"
    unfolding PAGE_EXEC_DISABLE_def push_bit_of_1 bit_exp_iff by auto
  moreover have "bit (mask 12 :: u64) j \<longleftrightarrow> j < 12" by (auto simp: bit_mask_iff)
  ultimately show ?thesis unfolding m bit_or_iff by blast
qed

lemma V2P_P2V: "n < npages \<Longrightarrow> V2P (P2V (page_addr n)) = page_addr n"
  unfolding V2P_def P2V_def
  by (rule bit_word_eqI) (use bit_page_addr bit_offset in \<open>fastforce simp: bit_and_iff bit_or_iff bit_not_iff\<close>)

lemma P2V_page_inj: "n < npages \<Longrightarrow> m < npages \<Longrightarrow> P2V (page_addr n) = P2V (page_addr m) \<longleftrightarrow> n = m"
  by (metis V2P_P2V page_addr_inj)

lemma P2V_not_null: "P2V a \<noteq> NULL"
proof
  assume "P2V a = NULL"
  then have "NOT (P2V a) = - 1" by simp
  moreover have "bit (P2V a) 63"
    unfolding P2V_def PHYSICAL_MEM_MAP_OFFSET_def bit_or_iff by (simp add: bit_numeral_rec)
  ultimately show False using \<open>P2V a = NULL\<close> by simp
qed

text \<open>Bits a table entry may carry beside the frame.\<close>

abbreviation flag_bits :: "u64 \<Rightarrow> bool" where
  "flag_bits f \<equiv> f AND NOT (PAGE_EXEC_DISABLE OR 0xFFF) = 0"

abbreviation frame_bits :: "u64 \<Rightarrow> bool" where
  "frame_bits a \<equiv> a AND (PAGE_EXEC_DISABLE OR 0xFFF) = 0"

lemma split_entry:
  fixes a f m :: u64
  assumes "a AND m = 0" and "f AND NOT m = 0"
  shows "(a OR f) AND NOT m = a" and "(a OR f) AND m = f"
proof -
  have j: "\<not> (bit a j \<and> bit m j)" "\<not> (bit f j \<and> \<not> bit m j)" if "j < 64" for j
    using that arg_cong [OF assms(1), of "\<lambda>w. bit w j"] arg_cong [OF assms(2), of "\<lambda>w. bit w j"]
    by (auto simp: bit_and_iff bit_not_iff)
  show "(a OR f) AND NOT m = a" "(a OR f) AND m = f"
    by (rule bit_word_eqI; use j in \<open>auto simp: bit_and_iff bit_or_iff bit_not_iff\<close>)+
qed

lemma frame_of_entry: "frame_bits a \<Longrightarrow> flag_bits f \<Longrightarrow> GET_PAGE_FRAME (a OR f) = a"
  unfolding GET_PAGE_FRAME_def by (rule split_entry)

lemma flags_of_entry: "frame_bits a \<Longrightarrow> flag_bits f \<Longrightarrow> GET_PAGE_FLAGS (a OR f) = f"
  unfolding GET_PAGE_FLAGS_def by (rule split_entry)

lemma frame_bits_page: "n < npages \<Longrightarrow> frame_bits (page_addr n)"
  by (rule bit_word_eqI) (use bit_page_addr in \<open>fastforce simp: bit_and_iff bit_frame_mask\<close>)

lemma low_flags: "flag_bits f" if "f < 2 ^ 12" for f :: u64
proof (rule bit_word_eqI)
  have f: "f = take_bit 12 f" using that by (simp add: take_bit_eq_mask less_mask_eq)
  fix j show "bit (f AND NOT (PAGE_EXEC_DISABLE OR 0xFFF)) j \<longleftrightarrow> bit (0 :: u64) j"
    using arg_cong [OF f, of "\<lambda>w. bit w j"]
    unfolding bit_and_iff bit_not_iff bit_frame_mask bit_take_bit_iff by auto
qed

lemma base_flags_cases: "base_flags f = 3 \<or> base_flags f = 7"
  by (simp add: base_flags_def)

text \<open>An entry for a fresh table: present, not huge, and its frame is the table's page.\<close>

lemma table_entry:
  assumes "n < npages"
  shows "GET_PAGE_FRAME (page_addr n OR base_flags f) = page_addr n"
    and "(page_addr n OR base_flags f) AND PAGE_PRESENT \<noteq> 0"
    and "(page_addr n OR base_flags f) AND PAGE_HUGE = 0"
proof -
  have "base_flags f < 2 ^ 12" using base_flags_cases [of f] by auto
  then have low: "flag_bits (base_flags f)" by (rule low_flags)
  show "GET_PAGE_FRAME (page_addr n OR base_flags f) = page_addr n"
    using frame_bits_page [OF assms] low by (rule frame_of_entry)
  have "\<not> bit (page_addr n) 7" using bit_page_addr [OF assms, of 7] by auto
  moreover have "\<not> bit (base_flags f) 7" "bit (base_flags f) 0"
    using base_flags_cases [of f] by (auto simp: bit_numeral_rec)
  ultimately have "bit (page_addr n OR base_flags f) 0" "\<not> bit (page_addr n OR base_flags f) 7"
    by (simp_all only: bit_or_iff simp_thms)
  moreover have "w AND PAGE_PRESENT = 0 \<longleftrightarrow> \<not> bit w 0" "w AND PAGE_HUGE = 0 \<longleftrightarrow> \<not> bit w 7" for w :: u64
    using and_exp_eq_0_iff_not_bit [of w 0] and_exp_eq_0_iff_not_bit [of w 7] by simp_all
  ultimately show "(page_addr n OR base_flags f) AND PAGE_PRESENT \<noteq> 0"
    and "(page_addr n OR base_flags f) AND PAGE_HUGE = 0" by simp_all
qed

subsection \<open>The tree of tables\<close>

text \<open>
  \<open>walk v r p\<close> is the table reached from \<open>r\<close> along the indices of \<open>p\<close>, the last one first. A huge page
  ends the walk.
\<close>

fun walk :: "vm \<Rightarrow> ptr \<Rightarrow> nat list \<Rightarrow> ptr option" where
  "walk v r [] = Some r"
| "walk v r (i # p) =
     (case walk v r p of
        None \<Rightarrow> None
      | Some t \<Rightarrow>
          if pg v t i AND PAGE_PRESENT = 0 \<or> (length p = 2 \<and> pg v t i AND PAGE_HUGE \<noteq> 0) then None
          else Some (table_at t i v))"

definition tpath :: "nat list \<Rightarrow> bool" where
  "tpath p \<longleftrightarrow> length p \<le> 3 \<and> (\<forall>i\<in>set p. i < 512)"

text \<open>
  The invariant of an address space: every table is a page the allocator has handed out, and no
  table is reached along two paths.
\<close>

definition pt_inv :: "ptr \<Rightarrow> vm \<Rightarrow> bool" where
  "pt_inv r v \<longleftrightarrow>
     (\<forall>p t. tpath p \<longrightarrow> walk v r p = Some t \<longrightarrow>
        (\<exists>n<npages. t = P2V (page_addr n) \<and> page_used (vm_pmm v) n)) \<and>
     (\<forall>p q t. tpath p \<longrightarrow> tpath q \<longrightarrow> walk v r p = Some t \<longrightarrow> walk v r q = Some t \<longrightarrow> p = q)"

lemma pt_inv_owned:
  "pt_inv r v \<Longrightarrow> tpath p \<Longrightarrow> walk v r p = Some t \<Longrightarrow>
   \<exists>n<npages. t = P2V (page_addr n) \<and> page_used (vm_pmm v) n"
  unfolding pt_inv_def by blast

lemma pt_inv_inj:
  "pt_inv r v \<Longrightarrow> tpath p \<Longrightarrow> tpath q \<Longrightarrow> walk v r p = Some t \<Longrightarrow> walk v r q = Some t \<Longrightarrow> p = q"
  unfolding pt_inv_def by blast

lemma pt_inv_fresh:
  "pt_inv r v \<Longrightarrow> tpath p \<Longrightarrow> walk v r p = Some t \<Longrightarrow> n < npages \<Longrightarrow> \<not> page_used (vm_pmm v) n \<Longrightarrow>
   t \<noteq> P2V (page_addr n)"
  using pt_inv_owned P2V_page_inj by blast

lemma tpath_tl: "tpath (i # p) \<Longrightarrow> tpath p"
  by (auto simp: tpath_def)

lemma page_index_lt: "unat (w AND 0x1FF :: u64) < 512"
proof -
  have "w AND 0x1FF = take_bit 9 w" by (simp add: take_bit_eq_mask mask_eq_exp_minus_1)
  moreover have "take_bit 9 (unat w) < 2 ^ 9" by (rule take_bit_nat_less_exp)
  ultimately show ?thesis by (simp add: unsigned_take_bit_eq)
qed

text \<open>The four indices of an address, the top level last.\<close>

definition vpath :: "u64 \<Rightarrow> nat list" where
  "vpath a = [GET_1_LEVEL_PAGE_INDEX a, GET_2_LEVEL_PAGE_INDEX a, GET_3_LEVEL_PAGE_INDEX a,
              GET_4_LEVEL_PAGE_INDEX a]"

lemma index_lt [simp]:
  "GET_1_LEVEL_PAGE_INDEX a < 512" "GET_2_LEVEL_PAGE_INDEX a < 512"
  "GET_3_LEVEL_PAGE_INDEX a < 512" "GET_4_LEVEL_PAGE_INDEX a < 512"
  unfolding GET_1_LEVEL_PAGE_INDEX_def GET_2_LEVEL_PAGE_INDEX_def GET_3_LEVEL_PAGE_INDEX_def
    GET_4_LEVEL_PAGE_INDEX_def by (rule page_index_lt)+

text \<open>
  What the tables hold for an address: nothing, the entry of a huge page, or the entry of a page.
  Translation and presence are functions of it.
\<close>

definition lookup :: "ptr \<Rightarrow> u64 \<Rightarrow> vm \<Rightarrow> (bool \<times> u64) option" where
  "lookup r a v =
     (case walk v r (drop 2 (vpath a)) of
        None \<Rightarrow> None
      | Some pd \<Rightarrow>
          let e = pg v pd (GET_2_LEVEL_PAGE_INDEX a) in
          if e AND PAGE_PRESENT = 0 then None
          else if e AND PAGE_HUGE \<noteq> 0 then Some (True, e)
          else let l = pg v (table_at pd (GET_2_LEVEL_PAGE_INDEX a) v) (GET_1_LEVEL_PAGE_INDEX a) in
               if l AND PAGE_PRESENT = 0 then None else Some (False, l))"

lemma get_physical_address_lookup:
  "get_physical_address r a v =
     (case lookup r a v of
        None \<Rightarrow> NULL
      | Some (huge, e) \<Rightarrow>
          if huge then (e AND NOT (PAGE_EXEC_DISABLE OR HUGE_MASK)) OR (a AND HUGE_MASK)
          else GET_PAGE_FRAME e + GET_PAGE_OFFSET a)"
  by (simp add: get_physical_address_def lookup_def Let_def vpath_def numeral_2_eq_2 table_at_def)

lemma arch_vm_is_mapped_lookup: "arch_vm_is_mapped r a v \<longleftrightarrow> lookup r a v \<noteq> None"
  by (auto simp: arch_vm_is_mapped_def lookup_def Let_def vpath_def numeral_2_eq_2 table_at_def)

lemma walk_new_table:
  fixes n :: nat
  assumes inv: "pt_inv r v" and t: "walk v r p = Some t" "tpath (i # p)"
    and absent: "pg v t i AND PAGE_PRESENT = 0"
    and n: "n < npages" "\<not> page_used (vm_pmm v) n"
    and v': "pg v' = (pg v)(P2V (page_addr n) := (\<lambda>_. 0), t := (pg v t)(i := page_addr n OR base_flags f))"
    and q: "tpath q"
  shows "walk v' r q =
    (if q = i # p then Some (P2V (page_addr n))
     else if \<exists>a. q = a @ i # p then None else walk v r q)"
  using q
proof (induction q)
  case (Cons j q)
  let ?F = "P2V (page_addr n)"
  have q: "tpath q" using Cons.prems by (rule tpath_tl)
  have tF: "t \<noteq> ?F" using pt_inv_fresh [OF inv tpath_tl [OF t(2)] t(1) n] .
  note IH = Cons.IH [OF q]
  consider (at) "q = i # p" | (below) a where "a \<noteq> []" "q = a @ i # p" | (other) "\<nexists>a. q = a @ i # p"
    by (cases "\<exists>a. q = a @ i # p") (metis append_Nil, blast)
  then show ?case
  proof cases
    case at
    then have "walk v' r q = Some ?F" "pg v' ?F j = 0" using IH v' tF by simp_all
    moreover have "\<exists>a. j # q = a @ i # p" using at by (metis append_Cons append_Nil)
    moreover have "j # q \<noteq> i # p" using at by auto
    ultimately show ?thesis by simp
  next
    case below
    then have "walk v' r q = None" using IH by auto
    moreover have "\<exists>a. j # q = a @ i # p" using below by (metis append_Cons)
    moreover have "j # q \<noteq> i # p" using below by auto
    ultimately show ?thesis by simp
  next
    case other
    then have w: "walk v' r q = walk v r q" using IH by (metis append_Nil)
    have ext: "(\<exists>a. j # q = a @ i # p) \<longleftrightarrow> j # q = i # p"
      using other by (metis append_Cons append_Nil list.exhaust list.inject)
    show ?thesis
    proof (cases "walk v r q")
      case None
      then show ?thesis using w t(1) ext by auto
    next
      case (Some u)
      then have uF: "u \<noteq> ?F" using pt_inv_fresh [OF inv q _ n] by blast
      show ?thesis
      proof (cases "u = t \<and> j = i")
        case True
        then have "q = p" using pt_inv_inj [OF inv q tpath_tl [OF t(2)]] Some t(1) by blast
        then show ?thesis
          using True Some w v' tF table_entry [OF n(1), of f] by (simp add: table_at_def)
      next
        case False
        then have ne: "j # q \<noteq> i # p" using Some t(1) by auto
        have "pg v' u j = pg v u j" using False uF v' by auto
        then have "walk v' r (j # q) = walk v r (j # q)" using Some w by (simp add: table_at_def)
        then show ?thesis using ne ext by presburger
      qed
    qed
  qed
qed simp

lemma new_page_table_cases:
  obtains (fail) "new_page_table v = Some (NULL, v)"
  | (ok) n P where
      "new_page_table v =
         Some (P2V (page_addr n), v\<lparr>vm_pmm := P, pg := (pg v)(P2V (page_addr n) := (\<lambda>_. 0))\<rparr>)"
      "n < npages" "\<not> page_used (vm_pmm v) n"
      "\<And>k. page_used P k \<longleftrightarrow> page_used (vm_pmm v) k \<or> k = n"
proof (cases rule: pmm_alloc_page_cases [of "vm_pmm v"])
  case fail
  then show ?thesis using that(1) by (simp add: new_page_table_def)
next
  case (found n s')
  then show ?thesis using that(2) [of n s'] by (simp add: new_page_table_def)
qed

text \<open>Adding empty tables keeps the invariant and every translation.\<close>

definition grown :: "ptr \<Rightarrow> vm \<Rightarrow> vm \<Rightarrow> bool" where
  "grown r v v' \<longleftrightarrow> pt_inv r v' \<and>
     (\<forall>a. lookup r a v' = lookup r a v) \<and>
     (\<forall>q u. tpath q \<longrightarrow> walk v r q = Some u \<longrightarrow> walk v' r q = Some u)"

lemma grown_refl: "pt_inv r v \<Longrightarrow> grown r v v"
  by (simp add: grown_def)

lemma grown_trans: "grown r v v1 \<Longrightarrow> grown r v1 v2 \<Longrightarrow> grown r v v2"
  by (simp add: grown_def)

lemma drop_vpath:
  "drop 1 (vpath a) = [GET_2_LEVEL_PAGE_INDEX a, GET_3_LEVEL_PAGE_INDEX a, GET_4_LEVEL_PAGE_INDEX a]"
  "drop 2 (vpath a) = [GET_3_LEVEL_PAGE_INDEX a, GET_4_LEVEL_PAGE_INDEX a]"
  by (simp_all add: vpath_def numeral_2_eq_2)

lemma tpath_drop: "tpath (drop 2 (vpath a))" "tpath (drop 1 (vpath a))"
  by (simp_all add: tpath_def vpath_def numeral_2_eq_2)

lemma walk_absent:
  "walk v r p = Some t \<Longrightarrow> pg v t i AND PAGE_PRESENT = 0 \<Longrightarrow> walk v r (a @ i # p) = None"
  by (induction a) simp_all

lemma new_table_translations:
  assumes inv: "pt_inv r v" and t: "walk v r p = Some t" "tpath (i # p)"
    and absent: "pg v t i AND PAGE_PRESENT = 0"
    and n: "n < npages" "\<not> page_used (vm_pmm v) n"
    and v': "pg v' = (pg v)(P2V (page_addr n) := (\<lambda>_. 0), t := (pg v t)(i := page_addr n OR base_flags f))"
  shows "lookup r a v' = lookup r a v"
proof -
  let ?F = "P2V (page_addr n)" and ?q = "drop 2 (vpath a)"
  let ?i2 = "GET_2_LEVEL_PAGE_INDEX a" and ?i1 = "GET_1_LEVEL_PAGE_INDEX a"
  have tF: "t \<noteq> ?F" using pt_inv_fresh [OF inv tpath_tl [OF t(2)] t(1) n] .
  note w = walk_new_table [OF inv t absent n v', of ?q, OF tpath_drop(1)]
  consider (ext) b where "?q = b @ i # p" | (other) "\<nexists>b. ?q = b @ i # p" by blast
  then show ?thesis
  proof cases
    case ext
    then have "walk v r ?q = None" using walk_absent [OF t(1) absent] by simp
    then have old: "lookup r a v = None" by (simp add: lookup_def)
    have "walk v' r ?q = None \<or> walk v' r ?q = Some ?F" using w ext by auto
    moreover have "pg v' ?F j = 0" for j using v' tF by simp
    ultimately show ?thesis unfolding old by (auto simp: lookup_def)
  next
    case other
    then have w: "walk v' r ?q = walk v r ?q" using w by (metis append_Nil)
    show ?thesis
    proof (cases "walk v r ?q")
      case None
      then show ?thesis using w by (simp add: lookup_def)
    next
      case (Some pd)
      then have pdF: "pd \<noteq> ?F" using pt_inv_fresh [OF inv tpath_drop(1) _ n] by blast
      show ?thesis
      proof (cases "pd = t \<and> ?i2 = i")
        case True
        then have "pg v' pd ?i2 = page_addr n OR base_flags f" "table_at pd ?i2 v' = ?F"
          using v' table_entry [OF n(1), of f] by (simp_all add: table_at_def)
        moreover have "pg v' ?F ?i1 = 0" using v' tF by simp
        ultimately show ?thesis using True Some w absent table_entry [OF n(1), of f]
          by (simp add: lookup_def Let_def)
      next
        case False
        then have e: "pg v' pd ?i2 = pg v pd ?i2" using v' pdF by auto
        have "pg v' (table_at pd ?i2 v) ?i1 = pg v (table_at pd ?i2 v) ?i1"
          if "pg v pd ?i2 AND PAGE_PRESENT \<noteq> 0" "pg v pd ?i2 AND PAGE_HUGE = 0"
        proof -
          have q1: "drop 1 (vpath a) = ?i2 # ?q" "length ?q = 2" by (simp_all add: vpath_def numeral_2_eq_2)
          then have pt: "walk v r (drop 1 (vpath a)) = Some (table_at pd ?i2 v)"
            using Some that by simp
          have "table_at pd ?i2 v \<noteq> ?F" using pt_inv_fresh [OF inv tpath_drop(2) pt n] .
          moreover have "table_at pd ?i2 v \<noteq> t"
          proof
            assume "table_at pd ?i2 v = t"
            then have "drop 1 (vpath a) = p"
              using pt_inv_inj [OF inv tpath_drop(2) tpath_tl [OF t(2)]] pt t(1) by blast
            then show False using t(2) q1 by (auto simp: tpath_def)
          qed
          ultimately show ?thesis using v' by simp
        qed
        then show ?thesis using Some w e by (simp add: lookup_def Let_def table_at_def)
      qed
    qed
  qed
qed

lemma new_table_inv:
  assumes inv: "pt_inv r v" and t: "walk v r p = Some t" "tpath (i # p)"
    and absent: "pg v t i AND PAGE_PRESENT = 0"
    and n: "n < npages" "\<not> page_used (vm_pmm v) n"
    and v': "pg v' = (pg v)(P2V (page_addr n) := (\<lambda>_. 0), t := (pg v t)(i := page_addr n OR base_flags f))"
    and used: "\<And>k. page_used (vm_pmm v') k \<longleftrightarrow> page_used (vm_pmm v) k \<or> k = n"
  shows "pt_inv r v'"
proof -
  note w = walk_new_table [OF inv t absent n v']
  have cases: "u = P2V (page_addr n) \<and> q = i # p \<or> walk v r q = Some u \<and> q \<noteq> i # p"
    if "tpath q" "walk v' r q = Some u" for q u
    using w [OF that(1)] that(2) by (auto split: if_splits)
  show ?thesis unfolding pt_inv_def
  proof (intro conjI allI impI)
    fix q u assume "tpath q" "walk v' r q = Some u"
    then show "\<exists>n<npages. u = P2V (page_addr n) \<and> page_used (vm_pmm v') n"
      using cases pt_inv_owned [OF inv] used n(1) by blast
  next
    fix q q' u assume q: "tpath q" "tpath q'" "walk v' r q = Some u" "walk v' r q' = Some u"
    show "q = q'"
      using cases [OF q(1,3)] cases [OF q(2,4)] pt_inv_fresh [OF inv _ _ n] pt_inv_inj [OF inv q(1,2)] q(1,2)
      by blast
  qed
qed

lemma ensure_table_cases:
  assumes inv: "pt_inv r v" and t: "walk v r p = Some t" "tpath (i # p)"
    and no_huge: "pg v t i AND PAGE_PRESENT = 0 \<or> length p \<noteq> 2 \<or> pg v t i AND PAGE_HUGE = 0"
  obtains (fail) "ensure_table t i (base_flags f) v = Some (False, v)"
  | (ok) v' where "ensure_table t i (base_flags f) v = Some (True, v')" "grown r v v'"
      "walk v' r (i # p) = Some (table_at t i v')"
proof (cases "pg v t i AND PAGE_PRESENT = 0")
  case False
  then have "ensure_table t i (base_flags f) v = Some (True, v)" by (simp add: ensure_table_def)
  moreover have "walk v r (i # p) = Some (table_at t i v)" using t(1) False no_huge by auto
  ultimately show ?thesis using that(2) grown_refl [OF inv] by blast
next
  case absent: True
  show ?thesis
  proof (cases rule: new_page_table_cases [of v])
    case fail
    then show ?thesis using that(1) absent by (simp add: ensure_table_def)
  next
    case (ok n P)
    let ?F = "P2V (page_addr n)"
    let ?v = "set_entry t i (page_addr n OR base_flags f) (v\<lparr>vm_pmm := P, pg := (pg v)(?F := (\<lambda>_. 0))\<rparr>)"
    have tF: "t \<noteq> ?F" using pt_inv_fresh [OF inv tpath_tl [OF t(2)] t(1) ok(2,3)] .
    have pg: "pg ?v = (pg v)(?F := (\<lambda>_. 0), t := (pg v t)(i := page_addr n OR base_flags f))"
      using tF by (simp add: set_entry_def)
    have used: "page_used (vm_pmm ?v) k \<longleftrightarrow> page_used (vm_pmm v) k \<or> k = n" for k
      using ok(4) by (simp add: set_entry_def)
    note w = walk_new_table [OF inv t absent ok(2,3) pg]
    have "ensure_table t i (base_flags f) v = Some (True, ?v)"
      using ok(1) absent P2V_not_null V2P_P2V [OF ok(2)] by (simp add: ensure_table_def)
    moreover have "walk ?v r q = Some u" if "tpath q" "walk v r q = Some u" for q u
      using w [OF that(1)] that(2) walk_absent [OF t(1) absent] by (metis append_Nil option.distinct(1))
    then have "grown r v ?v"
      using new_table_inv [OF inv t absent ok(2,3) pg used] new_table_translations [OF inv t absent ok(2,3) pg]
      by (simp add: grown_def)
    moreover have "walk ?v r (i # p) = Some (table_at t i ?v)"
      using w [OF t(2)] table_entry(1) [OF ok(2)] by (simp add: table_at_def pg)
    ultimately show ?thesis by (rule that(2))
  qed
qed

subsection \<open>Mapping a page\<close>

lemma present_bit: "(w :: u64) AND PAGE_PRESENT = 0 \<longleftrightarrow> \<not> bit w 0"
  using and_exp_eq_0_iff_not_bit [of w 0] by simp

lemma huge_bit: "(w :: u64) AND PAGE_HUGE = 0 \<longleftrightarrow> \<not> bit w 7"
  using and_exp_eq_0_iff_not_bit [of w 7] by simp

lemma huge_bit_eq: "(w :: u64) AND PAGE_HUGE = PAGE_HUGE \<longleftrightarrow> bit w 7"
proof -
  have "w AND 2 ^ 7 = (if bit w 7 then 2 ^ 7 else 0)"
    by (rule bit_word_eqI, cases "bit w 7"; simp only: if_True if_False bit_and_iff bit_exp_iff; auto)
  then show ?thesis by (simp split: if_splits)
qed

text \<open>Writing the last-level entry of \<open>a\<close>.\<close>

lemma leaf_write:
  fixes e :: u64
  assumes inv: "pt_inv r v" and pt: "walk v r (drop 1 (vpath a)) = Some pt"
  defines "v' \<equiv> set_entry pt (GET_1_LEVEL_PAGE_INDEX a) e v"
  shows "tpath q \<Longrightarrow> walk v' r q = walk v r q" and "pt_inv r v'"
    and "lookup r b v' =
      (if vpath b = vpath a then if e AND PAGE_PRESENT = 0 then None else Some (False, e)
       else lookup r b v)"
proof -
  let ?i1 = "GET_1_LEVEL_PAGE_INDEX"
  have pg: "pg v' = (pg v)(pt := (pg v pt)(?i1 a := e))" by (simp add: v'_def set_entry_def)
  have short: "u \<noteq> pt" if "tpath q" "walk v r q = Some u" "length q < 3" for q u
  proof
    assume "u = pt"
    then have "q = drop 1 (vpath a)" using pt_inv_inj [OF inv that(1) tpath_drop(2)] that(2) pt by blast
    then show False using that(3) by (simp add: vpath_def)
  qed
  have walk: "walk v' r q = walk v r q" if "tpath q" for q
    using that
  proof (induction q)
    case (Cons j q)
    then have q: "tpath q" "length q < 3" by (auto simp: tpath_def)
    then have "pg v' u j = pg v u j" if "walk v r q = Some u" for u
      using short [OF q(1) that q(2)] by (simp add: pg)
    then show ?case using Cons.IH [OF q(1)] by (auto simp: table_at_def split: option.splits)
  qed simp
  then show "tpath q \<Longrightarrow> walk v' r q = walk v r q" .
  have "vm_pmm v' = vm_pmm v" by (simp add: v'_def set_entry_def)
  then show "pt_inv r v'" using inv walk by (simp add: pt_inv_def)
  let ?q = "drop 2 (vpath b)" and ?i2 = "GET_2_LEVEL_PAGE_INDEX b"
  have q1: "drop 1 (vpath b) = ?i2 # ?q" "length ?q = 2" by (simp_all add: vpath_def numeral_2_eq_2)
  have b: "vpath b = ?i1 b # drop 1 (vpath b)" "vpath a = ?i1 a # drop 1 (vpath a)"
    by (simp_all add: vpath_def)
  show "lookup r b v' =
      (if vpath b = vpath a then if e AND PAGE_PRESENT = 0 then None else Some (False, e)
       else lookup r b v)"
  proof (cases "walk v r ?q")
    case None
    then have "walk v r (drop 1 (vpath b)) = None" using q1 by simp
    then have "vpath b \<noteq> vpath a" using pt b by auto
    then show ?thesis using None walk [OF tpath_drop(1)] by (simp add: lookup_def)
  next
    case (Some pd)
    then have "pd \<noteq> pt" using short [OF tpath_drop(1)] q1(2) by simp
    then have ent: "pg v' pd ?i2 = pg v pd ?i2" "table_at pd ?i2 v' = table_at pd ?i2 v"
      by (simp_all add: pg table_at_def)
    show ?thesis
    proof (cases "walk v r (drop 1 (vpath b))")
      case none: None
      then have "vpath b \<noteq> vpath a" using pt b by auto
      moreover have "pg v pd ?i2 AND PAGE_PRESENT = 0 \<or> pg v pd ?i2 AND PAGE_HUGE \<noteq> 0"
        using none q1 Some by (auto split: if_splits)
      ultimately show ?thesis using Some walk [OF tpath_drop(1)] ent
        by (auto simp: lookup_def Let_def)
    next
      case ptb: (Some u)
      then have u: "u = table_at pd ?i2 v" "pg v pd ?i2 AND PAGE_PRESENT \<noteq> 0" "pg v pd ?i2 AND PAGE_HUGE = 0"
        using q1 Some by (auto split: if_splits)
      have "vpath b = vpath a \<longleftrightarrow> u = pt \<and> ?i1 b = ?i1 a"
        using b ptb pt pt_inv_inj [OF inv tpath_drop(2) tpath_drop(2)] by (metis list.inject option.inject)
      then show ?thesis using Some walk [OF tpath_drop(1)] ent u
        by (auto simp: lookup_def Let_def pg)
    qed
  qed
qed

lemma map_page_mem_cases:
  assumes inv: "pt_inv r v"
  obtains (nomem) v' where "map_page_mem r a pa flags v = Some (ERR_NO_MEM, v')" "grown r v v'"
  | (mapped) v' where "map_page_mem r a pa flags v = Some (PAGING_ERROR_ALREADY_MAPPED, v')" "grown r v v'"
      "arch_vm_is_mapped r a v'"
  | (ok) v' pt where
      "map_page_mem r a pa flags v = Some (0, set_entry pt (GET_1_LEVEL_PAGE_INDEX a) (pa OR flags) v')"
      "grown r v v'" "walk v' r (drop 1 (vpath a)) = Some pt"
      "pg v' pt (GET_1_LEVEL_PAGE_INDEX a) AND PAGE_PRESENT = 0"
proof -
  let ?i4 = "GET_4_LEVEL_PAGE_INDEX a" and ?i3 = "GET_3_LEVEL_PAGE_INDEX a"
    and ?i2 = "GET_2_LEVEL_PAGE_INDEX a" and ?i1 = "GET_1_LEVEL_PAGE_INDEX a"
  note def = map_page_mem_def Let_def
  have path: "tpath [?i4]" "tpath [?i3, ?i4]" "tpath [?i2, ?i3, ?i4]" by (simp_all add: tpath_def)
  have nh0: "pg v r ?i4 AND PAGE_PRESENT = 0 \<or> length ([] :: nat list) \<noteq> 2 \<or> pg v r ?i4 AND PAGE_HUGE = 0"
    by simp
  show ?thesis
  proof (cases rule: ensure_table_cases [OF inv walk.simps(1) path(1) nh0, of flags, case_names fail ok])
    case fail
    then show ?thesis using nomem [of v] grown_refl [OF inv] by (simp add: def)
  next
    case (ok v1)
    note v1 = ok
    let ?pdp = "table_at r ?i4 v1"
    have inv1: "pt_inv r v1" using v1(2) by (simp add: grown_def)
    have nh1: "pg v1 ?pdp ?i3 AND PAGE_PRESENT = 0 \<or> length [?i4] \<noteq> 2 \<or> pg v1 ?pdp ?i3 AND PAGE_HUGE = 0"
      by simp
    show ?thesis
    proof (cases rule: ensure_table_cases [OF inv1 v1(3) path(2) nh1, of flags, case_names fail ok])
      case fail
      then show ?thesis using nomem [of v1] v1 by (simp add: def)
    next
      case (ok v2)
      note v2 = ok
      let ?pd = "table_at ?pdp ?i3 v2"
      have g2: "grown r v v2" using v1(2) v2(2) by (rule grown_trans)
      then have inv2: "pt_inv r v2" by (simp add: grown_def)
      show ?thesis
      proof (cases "pg v2 ?pd ?i2 AND PAGE_PRESENT \<noteq> 0 \<and> pg v2 ?pd ?i2 AND PAGE_HUGE \<noteq> 0")
        case True
        then have "pg v2 ?pd ?i2 AND PAGE_HUGE = PAGE_HUGE" using huge_bit huge_bit_eq by blast
        moreover have "arch_vm_is_mapped r a v2"
          using v2(3) True unfolding arch_vm_is_mapped_lookup lookup_def drop_vpath by simp
        ultimately show ?thesis using mapped [of v2] v1 v2 g2 True by (simp add: def)
      next
        case False
        then have nh: "pg v2 ?pd ?i2 AND PAGE_PRESENT = 0 \<or> length [?i3, ?i4] \<noteq> 2 \<or> pg v2 ?pd ?i2 AND PAGE_HUGE = 0"
          by auto
        have nh': "\<not> (pg v2 ?pd ?i2 AND PAGE_PRESENT \<noteq> 0 \<and> pg v2 ?pd ?i2 AND PAGE_HUGE = PAGE_HUGE)"
          using False by auto
        show ?thesis
        proof (cases rule: ensure_table_cases [OF inv2 v2(3) path(3) nh, of flags, case_names fail ok])
          case fail
          then show ?thesis using nomem [of v2] v1 v2 g2 nh' by (auto simp: def)
        next
          case (ok v3)
          note v3 = ok
          let ?pt = "table_at ?pd ?i2 v3"
          have g3: "grown r v v3" using g2 v3(2) by (rule grown_trans)
          have w: "walk v3 r (drop 1 (vpath a)) = Some ?pt" using v3(3) by (simp add: vpath_def)
          show ?thesis
          proof (cases "pg v3 ?pt ?i1 AND PAGE_PRESENT = 0")
            case True
            then show ?thesis using that(3) [of ?pt v3] v1 v2 v3 nh' g3 w by (auto simp: def)
          next
            case False
            have w2: "walk v3 r [?i3, ?i4] = Some ?pd"
              using v2(3) v3(2) path(2) unfolding grown_def by blast
            have "pg v3 ?pd ?i2 AND PAGE_PRESENT \<noteq> 0"
              using v3(3) unfolding walk.simps(2) [of v3 r ?i2 "[?i3, ?i4]"] w2 by (auto split: if_splits)
            then have "arch_vm_is_mapped r a v3"
              using False unfolding arch_vm_is_mapped_lookup lookup_def drop_vpath(2) w2 by (auto simp: Let_def)
            then show ?thesis using mapped [of v3] v1 v2 v3 nh' g3 False by (auto simp: def)
          qed
        qed
      qed
    qed
  qed
qed

lemma grown_lookup:
  assumes "grown r v v'"
  shows "pt_inv r v'" "lookup r b v' = lookup r b v"
    "get_physical_address r b v' = get_physical_address r b v"
  using assms by (simp_all add: grown_def get_physical_address_lookup)

lemma map_page_mem_lookup:
  assumes inv: "pt_inv r v" and fl: "flags AND PAGE_PRESENT \<noteq> 0"
    and m: "map_page_mem r a pa flags v = Some (rc, v')"
  shows "pt_inv r v' \<and>
    (rc = 0 \<longrightarrow> lookup r b v' = (if vpath b = vpath a then Some (False, pa OR flags) else lookup r b v)) \<and>
    (rc \<noteq> 0 \<longrightarrow> lookup r b v' = lookup r b v) \<and>
    (rc = 0 \<or> rc = ERR_NO_MEM \<or> rc = PAGING_ERROR_ALREADY_MAPPED \<and> arch_vm_is_mapped r a v')"
proof (cases rule: map_page_mem_cases [OF inv, of a pa flags, case_names nomem mapped ok])
  case (nomem v1)
  then show ?thesis using m grown_lookup by auto
next
  case (mapped v1)
  then show ?thesis using m grown_lookup by auto
next
  case (ok v1 pt)
  have e: "(pa OR flags) AND PAGE_PRESENT \<noteq> 0" using fl by (simp add: present_bit bit_or_iff)
  note lw = leaf_write [OF grown_lookup(1) [OF ok(2)] ok(3), where e = "pa OR flags"]
  show ?thesis using ok(1) m lw(2) lw(3) [of b] e grown_lookup(2) [OF ok(2)] by auto
qed

lemma map_page_mem_translation:
  assumes inv: "pt_inv r v" and pa: "frame_bits pa" and fl: "flag_bits flags" "flags AND PAGE_PRESENT \<noteq> 0"
    and m: "map_page_mem r a pa flags v = Some (rc, v')"
  shows "pt_inv r v'"
    and "rc = 0 \<Longrightarrow> get_physical_address r b v' =
      (if vpath b = vpath a then pa + GET_PAGE_OFFSET b else get_physical_address r b v)"
    and "rc \<noteq> 0 \<Longrightarrow> get_physical_address r b v' = get_physical_address r b v"
    and "rc = 0 \<or> rc = ERR_NO_MEM \<or> rc = PAGING_ERROR_ALREADY_MAPPED"
  using map_page_mem_lookup [OF inv fl(2) m, of b] frame_of_entry [OF pa fl(1)]
  by (auto simp: get_physical_address_lookup)

lemma map_page_mem_returns: "pt_inv r v \<Longrightarrow> \<exists>rc v'. map_page_mem r a pa flags v = Some (rc, v')"
  by (rule map_page_mem_cases [of r v a pa flags]) blast+

lemma flag_bits_or: "flag_bits x \<Longrightarrow> flag_bits y \<Longrightarrow> flag_bits (x OR y)"
  by (simp only: bit.conj_disj_distrib2 or.left_neutral)

lemma prot_flags:
  "flag_bits (x86_64_prot_2_flags prot)" "x86_64_prot_2_flags prot AND PAGE_PRESENT \<noteq> 0"
proof -
  have nx: "flag_bits PAGE_EXEC_DISABLE"
    by (rule bit_word_eqI) (simp only: bit_and_iff bit_not_iff bit_or_iff bit_0_eq, auto)
  have low: "flag_bits 1" "flag_bits 2" "flag_bits 4" by (rule low_flags; simp)+
  show "flag_bits (x86_64_prot_2_flags prot)"
    unfolding x86_64_prot_2_flags_def Let_def
    by (simp only: flag_bits_or low nx split: if_split) simp
  show "x86_64_prot_2_flags prot AND PAGE_PRESENT \<noteq> 0"
    unfolding present_bit x86_64_prot_2_flags_def Let_def by (simp add: bit_or_iff)
qed

subsection \<open>The contract of an address space\<close>

text \<open>
  What the callers of the mapping functions use: mapping returns, a successful mapping changes the
  translation of one page only, and an error changes none.
\<close>

locale address_space =
  fixes inv :: "'s \<Rightarrow> bool" and map_page :: "u64 \<Rightarrow> u64 \<Rightarrow> 's \<Rightarrow> (int \<times> 's) option"
    and trans :: "'s \<Rightarrow> u64 \<Rightarrow> u64" and page :: "u64 \<Rightarrow> 'p" and offset :: "u64 \<Rightarrow> u64"
    and frame :: "u64 \<Rightarrow> bool"
  assumes returns: "inv s \<Longrightarrow> \<exists>rc s'. map_page a p s = Some (rc, s')"
    and keeps: "inv s \<Longrightarrow> frame p \<Longrightarrow> map_page a p s = Some (rc, s') \<Longrightarrow> inv s'"
    and maps: "inv s \<Longrightarrow> frame p \<Longrightarrow> map_page a p s = Some (0, s') \<Longrightarrow>
      trans s' b = (if page b = page a then p + offset b else trans s b)"
begin

text \<open>A region is mapped page by page until the first error; the result is the number of pages mapped.\<close>

fun map_list :: "(u64 \<times> u64) list \<Rightarrow> 's \<Rightarrow> (nat \<times> 's) option" where
  "map_list [] s = Some (0, s)"
| "map_list ((a, p) # ms) s =
     do { (rc, s) \<leftarrow> map_page a p s;
          if rc = 0 then do { (n, s) \<leftarrow> map_list ms s; Some (Suc n, s) } else Some (0, s) }"

lemma map_list_returns:
  "inv s \<Longrightarrow> \<forall>(a, p)\<in>set ms. frame p \<Longrightarrow> \<exists>n s'. map_list ms s = Some (n, s')"
proof (induction ms arbitrary: s)
  case (Cons m ms)
  obtain a p where m: "m = (a, p)" by (cases m)
  obtain rc s1 where s1: "map_page a p s = Some (rc, s1)" using returns Cons.prems(1) by blast
  have "frame p" using Cons.prems(2) m by simp
  then have "inv s1" using keeps [OF Cons.prems(1) _ s1] by blast
  moreover have "\<forall>(a, p)\<in>set ms. frame p" using Cons.prems(2) by simp
  ultimately obtain n s2 where "map_list ms s1 = Some (n, s2)" using Cons.IH by blast
  then show ?case using s1 m by simp
qed simp

lemma map_list_translates:
  assumes "map_list ms s = Some (length ms, s')" and "inv s" and "\<forall>(a, p)\<in>set ms. frame p"
    and "distinct (map (\<lambda>(a, _). page a) ms)"
  shows "(a, p) \<in> set ms \<Longrightarrow> page b = page a \<Longrightarrow> trans s' b = p + offset b"
    and "page b \<notin> (\<lambda>(a, _). page a) ` set ms \<Longrightarrow> trans s' b = trans s b"
proof -
  have "((a, p) \<in> set ms \<longrightarrow> page b = page a \<longrightarrow> trans s' b = p + offset b) \<and>
    (page b \<notin> (\<lambda>(a, _). page a) ` set ms \<longrightarrow> trans s' b = trans s b)"
    using assms
  proof (induction ms arbitrary: s)
    case (Cons m ms)
    obtain a1 p1 where m: "m = (a1, p1)" by (cases m)
    obtain s1 where s1: "map_page a1 p1 s = Some (0, s1)" "map_list ms s1 = Some (length ms, s')"
      using Cons.prems(1) m by (auto split: bind_splits if_splits)
    have inv1: "inv s1" using keeps [OF Cons.prems(2) _ s1(1)] Cons.prems(3) m by simp
    have rest: "\<forall>(a, p)\<in>set ms. frame p" "distinct (map (\<lambda>(a, _). page a) ms)"
      and new: "page a1 \<notin> (\<lambda>(a, _). page a) ` set ms" and p1: "frame p1"
      using Cons.prems(3,4) m by simp_all
    have IH: "((a, p) \<in> set ms \<longrightarrow> page b = page a \<longrightarrow> trans s' b = p + offset b) \<and>
      (page b \<notin> (\<lambda>(a, _). page a) ` set ms \<longrightarrow> trans s' b = trans s1 b)"
      by (rule Cons.IH [OF s1(2) inv1 rest])
    have t1: "trans s1 b = (if page b = page a1 then p1 + offset b else trans s b)"
      by (rule maps [OF Cons.prems(2) p1 s1(1)])
    show ?case
    proof (intro conjI impI)
      assume "(a, p) \<in> set (m # ms)" and b: "page b = page a"
      then consider "a = a1" "p = p1" | "(a, p) \<in> set ms" using m by auto
      then show "trans s' b = p + offset b" using IH t1 new b by cases simp_all
    next
      assume "page b \<notin> (\<lambda>(a, _). page a) ` set (m # ms)"
      then show "trans s' b = trans s b" using IH t1 m by simp
    qed
  qed simp
  then show "(a, p) \<in> set ms \<Longrightarrow> page b = page a \<Longrightarrow> trans s' b = p + offset b"
    and "page b \<notin> (\<lambda>(a, _). page a) ` set ms \<Longrightarrow> trans s' b = trans s b" by blast+
qed

end

interpretation vspace: address_space "pt_inv r" "\<lambda>a p v. arch_vm_map r a p prot v"
  "\<lambda>v b. get_physical_address r b v" vpath GET_PAGE_OFFSET frame_bits for r prot
proof
  fix v a p assume "pt_inv r v"
  then show "\<exists>rc v'. arch_vm_map r a p prot v = Some (rc, v')"
    unfolding arch_vm_map_def by (rule map_page_mem_returns)
next
  fix v p a rc v'
  assume v: "pt_inv r v" "frame_bits p" and m: "arch_vm_map r a p prot v = Some (rc, v')"
  show "pt_inv r v'" by (rule map_page_mem_translation(1) [OF v prot_flags m [unfolded arch_vm_map_def]])
next
  fix v p a v' b
  assume v: "pt_inv r v" "frame_bits p" and m: "arch_vm_map r a p prot v = Some (0, v')"
  show "get_physical_address r b v' =
      (if vpath b = vpath a then p + GET_PAGE_OFFSET b else get_physical_address r b v)"
    by (rule map_page_mem_translation(2) [OF v prot_flags m [unfolded arch_vm_map_def] refl])
qed

subsection \<open>Unmapping and huge pages\<close>

lemma lookup_leaf:
  assumes "walk v r (drop 1 (vpath a)) = Some pt" and "vpath b = vpath a"
  defines "l \<equiv> pg v pt (GET_1_LEVEL_PAGE_INDEX a)"
  shows "lookup r b v = (if l AND PAGE_PRESENT = 0 then None else Some (False, l))"
proof -
  have i: "GET_1_LEVEL_PAGE_INDEX b = GET_1_LEVEL_PAGE_INDEX a"
      "GET_2_LEVEL_PAGE_INDEX b = GET_2_LEVEL_PAGE_INDEX a" "drop 2 (vpath b) = drop 2 (vpath a)"
    using assms(2) by (simp_all add: vpath_def)
  have q: "drop 1 (vpath a) = GET_2_LEVEL_PAGE_INDEX a # drop 2 (vpath a)" "length (drop 2 (vpath a)) = 2"
    by (simp_all add: vpath_def numeral_2_eq_2)
  obtain pd where pd: "walk v r (drop 2 (vpath a)) = Some pd"
      "pg v pd (GET_2_LEVEL_PAGE_INDEX a) AND PAGE_PRESENT \<noteq> 0"
      "pg v pd (GET_2_LEVEL_PAGE_INDEX a) AND PAGE_HUGE = 0" "pt = table_at pd (GET_2_LEVEL_PAGE_INDEX a) v"
    using assms(1) q unfolding q(1) walk.simps(2) by (auto split: option.splits if_splits)
  then show ?thesis unfolding lookup_def i l_def by (simp add: Let_def)
qed

lemma unmap_page1_leaf:
  assumes "walk v r (drop 1 (vpath a)) = Some pt"
  defines "l \<equiv> pg v pt (GET_1_LEVEL_PAGE_INDEX a)"
  shows "unmap_page1 r a v =
    (if l AND PAGE_PRESENT = 0 then Some (ERR_NO_PAGE_PRESENT, None, v)
     else Some (0, Some (GET_PAGE_FRAME l, GET_PAGE_FLAGS l), set_entry pt (GET_1_LEVEL_PAGE_INDEX a) 0 v))"
  using assms(1) unfolding l_def drop_vpath
  by (auto simp: unmap_page1_def Let_def table_at_def split: option.splits if_splits)

text \<open>An entry of a page directory is not on the path to any page directory.\<close>

lemma pd_write_walk:
  assumes inv: "pt_inv r v" and pd: "walk v r (drop 2 (vpath a)) = Some pd"
  shows "walk (set_entry pd i e v) r (drop 2 (vpath b)) = walk v r (drop 2 (vpath b))"
proof -
  have ne: "u \<noteq> pd" if "walk v r q = Some u" "tpath q" "length q < 2" for q u
  proof
    assume "u = pd"
    then have "q = drop 2 (vpath a)" using pt_inv_inj [OF inv that(2) tpath_drop(1)] that(1) pd by blast
    then show False using that(3) by (simp add: vpath_def)
  qed
  have "r \<noteq> pd" using ne [of "[]" r] by (simp add: tpath_def)
  moreover have "table_at r (GET_4_LEVEL_PAGE_INDEX b) v \<noteq> pd"
    if "pg v r (GET_4_LEVEL_PAGE_INDEX b) AND PAGE_PRESENT \<noteq> 0"
    using ne [of "[GET_4_LEVEL_PAGE_INDEX b]"] that by (simp add: tpath_def)
  ultimately show ?thesis by (auto simp: drop_vpath set_entry_def table_at_def)
qed

lemma map_page_mem_huge_ok:
  assumes inv: "pt_inv r v" and m: "map_page_mem_huge r a pa flags v = Some (0, v')"
  obtains v1 pd where "grown r v v1" "walk v1 r (drop 2 (vpath a)) = Some pd"
    "pg v1 pd (GET_2_LEVEL_PAGE_INDEX a) AND PAGE_PRESENT = 0"
    "v' = set_entry pd (GET_2_LEVEL_PAGE_INDEX a) ((pa AND NOT HUGE_MASK) OR flags OR PAGE_HUGE) v1"
proof -
  let ?i4 = "GET_4_LEVEL_PAGE_INDEX a" and ?i3 = "GET_3_LEVEL_PAGE_INDEX a" and ?i2 = "GET_2_LEVEL_PAGE_INDEX a"
  note def = map_page_mem_huge_def Let_def
  have path: "tpath [?i4]" "tpath [?i3, ?i4]" by (simp_all add: tpath_def)
  have nh0: "pg v r ?i4 AND PAGE_PRESENT = 0 \<or> length ([] :: nat list) \<noteq> 2 \<or> pg v r ?i4 AND PAGE_HUGE = 0"
    by simp
  show ?thesis
  proof (cases rule: ensure_table_cases [OF inv walk.simps(1) path(1) nh0, of flags, case_names fail ok])
    case fail
    then show ?thesis using m by (simp add: def)
  next
    case (ok v1)
    note v1 = ok
    have inv1: "pt_inv r v1" using v1(2) by (simp add: grown_def)
    have nh1: "pg v1 (table_at r ?i4 v1) ?i3 AND PAGE_PRESENT = 0 \<or> length [?i4] \<noteq> 2 \<or>
        pg v1 (table_at r ?i4 v1) ?i3 AND PAGE_HUGE = 0" by simp
    show ?thesis
    proof (cases rule: ensure_table_cases [OF inv1 v1(3) path(2) nh1, of flags, case_names fail ok])
      case fail
      then show ?thesis using m v1 by (simp add: def)
    next
      case (ok v2)
      let ?pd = "table_at (table_at r ?i4 v1) ?i3 v2"
      have "grown r v v2" using v1(2) ok(2) by (rule grown_trans)
      moreover have "walk v2 r (drop 2 (vpath a)) = Some ?pd" using ok(3) unfolding drop_vpath .
      moreover have "pg v2 ?pd ?i2 AND PAGE_PRESENT = 0"
          "v' = set_entry ?pd ?i2 ((pa AND NOT HUGE_MASK) OR flags OR PAGE_HUGE) v2"
        using m v1(1) ok(1) by (auto simp: def split: if_splits)
      ultimately show ?thesis by (rule that)
    qed
  qed
qed

lemma pt_inv_empty:
  assumes "n < npages" and "page_used (vm_pmm v) n" and "\<And>i. pg v (P2V (page_addr n)) i = 0"
  shows "pt_inv (P2V (page_addr n)) v"
proof -
  have "walk v (P2V (page_addr n)) q = (if q = [] then Some (P2V (page_addr n)) else None)" for q
    by (induction q) (auto simp: assms(3))
  then show ?thesis using assms(1,2) by (auto simp: pt_inv_def)
qed

text \<open>A sample: pages 0 to 2 are taken and page 2 is an empty root table.\<close>

definition vm_sample :: vm where
  "vm_sample = \<lparr>vm_pmm = pmm_sample 7, pg = (\<lambda>_ _. 0)\<rparr>"

lemma vm_sample_inv: "pt_inv (P2V 0x2000) vm_sample"
  using pt_inv_empty [of 2 vm_sample] sample_7 [of 2] by (simp add: vm_sample_def npages_val)

lemma sample_bits:
  "frame_bits (0x5000 :: u64)" "flag_bits (7 :: u64)" "(7 :: u64) AND PAGE_PRESENT \<noteq> 0"
proof -
  show "frame_bits (0x5000 :: u64)" using frame_bits_page [of 5] by (simp add: npages_val)
  show "flag_bits (7 :: u64)" by (rule low_flags) simp
qed simp

lemma skip_full_stop: "i < MAX_BITMASK_DATA \<Longrightarrow> bm i \<noteq> 0xFFFFFFFFFFFFFFFF \<Longrightarrow> skip_full bm i = Some i"
  by (subst skip_full.simps) simp

lemmas vm_eval = map_page_mem_def map_page_mem_huge_def ensure_table_def new_page_table_def Let_def
  pmm_alloc_page_def find_free_page_def skip_full_stop low_zero.simps set_bit_pmm_def MAX_BITMASK_DATA_def
  pmm_sample_def vm_sample_def set_entry_def table_at_def base_flags_def P2V_def V2P_def
  PHYSICAL_MEM_MAP_OFFSET_def GET_PAGE_FRAME_def PAGE_EXEC_DISABLE_def GET_1_LEVEL_PAGE_INDEX_def
  GET_2_LEVEL_PAGE_INDEX_def GET_3_LEVEL_PAGE_INDEX_def GET_4_LEVEL_PAGE_INDEX_def
  get_physical_address_def GET_PAGE_OFFSET_def vpath_def

subsection \<open>Properties\<close>

text \<open>C4. \<open>map_page_mem\<close> never faults on a well-formed table tree and keeps it well-formed. When it
  returns 0, exactly the addresses of that page translate to the new frame and every other address
  translates as before, whatever intermediate tables were created; when it returns an error, no
  translation has changed.\<close>

theorem map_page_mem_translates:
  assumes "pt_inv r v" and "frame_bits pa" and "flag_bits flags" and "flags AND PAGE_PRESENT \<noteq> 0"
  shows "\<exists>rc v'. map_page_mem r a pa flags v = Some (rc, v') \<and> pt_inv r v' \<and>
    rc \<in> {0, ERR_NO_MEM, PAGING_ERROR_ALREADY_MAPPED} \<and>
    (\<forall>b. get_physical_address r b v' =
       (if rc = 0 \<and> vpath b = vpath a then pa + GET_PAGE_OFFSET b else get_physical_address r b v))"
proof -
  obtain rc v' where m: "map_page_mem r a pa flags v = Some (rc, v')"
    using map_page_mem_returns [OF assms(1)] by blast
  note t = map_page_mem_translation [OF assms m]
  show ?thesis using m t(1,4) t(2,3) by (intro exI [of _ rc] exI [of _ v']) auto
qed

theorem map_page_mem_translates_witness:
  "\<exists>v'. map_page_mem (P2V 0x2000) 0x400000 0x5000 7 vm_sample = Some (0, v') \<and>
    get_physical_address (P2V 0x2000) 0x400123 v' = 0x5123"
proof -
  note pre = sample_bits
  have "map_option fst (map_page_mem (P2V 0x2000) 0x400000 0x5000 7 vm_sample) = Some 0" by (simp add: vm_eval)
  moreover have "vpath 0x400123 = vpath 0x400000" "0x5000 + GET_PAGE_OFFSET 0x400123 = 0x5123"
    by (simp_all add: vm_eval)
  ultimately show ?thesis
    using map_page_mem_translates [OF vm_sample_inv pre, of "0x400000"] by auto
qed

text \<open>C11. Unmapping a page that was just mapped gives back its frame and flags, and every address
  translates as it did before the mapping.\<close>

theorem unmap_after_map:
  assumes "pt_inv r v" and "frame_bits pa" and "flag_bits flags" and "flags AND PAGE_PRESENT \<noteq> 0"
    and "map_page_mem r a pa flags v = Some (0, v')"
  shows "\<exists>v''. unmap_page1 r a v' = Some (0, Some (pa, flags), v'') \<and> pt_inv r v'' \<and>
    (\<forall>b. get_physical_address r b v'' = get_physical_address r b v)"
proof (cases rule: map_page_mem_cases [OF assms(1), of a pa flags, case_names nomem mapped ok])
  case (ok v1 pt)
  let ?i = "GET_1_LEVEL_PAGE_INDEX a"
  have v': "v' = set_entry pt ?i (pa OR flags) v1" using ok(1) assms(5) by simp
  note inv1 = grown_lookup(1) [OF ok(2)] and same = grown_lookup(2) [OF ok(2)]
  note lw = leaf_write [OF inv1 ok(3), where e = "pa OR flags", folded v']
  have w: "walk v' r (drop 1 (vpath a)) = Some pt" using lw(1) [OF tpath_drop(2)] ok(3) by simp
  have e: "pg v' pt ?i = pa OR flags" by (simp add: v' set_entry_def)
  have p: "(pa OR flags) AND PAGE_PRESENT \<noteq> 0" using assms(4) by (simp add: present_bit bit_or_iff)
  have "unmap_page1 r a v' = Some (0, Some (pa, flags), set_entry pt ?i 0 v')"
    using unmap_page1_leaf [OF w] e p frame_of_entry [OF assms(2,3)] flags_of_entry [OF assms(2,3)] by simp
  moreover note lw2 = leaf_write [OF lw(2) w, where e = 0]
  moreover have "lookup r b v = None" if "vpath b = vpath a" for b
    using lookup_leaf [OF ok(3) that] ok(4) same by simp
  then have "get_physical_address r b (set_entry pt ?i 0 v') = get_physical_address r b v" for b
    using lw2(3) [of b] lw(3) [of b] same by (auto simp: get_physical_address_lookup)
  ultimately show ?thesis by blast
qed (use assms(5) in auto)

theorem unmap_after_map_witness:
  "\<exists>v' v''. map_page_mem (P2V 0x2000) 0x400000 0x5000 7 vm_sample = Some (0, v') \<and>
     unmap_page1 (P2V 0x2000) 0x400000 v' = Some (0, Some (0x5000, 7), v'') \<and>
     get_physical_address (P2V 0x2000) 0x400000 v'' = NULL"
proof -
  note pre = sample_bits
  have "map_option fst (map_page_mem (P2V 0x2000) 0x400000 0x5000 7 vm_sample) = Some 0" by (simp add: vm_eval)
  then obtain v' where v': "map_page_mem (P2V 0x2000) 0x400000 0x5000 7 vm_sample = Some (0, v')" by auto
  moreover have "get_physical_address (P2V 0x2000) 0x400000 vm_sample = NULL" by (simp add: vm_eval)
  ultimately show ?thesis using unmap_after_map [OF vm_sample_inv pre v'] by fastforce
qed

text \<open>C31. After \<open>map_page_mem_huge\<close> the translation of the mapped address is odd, whatever the frame: the
  mask of the 2 MiB offset leaves out bit 0, so the present bit of the entry stays in the result.\<close>

theorem huge_translation_odd:
  assumes "pt_inv r v" and "flags AND PAGE_PRESENT \<noteq> 0"
    and "map_page_mem_huge r a pa flags v = Some (0, v')"
  shows "get_physical_address r a v' AND 1 = 1"
proof -
  obtain v1 pd where v1: "grown r v v1" "walk v1 r (drop 2 (vpath a)) = Some pd"
    and v': "v' = set_entry pd (GET_2_LEVEL_PAGE_INDEX a) ((pa AND NOT HUGE_MASK) OR flags OR PAGE_HUGE) v1"
    using map_page_mem_huge_ok [OF assms(1,3)] by blast
  let ?e = "(pa AND NOT HUGE_MASK) OR flags OR PAGE_HUGE"
  have w: "walk v' r (drop 2 (vpath a)) = Some pd" and e: "pg v' pd (GET_2_LEVEL_PAGE_INDEX a) = ?e"
    using pd_write_walk [OF _ v1(2)] v1 by (auto simp: v' grown_def set_entry_def)
  have b0: "bit ?e 0" using assms(2) unfolding present_bit bit_or_iff by blast
  have b7: "bit ?e 7" unfolding bit_or_iff by (simp add: bit_numeral_rec)
  have "get_physical_address r a v' = (?e AND NOT (PAGE_EXEC_DISABLE OR HUGE_MASK)) OR (a AND HUGE_MASK)"
    using b0 b7 unfolding get_physical_address_lookup lookup_def w Let_def e option.case present_bit huge_bit
    by simp
  moreover have "\<not> bit (PAGE_EXEC_DISABLE OR HUGE_MASK) 0"
    unfolding bit_or_iff PAGE_EXEC_DISABLE_def by (simp add: bit_numeral_rec)
  ultimately have "bit (get_physical_address r a v') 0"
    using b0 by (simp only: bit_or_iff bit_and_iff bit_not_iff) simp
  then show ?thesis using bit_0 [of "get_physical_address r a v'"] by (simp add: and_one_eq odd_iff_mod_2_eq_one)
qed

theorem huge_translation_odd_witness:
  "\<exists>v'. map_page_mem_huge (P2V 0x2000) 0x200000 0x200000 3 vm_sample = Some (0, v') \<and>
     get_physical_address (P2V 0x2000) 0x200000 v' AND 1 = 1"
proof -
  have "map_option fst (map_page_mem_huge (P2V 0x2000) 0x200000 0x200000 3 vm_sample) = Some 0" by (simp add: vm_eval)
  then obtain v' where "map_page_mem_huge (P2V 0x2000) 0x200000 0x200000 3 vm_sample = Some (0, v')" by auto
  moreover have "(3 :: u64) AND PAGE_PRESENT \<noteq> 0" by simp
  ultimately show ?thesis using huge_translation_odd [OF vm_sample_inv] by blast
qed

text \<open>The state after a split that found memory.\<close>

lemma split_hugepage_ok:
  assumes "new_page_table v = Some (F, v1)" and "F \<noteq> NULL" and "F \<noteq> pd"
    and "pg v1 = (pg v)(F := (\<lambda>_. 0))" and "pg v pd i2 AND PAGE_HUGE \<noteq> 0"
  defines "e \<equiv> pg v pd i2" and "fl \<equiv> GET_PAGE_FLAGS (pg v pd i2) AND NOT PAGE_HUGE"
  obtains w where "split_hugepage pd i2 v = Some (0, w)" "pg w pd i2 = V2P F OR fl"
    "\<And>i. i < 512 \<Longrightarrow> pg w F i = (GET_PAGE_FRAME e + PAGE_SIZE * of_nat i) OR fl"
    "\<And>u j. u \<noteq> F \<Longrightarrow> u \<noteq> pd \<Longrightarrow> pg w u j = pg v u j"
proof -
  have "bit (PAGE_EXEC_DISABLE OR 0xFFF) 7" unfolding bit_frame_mask by simp
  then have huge: "GET_PAGE_FLAGS (pg v pd i2) AND PAGE_HUGE \<noteq> 0"
    using assms(5) unfolding huge_bit GET_PAGE_FLAGS_def bit_and_iff by blast
  let ?v2 = "set_entry pd i2 (V2P F OR fl) v1"
  let ?w = "?v2\<lparr>pg := (pg ?v2)(F := (\<lambda>i. if i < 512 then (GET_PAGE_FRAME e + PAGE_SIZE * of_nat i) OR fl
    else pg ?v2 F i))\<rparr>"
  have "split_hugepage pd i2 v = Some (0, ?w)"
    using assms(1,2) huge unfolding e_def fl_def split_hugepage_def Let_def by simp
  then show ?thesis by (rule that) (use assms(3,4) in \<open>simp_all add: set_entry_def\<close>)
qed

lemma huge_entry_flags:
  assumes "bit e 0"
  defines "fl \<equiv> GET_PAGE_FLAGS e AND NOT PAGE_HUGE"
  shows "flag_bits fl" and "bit fl 0" and "\<not> bit fl 7"
proof -
  show "flag_bits fl" unfolding fl_def GET_PAGE_FLAGS_def
    by (rule bit_word_eqI) (simp only: bit_and_iff bit_not_iff bit_or_iff bit_0_eq, auto)
  have "bit (PAGE_EXEC_DISABLE OR 0xFFF) 0" unfolding bit_frame_mask by simp
  then show "bit fl 0" using assms(1) unfolding fl_def GET_PAGE_FLAGS_def bit_and_iff bit_not_iff
    by (simp add: bit_numeral_rec)
  show "\<not> bit fl 7" unfolding fl_def bit_and_iff bit_not_iff by (simp add: bit_numeral_rec)
qed

text \<open>A page directory is reached through words that a write elsewhere leaves alone.\<close>

lemma walk_pd_cong:
  assumes "walk v r (drop 2 (vpath a)) = Some pd"
    and "\<And>u j q. walk v r q = Some u \<Longrightarrow> tpath q \<Longrightarrow> length q < 2 \<Longrightarrow> pg w u j = pg v u j"
  shows "walk w r (drop 2 (vpath a)) = Some pd"
proof -
  have "pg w r j = pg v r j" for j using assms(2) [of "[]" r] by (simp add: tpath_def)
  moreover have "pg w (table_at r (GET_4_LEVEL_PAGE_INDEX a) v) j = pg v (table_at r (GET_4_LEVEL_PAGE_INDEX a) v) j"
    if "pg v r (GET_4_LEVEL_PAGE_INDEX a) AND PAGE_PRESENT \<noteq> 0" for j
    using assms(2) [of "[GET_4_LEVEL_PAGE_INDEX a]"] that by (simp add: tpath_def)
  ultimately show ?thesis using assms(1) by (auto simp: drop_vpath table_at_def split: if_splits)
qed


text \<open>A sample with one huge page: the tables are pages 2 to 4, the data starts at page 512.\<close>

definition huge_sample :: vm where
  "huge_sample = \<lparr>vm_pmm = (pmm_sample 31)\<lparr>bitmap := (\<lambda>_. 0)(0 := 31, 8 := 1)\<rparr>,
     pg = (\<lambda>_ _. 0)(P2V 0x2000 := (\<lambda>_. 0)(0 := 0x3003), P2V 0x3000 := (\<lambda>_. 0)(0 := 0x4003),
       P2V 0x4000 := (\<lambda>_. 0)(0 := 0x200083), P2V 0x200000 := (\<lambda>_. 5))\<rparr>"

lemma huge_sample_walk:
  "walk huge_sample (P2V 0x2000) q =
     (if q = [] then Some (P2V 0x2000) else if q = [0] then Some (P2V 0x3000)
      else if q = [0, 0] then Some (P2V 0x4000) else None)"
proof (induction q)
  case (Cons j q)
  then show ?case
    by (auto simp: huge_sample_def table_at_def GET_PAGE_FRAME_def P2V_def PHYSICAL_MEM_MAP_OFFSET_def
        PAGE_EXEC_DISABLE_def)
qed simp

lemma huge_sample_used: "page_used (vm_pmm huge_sample) n" if "n \<in> {2, 3, 4, 512}"
  using that by (auto simp: page_used_def huge_sample_def bit_numeral_rec)

lemma huge_sample_inv: "pt_inv (P2V 0x2000) huge_sample"
proof -
  have own: "\<exists>n<npages. t = P2V (page_addr n) \<and> page_used (vm_pmm huge_sample) n"
    if "t \<in> {P2V 0x2000, P2V 0x3000, P2V 0x4000}" for t
  proof -
    have "\<exists>n\<in>{2, 3, 4}. t = P2V (page_addr n)" using that by auto
    then obtain n where "n \<in> {2, 3, 4}" "t = P2V (page_addr n)" by blast
    moreover from this have "page_used (vm_pmm huge_sample) n" "n < npages"
      using huge_sample_used [of n] by (auto simp: npages_val)
    ultimately show ?thesis by blast
  qed
  have "P2V 0x2000 \<noteq> P2V 0x3000" "P2V 0x2000 \<noteq> P2V 0x4000" "P2V 0x3000 \<noteq> P2V 0x4000"
    by (simp_all add: P2V_def PHYSICAL_MEM_MAP_OFFSET_def)
  then show ?thesis unfolding pt_inv_def huge_sample_walk
    using own by (auto split: if_splits)
qed


end
