(* ===== verification/Kheap.thy ===== *)
theory Kheap
  imports Paging
begin

text \<open>
  The kernel heap, \<^verbatim>\<open>kernel/mem/kheap.c\<close>: block headers in a doubly linked list that tiles the heap
  area, first fit with splitting, coalescing on release, and growth by pages from the physical
  allocator mapped behind the end. Headers are a partial map from addresses; reading an address
  that holds no header is a fault. The semaphore makes each call one step; the bytes of the blocks
  (and the \<open>memset\<close> of fresh pages) are not part of the state.
\<close>

definition KHEAP_INIT_SIZE :: u64 where "KHEAP_INIT_SIZE = 8192000"
definition KHEAP_MAP_OFFSET :: u64 where "KHEAP_MAP_OFFSET = 0xffffc90000000000"

record kheap_item =
  it_next :: ptr
  it_prev :: ptr
  it_size :: u64
  it_free :: bool

text \<open>\<^verbatim>\<open>sizeof(kheap_item_t)\<close>\<close>

abbreviation HDR :: u64 where "HDR \<equiv> 32"

record kheap_t =
  start_vaddr :: u64
  end_vaddr :: u64
  kh_head :: ptr
  kh_tail :: ptr
  items :: "ptr \<rightharpoonup> kheap_item"
  kvm :: vm

definition put_item :: "ptr \<Rightarrow> kheap_item \<Rightarrow> kheap_t \<Rightarrow> kheap_t" where
  "put_item p it h = h\<lparr>items := (items h)(p \<mapsto> it)\<rparr>"

subsection \<open>Growth\<close>

text \<open>\<open>root\<close> is \<open>get_kernel_pml4()\<close>. \<open>False\<close> is the early \<open>return 0\<close>.\<close>

fun kheap_expand_loop :: "ptr \<Rightarrow> nat \<Rightarrow> kheap_t \<Rightarrow> (bool \<times> kheap_t) option" where
  "kheap_expand_loop root 0 h = Some (True, h)"
| "kheap_expand_loop root (Suc n) h = do {
     (page_physical, p) \<leftarrow> pmm_alloc_page (vm_pmm (kvm h));
     let h = h\<lparr>kvm := (kvm h)\<lparr>vm_pmm := p\<rparr>\<rparr>;
     if page_physical = NULL then Some (False, h)
     else do {
       (rc, v) \<leftarrow> map_page_mem root (end_vaddr h) page_physical
                    (PAGE_PRESENT OR PAGE_WRITABLE OR PAGE_GLOBAL) (kvm h);
       let h = h\<lparr>kvm := v\<rparr>;
       if rc = ERR_NO_MEM then Some (False, h)
       else kheap_expand_loop root n (h\<lparr>end_vaddr := end_vaddr h + PAGE_SIZE\<rparr>)
     }
   }"

text \<open>\<open>pages_count\<close> is an \<open>int\<close>, and the product is an \<open>int\<close> before it becomes the 64-bit result.\<close>

definition kheap_expand :: "ptr \<Rightarrow> u64 \<Rightarrow> kheap_t \<Rightarrow> (u64 \<times> kheap_t) option" where
  "kheap_expand root sz h =
     (let sz = align sz PAGE_SIZE;
          pages_count = (ucast (sz div PAGE_SIZE) :: u32)
      in do {
        (ok, h) \<leftarrow> kheap_expand_loop root (nat (sint pages_count)) h;
        Some (if ok then scast (pages_count * 0x1000) else 0, h)
      })"

definition kheap_init :: "ptr \<Rightarrow> u64 \<Rightarrow> kheap_t \<Rightarrow> (int \<times> kheap_t) option" where
  "kheap_init root start h =
     (let h = h\<lparr>start_vaddr := start, end_vaddr := start\<rparr>
      in do {
        (rc, h) \<leftarrow> kheap_expand root KHEAP_INIT_SIZE h;
        if (ucast rc :: u32) = 0 then Some (0, h)
        else Some (1, (put_item start \<lparr>it_next = NULL, it_prev = NULL,
                 it_size = KHEAP_INIT_SIZE - HDR, it_free = True\<rparr> h)\<lparr>kh_head := start, kh_tail := start\<rparr>)
      })"

subsection \<open>Allocation\<close>

text \<open>The search loop of \<open>get_suitable_item\<close>.\<close>

partial_function (option) find_item :: "(ptr \<rightharpoonup> kheap_item) \<Rightarrow> ptr \<Rightarrow> u64 \<Rightarrow> ptr option" where
  "find_item its cur sz =
     (if cur = NULL then Some NULL
      else do {
        it \<leftarrow> its cur;
        if it_free it \<and> it_size it \<ge> sz then Some cur else find_item its (it_next it) sz
      })"

definition get_suitable_item :: "ptr \<Rightarrow> u64 \<Rightarrow> kheap_t \<Rightarrow> (ptr \<times> kheap_t) option" where
  "get_suitable_item root sz h = do {
     cur \<leftarrow> find_item (items h) (kh_head h) sz;
     if cur \<noteq> NULL then Some (cur, h)
     else do {
       (allocated, h) \<leftarrow> kheap_expand root sz h;
       if allocated = 0 then Some (NULL, h)
       else do {
         t \<leftarrow> items h (kh_tail h);
         Some (kh_tail h, put_item (kh_tail h) (t\<lparr>it_size := it_size t + allocated\<rparr>) h)
       }
     }
   }"

text \<open>The statements of \<open>kmalloc\<close> that cut a block in two.\<close>

definition split_item :: "ptr \<Rightarrow> u64 \<Rightarrow> kheap_t \<Rightarrow> kheap_t option" where
  "split_item cur sz h = do {
     c \<leftarrow> items h cur;
     let total_size = sz + HDR;
     let new_item = cur + HDR + sz;
     let new = \<lparr>it_next = it_next c, it_prev = cur, it_size = it_size c - total_size, it_free = True\<rparr>;
     let h = put_item new_item new h;
     h \<leftarrow> (if it_next new \<noteq> NULL
           then do { x \<leftarrow> items h (it_next new); Some (put_item (it_next new) (x\<lparr>it_prev := new_item\<rparr>) h) }
           else Some h);
     let h = (if cur = kh_tail h then h\<lparr>kh_tail := new_item\<rparr> else h);
     c \<leftarrow> items h cur;
     Some (put_item cur (c\<lparr>it_next := new_item, it_size := sz\<rparr>) h)
   }"

definition kmalloc :: "ptr \<Rightarrow> u64 \<Rightarrow> kheap_t \<Rightarrow> (ptr \<times> kheap_t) option" where
  "kmalloc root sz h =
     (let sz = align sz 8;
          total_size = sz + HDR
      in do {
        (cur, h) \<leftarrow> get_suitable_item root total_size h;
        if cur \<noteq> NULL
        then do {
          c \<leftarrow> items h cur;
          h \<leftarrow> (if it_size c > total_size + 8 then split_item cur sz h else Some h);
          c \<leftarrow> items h cur;
          Some (cur + HDR, put_item cur (c\<lparr>it_free := False\<rparr>) h)
        }
        else Some (NULL, h)
      })"

subsection \<open>Release\<close>

definition combine_forward :: "ptr \<Rightarrow> kheap_t \<Rightarrow> kheap_t option" where
  "combine_forward item h =
     (if item = NULL then Some h
      else do {
        it \<leftarrow> items h item;
        if \<not> it_free it then Some h
        else if it_next it = NULL then Some h
        else do {
          let next_item = it_next it;
          nx \<leftarrow> items h next_item;
          if \<not> it_free nx then Some h
          else do {
            let next_next = it_next nx;
            h \<leftarrow> (if next_next \<noteq> NULL
                  then do { nn \<leftarrow> items h next_next; Some (put_item next_next (nn\<lparr>it_prev := item\<rparr>) h) }
                  else Some h);
            let h = (if next_item = kh_tail h then h\<lparr>kh_tail := item\<rparr> else h);
            it \<leftarrow> items h item;
            Some (put_item item (it\<lparr>it_next := next_next, it_size := it_size it + (it_size nx + HDR)\<rparr>) h)
          }
        }
      })"

definition kfree :: "ptr \<Rightarrow> kheap_t \<Rightarrow> kheap_t option" where
  "kfree mem h =
     (if mem < KHEAP_MAP_OFFSET then Some h
      else do {
        let item = mem - HDR;
        it \<leftarrow> items h item;
        if \<not> it_free it
        then do {
          let h = put_item item (it\<lparr>it_free := True\<rparr>) h;
          h \<leftarrow> combine_forward item h;
          it \<leftarrow> items h item;
          combine_forward (it_prev it) h
        }
        else Some h
      })"

definition kheap_get_size :: "ptr \<Rightarrow> kheap_t \<Rightarrow> u64 option" where
  "kheap_get_size mem h = map_option it_size (items h (mem - HDR))"

definition kheap_get_head_item :: "kheap_t \<Rightarrow> ptr" where
  "kheap_get_head_item h = kh_head h"

subsection \<open>The block list\<close>

text \<open>A block is its address, the size behind the header, and whether it is free.\<close>

type_synonym blk = "ptr \<times> u64 \<times> bool"

abbreviation addrs :: "blk list \<Rightarrow> ptr list" where "addrs bs \<equiv> map fst bs"

fun hseg :: "(ptr \<rightharpoonup> kheap_item) \<Rightarrow> ptr \<Rightarrow> blk list \<Rightarrow> ptr \<Rightarrow> bool" where
  "hseg its p [] n = True"
| "hseg its p ((a, s, f) # bs) n =
     (its a = Some \<lparr>it_next = first_or n (addrs bs), it_prev = p, it_size = s, it_free = f\<rparr> \<and>
      hseg its a bs n)"

lemma hseg_append [simp]:
  "hseg its p (xs @ ys) n =
     (hseg its p xs (first_or n (addrs ys)) \<and> hseg its (last_or p (addrs xs)) ys n)"
proof (induction xs arbitrary: p)
  case (Cons b xs)
  then show ?case by (cases b) simp
qed simp

lemma hseg_upd [simp]: "a \<notin> fst ` set bs \<Longrightarrow> hseg (its(a \<mapsto> x)) p bs n = hseg its p bs n"
proof (induction bs arbitrary: p)
  case (Cons b bs)
  then show ?case by (cases b) auto
qed simp

text \<open>\<open>tiled p bs q\<close>: the blocks lie one behind the other from \<open>p\<close> to \<open>q\<close>, headers included.\<close>

fun tiled :: "ptr \<Rightarrow> blk list \<Rightarrow> ptr \<Rightarrow> bool" where
  "tiled p [] q = (p = q)"
| "tiled p ((a, s, f) # bs) q = (a = p \<and> unat a + 32 + unat s < 2 ^ 64 \<and> tiled (a + HDR + s) bs q)"

lemma tiled_append: "tiled p (xs @ ys) q \<longleftrightarrow> (\<exists>m. tiled p xs m \<and> tiled m ys q)"
  by (induction p xs q rule: tiled.induct) auto

lemma unat_block_end: "unat a + 32 + unat s < 2 ^ 64 \<Longrightarrow> unat (a + HDR + s) = unat a + 32 + unat s"
  by (subst unat_add_no_wrap; simp)+

lemma tiled_bounds:
  "tiled p bs q \<Longrightarrow> unat p \<le> unat q \<and>
   (\<forall>(a, s, f)\<in>set bs. unat p \<le> unat a \<and> unat a + 32 + unat s \<le> unat q)"
proof (induction p bs q rule: tiled.induct)
  case (2 p a s f bs q)
  then show ?case using unat_block_end [of a s] by fastforce
qed simp

lemma tiled_split:
  assumes "tiled p (ls @ (a, s, f) # rs) q"
  shows "unat p \<le> unat a" and "unat a + 32 + unat s < 2 ^ 64" and "unat a + 32 + unat s \<le> unat q"
    and "x \<in> fst ` set ls \<Longrightarrow> unat x + 32 \<le> unat a"
    and "x \<in> fst ` set rs \<Longrightarrow> unat a + 32 + unat s \<le> unat x"
proof -
  obtain m where m: "tiled p ls m" "a = m" "unat a + 32 + unat s < 2 ^ 64" "tiled (a + HDR + s) rs q"
    using assms by (auto simp: tiled_append)
  note b = tiled_bounds [OF m(1)] tiled_bounds [OF m(4)] unat_block_end [OF m(3)]
  show "unat p \<le> unat a" "unat a + 32 + unat s < 2 ^ 64" "unat a + 32 + unat s \<le> unat q"
    using b m by auto
  show "x \<in> fst ` set ls \<Longrightarrow> unat x + 32 \<le> unat a" using b(1) m(2) by fastforce
  show "x \<in> fst ` set rs \<Longrightarrow> unat a + 32 + unat s \<le> unat x" using b(2,3) by fastforce
qed

lemma tiled_distinct: "tiled p bs q \<Longrightarrow> distinct (addrs bs)"
proof (induction p bs q rule: tiled.induct)
  case (2 p a s f bs q)
  then have "a \<notin> fst ` set bs" using tiled_split(5) [of p "[]" a s f bs q a] by auto
  then show ?case using 2 by auto
qed simp

definition heap_rep :: "kheap_t \<Rightarrow> blk list \<Rightarrow> bool" where
  "heap_rep h bs \<longleftrightarrow> hseg (items h) NULL bs NULL \<and> kh_head h = first_or NULL (addrs bs) \<and>
     kh_tail h = last_or NULL (addrs bs) \<and> 0 < unat (start_vaddr h) \<and>
     (\<exists>q. tiled (start_vaddr h) bs q \<and> q \<le> end_vaddr h)"

lemma heap_rep_block:
  assumes "heap_rep h (ls @ (a, s, f) # rs)"
  shows "items h a = Some \<lparr>it_next = first_or NULL (addrs rs), it_prev = last_or NULL (addrs ls),
           it_size = s, it_free = f\<rparr>"
    and "a \<noteq> NULL" and "a \<notin> fst ` set ls" and "a \<notin> fst ` set rs" and "unat a + 32 + unat s < 2 ^ 64"
    and "unat a + 32 + unat s \<le> unat (end_vaddr h)"
proof -
  obtain q where q: "tiled (start_vaddr h) (ls @ (a, s, f) # rs) q" "q \<le> end_vaddr h"
    and pos: "0 < unat (start_vaddr h)" using assms by (auto simp: heap_rep_def)
  note t = tiled_split [OF q(1)]
  show "items h a = Some \<lparr>it_next = first_or NULL (addrs rs), it_prev = last_or NULL (addrs ls),
           it_size = s, it_free = f\<rparr>" using assms by (simp add: heap_rep_def)
  have "0 < unat a" using t(1) pos by linarith
  then show "a \<noteq> NULL" by auto
  show "a \<notin> fst ` set ls" "a \<notin> fst ` set rs" using t(4) [of a] t(5) [of a] by auto
  show "unat a + 32 + unat s < 2 ^ 64" by (rule t(2))
  show "unat a + 32 + unat s \<le> unat (end_vaddr h)" using t(3) q(2) by (simp add: word_le_nat_alt)
qed

lemma heap_rep_block_ex:
  assumes "heap_rep h bs" and "(a, s, f) \<in> set bs"
  shows "\<exists>it. items h a = Some it \<and> it_size it = s \<and> it_free it = f" and "a \<noteq> NULL"
proof -
  obtain ls rs where "bs = ls @ (a, s, f) # rs" using assms(2) by (meson split_list)
  then show "\<exists>it. items h a = Some it \<and> it_size it = s \<and> it_free it = f" "a \<noteq> NULL"
    using heap_rep_block [of h ls a s f rs] assms(1) by auto
qed

subsection \<open>The steps on the block list\<close>

lemma find_item_first:
  assumes "hseg its p bs NULL" and "NULL \<notin> fst ` set bs"
  shows "find_item its (first_or NULL (addrs bs)) sz =
    Some (case find (\<lambda>(a, s, f). f \<and> s \<ge> sz) bs of None \<Rightarrow> NULL | Some (a, _, _) \<Rightarrow> a)"
  using assms
proof (induction bs arbitrary: p)
  case Nil
  then show ?case by (subst find_item.simps) simp
next
  case (Cons b bs)
  obtain a s f where b: "b = (a, s, f)" by (cases b)
  have "hseg its a bs NULL" "NULL \<notin> fst ` set bs" using Cons.prems b by auto
  note IH = Cons.IH [OF this]
  show ?case using Cons.prems b by (subst find_item.simps) (auto simp: IH)
qed

lemma heap_rep_replace:
  assumes "heap_rep h (ls @ (a, s, f) # rs)"
  shows "heap_rep (put_item a \<lparr>it_next = first_or NULL (addrs rs), it_prev = last_or NULL (addrs ls),
      it_size = s, it_free = g\<rparr> h) (ls @ (a, s, g) # rs)"
  using assms heap_rep_block(3,4) [OF assms] by (auto simp: heap_rep_def put_item_def tiled_append)

lemma split_item_rep:
  assumes rep: "heap_rep h (ls @ (a, s, f) # rs)" and fit: "unat sz + 32 \<le> unat s"
  shows "\<exists>h'. split_item a sz h = Some h' \<and>
    heap_rep h' (ls @ (a, sz, f) # (a + HDR + sz, s - (sz + HDR), True) # rs) \<and>
    kvm h' = kvm h \<and> start_vaddr h' = start_vaddr h \<and> end_vaddr h' = end_vaddr h"
proof -
  let ?n = "a + HDR + sz"
  note b = heap_rep_block [OF rep]
  obtain q where q: "tiled (start_vaddr h) (ls @ (a, s, f) # rs) q" "q \<le> end_vaddr h"
    and start: "0 < unat (start_vaddr h)" using rep by (auto simp: heap_rep_def)
  note t = tiled_split [OF q(1)]
  have n: "unat ?n = unat a + 32 + unat sz" using b(5) fit by (intro unat_block_end) simp
  have tot: "unat (sz + HDR) = unat sz + 32" using b(5) fit by (subst unat_add_no_wrap) simp_all
  have rest: "unat (s - (sz + HDR)) = unat s - (unat sz + 32)"
    using tot fit by (subst unat_sub) (simp_all add: word_le_nat_alt)
  have "unat ?n \<noteq> unat a" "unat ?n \<noteq> 0" using n by simp_all
  then have "?n \<noteq> a" "?n \<noteq> NULL" by (metis, metis unat_0)
  moreover have "?n \<notin> fst ` set ls" "?n \<notin> fst ` set rs"
    using n t(4) [of ?n] t(5) [of ?n] fit by auto
  ultimately have new: "?n \<noteq> a" "?n \<noteq> NULL" "?n \<notin> fst ` set ls" "?n \<notin> fst ` set rs" by blast+
  have endn: "?n + HDR + (s - (sz + HDR)) = a + HDR + s" by simp
  have tile: "tiled (start_vaddr h) (ls @ (a, sz, f) # (?n, s - (sz + HDR), True) # rs) q"
  proof -
    obtain m where "tiled (start_vaddr h) ls m" "a = m" "tiled (a + HDR + s) rs q"
      using q(1) by (auto simp: tiled_append)
    moreover have "tiled (?n + HDR + (s - (sz + HDR))) rs q" using calculation(3) by (simp only: endn)
    moreover have "unat a + 32 + unat sz < 2 ^ 64" "unat ?n + 32 + unat (s - (sz + HDR)) < 2 ^ 64"
      using b(5) n rest fit by linarith+
    ultimately show ?thesis unfolding tiled_append tiled.simps by blast
  qed
  show ?thesis
  proof (cases rs)
    case Nil
    have tl: "kh_tail h = a" using rep Nil by (simp add: heap_rep_def)
    show ?thesis
      using rep b new tile q(2) start Nil tl
      by (auto simp: split_item_def put_item_def heap_rep_def Let_def)
  next
    case (Cons c rs')
    obtain c1 c2 c3 where c: "c = (c1, c2, c3)" by (cases c)
    have rep': "heap_rep h ((ls @ [(a, s, f)]) @ (c1, c2, c3) # rs')" using rep Cons c by simp
    note cb = heap_rep_block [OF rep']
    have "kh_tail h \<in> fst ` set rs" using rep Cons c by (cases rs' rule: rev_cases) (auto simp: heap_rep_def)
    then have tl: "kh_tail h \<noteq> a" using b(4) by auto
    show ?thesis
      using rep b new tile q(2) start Cons c cb tl
      by (auto simp: split_item_def put_item_def heap_rep_def Let_def)
  qed
qed

text \<open>A block and its successor become one when both are free.\<close>

fun merge_fwd :: "blk \<Rightarrow> blk list \<Rightarrow> blk list" where
  "merge_fwd (a, s, f) ((b, t, g) # rs) =
     (if f \<and> g then (a, s + (t + HDR), True) # rs else (a, s, f) # (b, t, g) # rs)"
| "merge_fwd (a, s, f) [] = [(a, s, f)]"

lemma combine_forward_null [simp]: "combine_forward NULL h = Some h"
  by (simp add: combine_forward_def)

lemma combine_forward_rep:
  assumes rep: "heap_rep h (ls @ (a, s, f) # rs)"
  shows "\<exists>h'. combine_forward a h = Some h' \<and> heap_rep h' (ls @ merge_fwd (a, s, f) rs) \<and>
    kvm h' = kvm h \<and> start_vaddr h' = start_vaddr h \<and> end_vaddr h' = end_vaddr h"
proof (cases "\<exists>b t rs'. f \<and> rs = (b, t, True) # rs'")
  case False
  note bl = heap_rep_block [OF rep]
  have merge: "merge_fwd (a, s, f) rs = (a, s, f) # rs"
  proof (cases rs)
    case (Cons c rs')
    then show ?thesis using False by (cases c) auto
  qed simp
  have "combine_forward a h = Some h"
  proof (cases rs)
    case Nil
    then show ?thesis using bl by (simp add: combine_forward_def)
  next
    case (Cons c rs')
    obtain b t g where c: "c = (b, t, g)" by (cases c)
    have "heap_rep h ((ls @ [(a, s, f)]) @ (b, t, g) # rs')" using rep Cons c by simp
    note bb = heap_rep_block [OF this]
    have "\<not> f \<or> \<not> g" using False Cons c by auto
    then show ?thesis using bl bb Cons c by (auto simp: combine_forward_def)
  qed
  then show ?thesis using rep merge by simp
next
  case True
  then obtain b t rs' where f: f and rs: "rs = (b, t, True) # rs'" by blast
  note bl = heap_rep_block [OF rep]
  have "heap_rep h ((ls @ [(a, s, f)]) @ (b, t, True) # rs')" using rep rs by simp
  note bb = heap_rep_block [OF this]
  obtain q where q: "tiled (start_vaddr h) (ls @ (a, s, f) # (b, t, True) # rs') q" "q \<le> end_vaddr h"
    and start: "0 < unat (start_vaddr h)" using rep rs by (auto simp: heap_rep_def)
  obtain m where m: "tiled (start_vaddr h) ls m" "a = m" "b = a + HDR + s" "tiled (b + HDR + t) rs' q"
    using q(1) by (auto simp: tiled_append)
  have ub: "unat b = unat a + 32 + unat s" using unat_block_end [OF bl(5)] m(3) by simp
  have t32: "unat (t + HDR) = unat t + 32" using bb(5) by (subst unat_add_no_wrap) simp_all
  have sum: "unat (s + (t + HDR)) = unat s + unat t + 32"
    using bb(5) ub t32 by (subst unat_add_no_wrap) simp_all
  have endp: "a + HDR + (s + (t + HDR)) = b + HDR + t" by (simp add: m(3))
  have "tiled (a + HDR + (s + (t + HDR))) rs' q" using m(4) by (simp only: endp)
  moreover have "unat a + 32 + unat (s + (t + HDR)) < 2 ^ 64" using bb(5) ub sum by linarith
  ultimately have tile: "tiled (start_vaddr h) (ls @ (a, s + (t + HDR), True) # rs') q"
    unfolding tiled_append tiled.simps using m(1,2) by blast
  have ab: "a \<noteq> b" "b \<noteq> a" using bb(3) by auto
  show ?thesis
  proof (cases rs')
    case Nil
    have tl: "kh_tail h = b" using rep Nil rs by (simp add: heap_rep_def)
    show ?thesis using rep bl bb tile q(2) start Nil tl rs f ab
      by (auto simp: combine_forward_def put_item_def heap_rep_def Let_def)
  next
    case (Cons c rs2)
    obtain c1 c2 c3 where c: "c = (c1, c2, c3)" by (cases c)
    have "heap_rep h ((ls @ [(a, s, f), (b, t, True)]) @ (c1, c2, c3) # rs2)" using rep rs Cons c by simp
    note cb = heap_rep_block [OF this]
    have "kh_tail h \<in> fst ` set rs'" using rep rs Cons c by (cases rs2 rule: rev_cases) (auto simp: heap_rep_def)
    then have tl: "kh_tail h \<noteq> b" using bb(4) by auto
    show ?thesis using rep bl bb tile q(2) start Cons c cb tl rs f ab
      by (auto simp: combine_forward_def put_item_def heap_rep_def Let_def)
  qed
qed

subsection \<open>Growth keeps the heap mapped\<close>

lemma table_at_pmm [simp]: "table_at t i (v\<lparr>vm_pmm := P\<rparr>) = table_at t i v"
  by (simp add: table_at_def)

lemma walk_pmm [simp]: "walk (v\<lparr>vm_pmm := P\<rparr>) r q = walk v r q"
  by (induction q) (simp_all split: option.split)

lemma lookup_pmm [simp]: "lookup r a (v\<lparr>vm_pmm := P\<rparr>) = lookup r a v"
  by (simp add: lookup_def Let_def split: option.split)

lemma pt_inv_pmm:
  assumes "pt_inv r v" and "\<And>n. page_used (vm_pmm v) n \<Longrightarrow> page_used P n"
  shows "pt_inv r (v\<lparr>vm_pmm := P\<rparr>)"
proof -
  have new: "vm_pmm (v\<lparr>vm_pmm := P\<rparr>) = P" by simp
  note inv = assms(1) [unfolded pt_inv_def]
  show ?thesis unfolding pt_inv_def walk_pmm new
  proof (intro conjI allI impI)
    fix p t
    assume "tpath p" "walk v r p = Some t"
    then obtain n where "n < npages" "t = P2V (page_addr n)" "page_used (vm_pmm v) n" using inv by blast
    then show "\<exists>n<npages. t = P2V (page_addr n) \<and> page_used P n" using assms(2) by blast
  qed (use inv in blast)
qed

lemma same_vpath:
  assumes "a div PAGE_SIZE = b div PAGE_SIZE"
  shows "vpath a = vpath b"
proof -
  have d: "drop_bit 12 w = w div PAGE_SIZE" for w :: u64 by (simp add: drop_bit_eq_div)
  have "drop_bit (9 + 12) w = drop_bit 9 (drop_bit 12 w)" "drop_bit (18 + 12) w = drop_bit 18 (drop_bit 12 w)"
    "drop_bit (27 + 12) w = drop_bit 27 (drop_bit 12 w)" for w :: u64
    by (simp_all only: drop_bit_drop_bit)
  then have s: "drop_bit 21 w = drop_bit 9 (drop_bit 12 w)" "drop_bit 30 w = drop_bit 18 (drop_bit 12 w)"
    "drop_bit 39 w = drop_bit 27 (drop_bit 12 w)" for w :: u64 by simp_all
  show ?thesis
    unfolding vpath_def GET_1_LEVEL_PAGE_INDEX_def GET_2_LEVEL_PAGE_INDEX_def GET_3_LEVEL_PAGE_INDEX_def
      GET_4_LEVEL_PAGE_INDEX_def s d assms ..
qed

lemma lookup_same_vpath:
  assumes "vpath a = vpath b"
  shows "lookup r a v = lookup r b v"
proof -
  have "GET_1_LEVEL_PAGE_INDEX a = GET_1_LEVEL_PAGE_INDEX b" "GET_2_LEVEL_PAGE_INDEX a = GET_2_LEVEL_PAGE_INDEX b"
    using assms by (simp_all add: vpath_def)
  then show ?thesis by (simp only: lookup_def assms)
qed

text \<open>Pages already mapped stay mapped.\<close>

lemma map_page_mem_keeps:
  assumes "pt_inv r v" and "flags AND PAGE_PRESENT \<noteq> 0" and "map_page_mem r a pa flags v = Some (rc, v')"
    and "arch_vm_is_mapped r b v"
  shows "arch_vm_is_mapped r b v'"
proof -
  note lk = map_page_mem_lookup [OF assms(1-3), of b]
  have old: "lookup r b v \<noteq> None" using assms(4) arch_vm_is_mapped_lookup by blast
  have "lookup r b v' \<noteq> None"
  proof (cases "rc = 0 \<and> vpath b = vpath a")
    case True
    then have "lookup r b v' = Some (False, pa OR flags)" using lk by (simp only: if_True simp_thms)
    then show ?thesis by simp
  next
    case False
    then have "lookup r b v' = lookup r b v" using lk by (cases "rc = 0") (simp_all only: if_False simp_thms)
    then show ?thesis using old by simp
  qed
  then show ?thesis using arch_vm_is_mapped_lookup by blast
qed

definition area_mapped :: "ptr \<Rightarrow> kheap_t \<Rightarrow> bool" where
  "area_mapped root h \<longleftrightarrow> pt_inv root (kvm h) \<and> 4096 dvd unat (end_vaddr h) \<and>
     (\<forall>a. start_vaddr h \<le> a \<and> a < end_vaddr h \<longrightarrow> arch_vm_is_mapped root a (kvm h))"

lemma kheap_expand_loop_mapped:
  assumes "area_mapped root h" and "unat (end_vaddr h) + 4096 * n < 2 ^ 64"
  shows "\<exists>ok h' k. kheap_expand_loop root n h = Some (ok, h') \<and> k \<le> n \<and> (ok \<longrightarrow> k = n) \<and>
    area_mapped root h' \<and> unat (end_vaddr h') = unat (end_vaddr h) + 4096 * k \<and>
    start_vaddr h' = start_vaddr h \<and> kh_head h' = kh_head h \<and> kh_tail h' = kh_tail h \<and> items h' = items h"
  using assms
proof (induction n arbitrary: h)
  case 0
  then show ?case by auto
next
  case (Suc n)
  let ?fl = "PAGE_PRESENT OR PAGE_WRITABLE OR PAGE_GLOBAL"
  have inv: "pt_inv root (kvm h)" using Suc.prems(1) by (simp add: area_mapped_def)
  show ?case
  proof (cases rule: pmm_alloc_page_cases [of "vm_pmm (kvm h)"])
    case fail
    then show ?thesis using Suc.prems by (intro exI [of _ False] exI [of _ h] exI [of _ 0]) simp
  next
    case (found m P)
    let ?v = "(kvm h)\<lparr>vm_pmm := P\<rparr>"
    have inv1: "pt_inv root ?v" using inv found(7) by (intro pt_inv_pmm) auto
    obtain rc v where m: "map_page_mem root (end_vaddr h) (page_addr m) ?fl ?v = Some (rc, v)"
      using map_page_mem_returns [OF inv1] by blast
    have "?fl AND PAGE_PRESENT \<noteq> 0" by simp
    note lk = map_page_mem_lookup [OF inv1 this m]
    have keep: "arch_vm_is_mapped root a v" if "arch_vm_is_mapped root a (kvm h)" for a
      using that by (intro map_page_mem_keeps [OF inv1 _ m]) (simp_all add: arch_vm_is_mapped_lookup)
    show ?thesis
    proof (cases "rc = ERR_NO_MEM")
      case True
      then have "area_mapped root (h\<lparr>kvm := v\<rparr>)" using Suc.prems(1) lk keep by (simp add: area_mapped_def)
      then show ?thesis using found(1,2) m True
        by (intro exI [of _ False] exI [of _ "h\<lparr>kvm := v\<rparr>"] exI [of _ 0]) simp
    next
      case False
      let ?h = "h\<lparr>kvm := v, end_vaddr := end_vaddr h + PAGE_SIZE\<rparr>"
      have e: "unat (end_vaddr h + PAGE_SIZE) = unat (end_vaddr h) + 4096"
        using Suc.prems(2) by (subst unat_add_no_wrap) simp_all
      have here: "arch_vm_is_mapped root (end_vaddr h) v"
        using lk [of "end_vaddr h"] False by (auto simp: arch_vm_is_mapped_lookup)
      have al: "4096 dvd unat (end_vaddr h)" using Suc.prems(1) by (simp add: area_mapped_def)
      have "arch_vm_is_mapped root a v" if a: "start_vaddr h \<le> a" "a < end_vaddr h + PAGE_SIZE" for a
      proof (cases "a < end_vaddr h")
        case True
        then show ?thesis using Suc.prems(1) a(1) keep by (simp add: area_mapped_def)
      next
        case above: False
        then have "unat a div 4096 = unat (end_vaddr h) div 4096"
          using a(2) e al by (auto simp: word_less_nat_alt)
        then have "a div PAGE_SIZE = end_vaddr h div PAGE_SIZE" by (simp add: word_unat_eq_iff unat_div)
        then have "vpath a = vpath (end_vaddr h)" by (rule same_vpath)
        then have "lookup root a v = lookup root (end_vaddr h) v"
          by (rule lookup_same_vpath)
        then show ?thesis using here by (simp add: arch_vm_is_mapped_lookup)
      qed
      then have area: "area_mapped root ?h" using al e lk by (simp add: area_mapped_def)
      obtain ok h' k where r: "kheap_expand_loop root n ?h = Some (ok, h')" "k \<le> n" "ok \<longrightarrow> k = n"
          "area_mapped root h'" "unat (end_vaddr h') = unat (end_vaddr ?h) + 4096 * k"
          "start_vaddr h' = start_vaddr h" "kh_head h' = kh_head h" "kh_tail h' = kh_tail h" "items h' = items h"
        using Suc.IH [OF area] Suc.prems(2) e by auto
      then show ?thesis using found(1,2) m False e
        by (intro exI [of _ ok] exI [of _ h'] exI [of _ "Suc k"]) simp
    qed
  qed
qed

subsection \<open>The invariant of the heap\<close>

fun no_adj :: "blk list \<Rightarrow> bool" where
  "no_adj ((a, s, f) # (b, t, g) # bs) = (\<not> (f \<and> g) \<and> no_adj ((b, t, g) # bs))"
| "no_adj _ = True"

lemma no_adj_append:
  "no_adj (xs @ ys) \<longleftrightarrow> no_adj xs \<and> no_adj ys \<and>
     (xs \<noteq> [] \<longrightarrow> ys \<noteq> [] \<longrightarrow> \<not> (snd (snd (last xs)) \<and> snd (snd (hd ys))))"
proof (induction xs)
  case (Cons b xs)
  then show ?case by (cases b; cases xs; cases ys) auto
qed simp

lemma no_adj_Cons: "no_adj (b # bs) \<longleftrightarrow> no_adj bs \<and> (bs \<noteq> [] \<longrightarrow> \<not> (snd (snd b) \<and> snd (snd (hd bs))))"
  using no_adj_append [of "[b]" bs] by auto

definition heap_inv :: "ptr \<Rightarrow> kheap_t \<Rightarrow> blk list \<Rightarrow> bool" where
  "heap_inv root h bs \<longleftrightarrow> heap_rep h bs \<and> bs \<noteq> [] \<and> no_adj bs \<and> area_mapped root h \<and>
     KHEAP_MAP_OFFSET \<le> start_vaddr h \<and> 8 dvd unat (start_vaddr h) \<and> (\<forall>(a, s, f)\<in>set bs. 8 dvd unat s)"

text \<open>The blocks in use.\<close>

abbreviation live_of :: "blk list \<Rightarrow> (ptr \<times> u64) set" where
  "live_of bs \<equiv> {(a, s). (a, s, False) \<in> set bs}"

definition live :: "ptr \<Rightarrow> kheap_t \<Rightarrow> (ptr \<times> u64) set" where
  "live root h = {(a, s). \<exists>bs. heap_inv root h bs \<and> (a, s, False) \<in> set bs}"

lemma hseg_unique:
  assumes "hseg its p xs NULL" "hseg its p ys NULL" "first_or NULL (addrs xs) = first_or NULL (addrs ys)"
    and "NULL \<notin> fst ` set xs" "NULL \<notin> fst ` set ys"
  shows "xs = ys"
  using assms
proof (induction xs arbitrary: p ys)
  case Nil
  then show ?case by (cases ys) auto
next
  case (Cons x xs)
  obtain y ys' where y: "ys = y # ys'" using Cons.prems by (cases ys) auto
  obtain a s f b t g where xy: "x = (a, s, f)" "y = (b, t, g)" by (metis prod_cases3)
  have "xs = ys'" using Cons.prems xy y by (intro Cons.IH [of a]) auto
  then show ?case using Cons.prems xy y by auto
qed

lemma heap_rep_unique: "heap_rep h xs \<Longrightarrow> heap_rep h ys \<Longrightarrow> xs = ys"
  using heap_rep_block_ex(2) [of h xs NULL] heap_rep_block_ex(2) [of h ys NULL]
  by (intro hseg_unique [of "items h" NULL]) (auto simp: heap_rep_def)

lemma live_eq: "heap_inv root h bs \<Longrightarrow> live root h = live_of bs"
  unfolding live_def using heap_rep_unique by (auto simp: heap_inv_def)

text \<open>Addresses follow the sizes.\<close>

lemma tiled_align:
  "tiled p bs q \<Longrightarrow> 8 dvd unat p \<Longrightarrow> \<forall>(a, s, f)\<in>set bs. 8 dvd unat s \<Longrightarrow> (a, s, f) \<in> set bs \<Longrightarrow> 8 dvd unat a"
proof (induction p bs q rule: tiled.induct)
  case (2 p b t g bs q)
  have "unat (b + HDR + t) = unat b + 32 + unat t" using 2(2) by (intro unat_block_end) auto
  moreover have "(8::nat) dvd 32" by simp
  ultimately have "8 dvd unat (b + HDR + t)" using 2(2-4) by (auto intro!: dvd_add)
  then show ?case using 2 by auto
qed simp

lemma tiled_disjoint:
  assumes "tiled p bs q" and "(a, s, f) \<in> set bs" and "(b, t, g) \<in> set bs" and "a \<noteq> b"
  shows "unat a + 32 + unat s \<le> unat b \<or> unat b + 32 + unat t \<le> unat a"
proof -
  obtain ls rs where bs: "bs = ls @ (a, s, f) # rs" using assms(2) by (meson split_list)
  consider "(b, t, g) \<in> set ls" | "(b, t, g) \<in> set rs" using assms(3,4) bs by auto
  then show ?thesis
  proof cases
    case 1
    then obtain l1 l2 where "ls = l1 @ (b, t, g) # l2" by (meson split_list)
    then show ?thesis using tiled_split(5) [of p l1 b t g "l2 @ (a, s, f) # rs" q a] assms(1) bs by force
  next
    case 2
    then show ?thesis using tiled_split(5) [of p ls a s f rs q b] assms(1) bs by force
  qed
qed

lemma heap_inv_block:
  assumes "heap_inv root h bs" and "(a, s, f) \<in> set bs"
  shows "8 dvd unat a" and "start_vaddr h \<le> a" and "unat a + 32 + unat s \<le> unat (end_vaddr h)"
    and "x \<in> {unat a + 32..<unat a + 32 + unat s} \<Longrightarrow> arch_vm_is_mapped root (of_nat x) (kvm h)"
proof -
  obtain q where q: "tiled (start_vaddr h) bs q" "q \<le> end_vaddr h"
    using assms(1) by (auto simp: heap_inv_def heap_rep_def)
  show "8 dvd unat a" using tiled_align [OF q(1) _ _ assms(2)] assms(1) by (auto simp: heap_inv_def)
  obtain ls rs where bs: "bs = ls @ (a, s, f) # rs" using assms(2) by (meson split_list)
  note t = tiled_split [OF q(1) [unfolded bs]]
  show st: "start_vaddr h \<le> a" using t(1) by (simp add: word_le_nat_alt)
  show en: "unat a + 32 + unat s \<le> unat (end_vaddr h)" using t(3) q(2) by (simp add: word_le_nat_alt)
  show "arch_vm_is_mapped root (of_nat x) (kvm h)" if x: "x \<in> {unat a + 32..<unat a + 32 + unat s}"
  proof -
    have "unat (of_nat x :: u64) = x" using x t(2) by (simp add: unat_of_nat)
    then have "start_vaddr h \<le> of_nat x" "of_nat x < end_vaddr h"
      using x en st by (auto simp: word_le_nat_alt word_less_nat_alt)
    then show ?thesis using assms(1) by (simp add: heap_inv_def area_mapped_def)
  qed
qed

text \<open>What a block of a free list entry becomes when \<open>sz\<close> bytes are taken from it.\<close>

definition placed :: "u64 \<Rightarrow> ptr \<Rightarrow> u64 \<Rightarrow> blk list" where
  "placed sz a s = (if s > sz + HDR + 8 then [(a, sz, False), (a + HDR + sz, s - (sz + HDR), True)]
                    else [(a, s, False)])"

definition take_item :: "u64 \<Rightarrow> ptr \<Rightarrow> kheap_t \<Rightarrow> (ptr \<times> kheap_t) option" where
  "take_item sz cur h = do {
     c \<leftarrow> items h cur;
     h \<leftarrow> (if it_size c > sz + HDR + 8 then split_item cur sz h else Some h);
     c \<leftarrow> items h cur;
     Some (cur + HDR, put_item cur (c\<lparr>it_free := False\<rparr>) h)
   }"

lemma kmalloc_take:
  "kmalloc root sz h = do {
     (cur, h) \<leftarrow> get_suitable_item root (align sz 8 + HDR) h;
     if cur \<noteq> NULL then take_item (align sz 8) cur h else Some (NULL, h)
   }"
  by (simp add: kmalloc_def take_item_def Let_def cong: if_cong)

lemma take_item_rep:
  assumes rep: "heap_rep h (ls @ (a, s, f) # rs)" and fit: "unat sz + 32 \<le> unat s" "unat sz + 40 < 2 ^ 64"
  shows "\<exists>h'. take_item sz a h = Some (a + HDR, h') \<and> heap_rep h' (ls @ placed sz a s @ rs) \<and>
    kvm h' = kvm h \<and> start_vaddr h' = start_vaddr h \<and> end_vaddr h' = end_vaddr h"
proof (cases "s > sz + HDR + 8")
  case True
  obtain h1 where h1: "split_item a sz h = Some h1"
    "heap_rep h1 (ls @ (a, sz, f) # (a + HDR + sz, s - (sz + HDR), True) # rs)"
    "kvm h1 = kvm h" "start_vaddr h1 = start_vaddr h" "end_vaddr h1 = end_vaddr h"
    using split_item_rep [OF rep fit(1)] by blast
  then show ?thesis
    using heap_rep_block(1) [OF rep] heap_rep_block(1) [OF h1(2)] heap_rep_replace [OF h1(2), of False] True
    by (simp add: take_item_def placed_def put_item_def)
next
  case False
  then show ?thesis
    using heap_rep_block(1) [OF rep] heap_rep_replace [OF rep, of False]
    by (simp add: take_item_def placed_def put_item_def)
qed

lemma take_item_inv:
  assumes inv: "heap_inv root h (ls @ (a, s, True) # rs)" and fit: "unat sz + 32 \<le> unat s"
    and al: "8 dvd unat sz"
  shows "\<exists>h' s'. take_item sz a h = Some (a + HDR, h') \<and> heap_inv root h' (ls @ placed sz a s @ rs) \<and>
    (a, s', False) \<in> set (placed sz a s) \<and> sz \<le> s' \<and>
    live_of (ls @ placed sz a s @ rs) = insert (a, s') (live_of (ls @ (a, s, True) # rs))"
proof -
  have rep: "heap_rep h (ls @ (a, s, True) # rs)" using inv by (simp add: heap_inv_def)
  have lim: "unat s < 2 ^ 64 - 32" using heap_rep_block(5) [OF rep] by simp
  have "unat sz + 40 < 2 ^ 64 \<or> unat s < unat sz + 32"
    using lim fit al by auto
  then have lim2: "unat sz + 40 < 2 ^ 64" using fit by simp
  obtain h' where h': "take_item sz a h = Some (a + HDR, h')" "heap_rep h' (ls @ placed sz a s @ rs)"
    "kvm h' = kvm h" "start_vaddr h' = start_vaddr h" "end_vaddr h' = end_vaddr h"
    using take_item_rep [OF rep fit lim2] by blast
  have tot: "unat (sz + HDR) = unat sz + 32" using lim2 by (subst unat_add_no_wrap) simp_all
  have sub: "unat (s - (sz + HDR)) = unat s - (unat sz + 32)"
    using tot fit by (subst unat_sub) (simp_all add: word_le_nat_alt)
  have s8: "8 dvd unat s" using inv by (simp add: heap_inv_def)
  have "8 dvd unat (s - (sz + HDR))" using sub s8 al fit by (metis dvd_add_right_iff dvd_diff_nat dvd_triv_left
      mult.commute numeral_Bit0_eq_double numeral_code(2))
  then have al': "\<forall>(a, s, f)\<in>set (placed sz a s). 8 dvd unat s" using al s8 by (simp add: placed_def)
  have adj: "no_adj (ls @ placed sz a s @ rs)"
    using inv by (auto simp: heap_inv_def no_adj_append no_adj_Cons placed_def)
  have "heap_inv root h' (ls @ placed sz a s @ rs)"
    using inv h' al' adj by (auto simp: heap_inv_def area_mapped_def placed_def)
  moreover have "sz \<le> s" using fit by (simp add: word_le_nat_alt)
  ultimately show ?thesis using h'(1) by (auto simp: placed_def)
qed

subsection \<open>Allocation on the invariant\<close>

text \<open>\<open>kheap_expand\<close> adds whole pages for at least the requested bytes, or reports 0.\<close>

lemma kheap_expand_mapped:
  assumes area: "area_mapped root h" and sz: "0 < unat sz" "unat sz < 2 ^ 30"
    and room: "unat (end_vaddr h) + 2 ^ 31 < 2 ^ 64"
  shows "\<exists>n h'. kheap_expand root sz h = Some (n, h') \<and> area_mapped root h' \<and>
    start_vaddr h' = start_vaddr h \<and> kh_head h' = kh_head h \<and> kh_tail h' = kh_tail h \<and> items h' = items h \<and>
    end_vaddr h \<le> end_vaddr h' \<and>
    (n \<noteq> 0 \<longrightarrow> unat sz \<le> unat n \<and> 8 dvd unat n \<and> unat (end_vaddr h') = unat (end_vaddr h) + unat n)"
proof -
  let ?al = "align sz PAGE_SIZE"
  have al: "unat PAGE_SIZE dvd unat ?al" "sz \<le> ?al" "unat ?al < unat sz + unat PAGE_SIZE \<or> sz = 0"
    using align_least [of PAGE_SIZE sz] sz by auto
  obtain k where k: "unat ?al = 4096 * k" using al(1) by auto
  have klt: "4096 * k < 2 ^ 30 + 4096" using al(3) sz k by auto
  have kge: "unat sz \<le> 4096 * k" using al(2) k by (simp add: word_le_nat_alt)
  define pc where "pc = (ucast (?al div PAGE_SIZE) :: u32)"
  have "unat (?al div PAGE_SIZE) = k" using k by (simp add: unat_div)
  then have upc: "unat pc = k" using klt by (simp add: pc_def unsigned_ucast_eq take_bit_nat_eq_self)
  have "sint pc = int k" using upc klt by (subst sint_small) simp_all
  then have cnt: "nat (sint pc) = k" by simp
  have "unat (pc * 0x1000) = k * 4096" using upc klt by (subst unat_mult_no_wrap) simp_all
  then have "unat (scast (pc * 0x1000) :: u64) = 4096 * k"
    using klt by (simp add: scast_small)
  moreover obtain ok h' j where r: "kheap_expand_loop root k h = Some (ok, h')" "j \<le> k" "ok \<longrightarrow> j = k"
      "area_mapped root h'" "unat (end_vaddr h') = unat (end_vaddr h) + 4096 * j"
      "start_vaddr h' = start_vaddr h" "kh_head h' = kh_head h" "kh_tail h' = kh_tail h" "items h' = items h"
    using kheap_expand_loop_mapped [OF area, of k] klt room by auto
  moreover have "(8::nat) dvd 4096 * k" by simp
  moreover have "end_vaddr h \<le> end_vaddr h'" using r(5) by (simp add: word_le_nat_alt)
  ultimately show ?thesis using kge
    by (intro exI [of _ "if ok then scast (pc * 0x1000) else 0"] exI [of _ h'])
       (simp add: kheap_expand_def Let_def pc_def [symmetric] cnt)
qed

abbreviation fits :: "u64 \<Rightarrow> blk \<Rightarrow> bool" where
  "fits tot \<equiv> (\<lambda>(a, s, f). f \<and> s \<ge> tot)"

lemma find_item_heap:
  assumes "heap_rep h bs"
  shows "find_item (items h) (kh_head h) sz =
    Some (case find (fits sz) bs of None \<Rightarrow> NULL | Some (a, _, _) \<Rightarrow> a)"
  using assms heap_rep_block_ex(2) [OF assms, of NULL]
  by (auto simp: heap_rep_def intro!: find_item_first [of _ NULL bs sz, simplified])

text \<open>The tail block grows by what was added behind the end.\<close>

lemma grow_tail_inv:
  assumes inv: "heap_inv root h (ls @ [(a, s, f)])" and area: "area_mapped root h1"
    and same: "start_vaddr h1 = start_vaddr h" "kh_head h1 = kh_head h" "kh_tail h1 = kh_tail h"
      "items h1 = items h"
    and grow: "unat (end_vaddr h1) = unat (end_vaddr h) + unat n" "8 dvd unat n"
  shows "\<exists>h2. do { t \<leftarrow> items h1 (kh_tail h1);
      Some (kh_tail h1, put_item (kh_tail h1) (t\<lparr>it_size := it_size t + n\<rparr>) h1) } = Some (a, h2) \<and>
    heap_inv root h2 (ls @ [(a, s + n, f)]) \<and> unat (s + n) = unat s + unat n"
proof -
  have rep: "heap_rep h (ls @ [(a, s, f)])" using inv by (simp add: heap_inv_def)
  note b = heap_rep_block [OF rep]
  have "unat (end_vaddr h1) < 2 ^ 64" by (rule unat_u64_lt)
  then have no: "unat a + 32 + unat s + unat n < 2 ^ 64" using b(6) grow(1) by linarith
  then have sn: "unat (s + n) = unat s + unat n" by (subst unat_add_no_wrap) simp_all
  have "unat (a + HDR + (s + n)) = unat a + 32 + unat (s + n)"
    using no sn by (intro unat_block_end) simp
  then have "a + HDR + (s + n) \<le> end_vaddr h1" using sn b(6) grow(1) by (simp add: word_le_nat_alt)
  moreover obtain m where "tiled (start_vaddr h) ls m" "a = m"
    using rep by (auto simp: heap_rep_def tiled_append)
  ultimately have "\<exists>q. tiled (start_vaddr h) (ls @ [(a, s + n, f)]) q \<and> q \<le> end_vaddr h1"
    unfolding tiled_append tiled.simps using no sn by (metis add.assoc)
  moreover have "kh_tail h1 = a" using rep same by (simp add: heap_rep_def)
  moreover have "no_adj (ls @ [(a, s + n, f)])" using inv by (auto simp: heap_inv_def no_adj_append)
  moreover have "8 dvd unat (s + n)" using inv sn grow(2) by (auto simp: heap_inv_def)
  ultimately show ?thesis
    using rep b same inv area sn
    by (auto simp: heap_inv_def heap_rep_def put_item_def area_mapped_def)
qed

definition alloc_ok :: "ptr \<Rightarrow> u64 \<Rightarrow> kheap_t \<Rightarrow> bool" where
  "alloc_ok root sz h \<longleftrightarrow> unat sz < 2 ^ 29 \<and> unat (end_vaddr h) + 2 ^ 31 < 2 ^ 64 \<and>
     (\<exists>bs. heap_inv root h bs \<and> ((\<exists>b\<in>set bs. fits (align sz 8 + HDR) b) \<or> snd (snd (last bs))))"

lemma kmalloc_total:
  assumes "unat sz < 2 ^ 29"
  shows "8 dvd unat (align sz 8)" and "sz \<le> align sz 8" and "unat (align sz 8 + HDR) = unat (align sz 8) + 32"
    and "0 < unat (align sz 8 + HDR)" and "unat (align sz 8 + HDR) < 2 ^ 30"
proof -
  have al: "unat (8::u64) dvd unat (align sz 8)" "sz \<le> align sz 8"
      "unat (align sz 8) < unat sz + unat (8::u64) \<or> sz = 0" "unat (align sz 8) \<le> unat sz + 8"
    using align_least [of 8 sz] align_unat [of 8 sz] assms by auto
  show "8 dvd unat (align sz 8)" "sz \<le> align sz 8" using al by simp_all
  show u: "unat (align sz 8 + HDR) = unat (align sz 8) + 32" using al(4) assms by (subst unat_add_no_wrap) simp_all
  show "0 < unat (align sz 8 + HDR)" "unat (align sz 8 + HDR) < 2 ^ 30" using u al(4) assms by simp_all
qed

lemma kmalloc_inv:
  assumes inv: "heap_inv root h bs" and ok: "alloc_ok root sz h"
  shows "\<exists>p h' bs'. kmalloc root sz h = Some (p, h') \<and> heap_inv root h' bs' \<and>
    (p = NULL \<and> live_of bs' = live_of bs \<or>
     (\<exists>a s. p = a + HDR \<and> p \<noteq> NULL \<and> sz \<le> s \<and> (a, s, False) \<in> set bs' \<and> a \<notin> fst ` live_of bs \<and>
        live_of bs' = insert (a, s) (live_of bs)))"
proof -
  let ?sz = "align sz 8"
  have lt: "unat sz < 2 ^ 29" and room: "unat (end_vaddr h) + 2 ^ 31 < 2 ^ 64"
    and guard: "(\<exists>b\<in>set bs. fits (?sz + HDR) b) \<or> snd (snd (last bs))"
    using ok inv heap_rep_unique [of h] by (auto simp: alloc_ok_def heap_inv_def)
  note tot = kmalloc_total [OF lt]
  have rep: "heap_rep h bs" using inv by (simp add: heap_inv_def)
  have fin: "\<exists>p h' bs'. take_item ?sz a h1 = Some (p, h') \<and> heap_inv root h' bs' \<and>
     (\<exists>a s. p = a + HDR \<and> p \<noteq> NULL \<and> sz \<le> s \<and> (a, s, False) \<in> set bs' \<and> a \<notin> fst ` live_of bs \<and>
        live_of bs' = insert (a, s) (live_of bs))"
    if inv1: "heap_inv root h1 (ls @ (a, s, True) # rs)" and fit: "unat ?sz + 32 \<le> unat s"
      and bs: "live_of bs = live_of (ls @ (a, s, True) # rs)" for h1 ls a s rs
  proof -
    from take_item_inv [OF inv1 fit tot(1)]
    obtain h' s' where r: "take_item ?sz a h1 = Some (a + HDR, h')" "heap_inv root h' (ls @ placed ?sz a s @ rs)"
        "(a, s', False) \<in> set (placed ?sz a s)" "?sz \<le> s'"
        "live_of (ls @ placed ?sz a s @ rs) = insert (a, s') (live_of (ls @ (a, s, True) # rs))"
      by (elim exE conjE) (rule that)
    have "heap_rep h1 (ls @ (a, s, True) # rs)" using inv1 by (simp add: heap_inv_def)
    note b = heap_rep_block [OF this]
    have "a \<notin> fst ` live_of bs" using b(3,4) unfolding bs by force
    moreover have "unat (a + HDR) = unat a + 32" using b(5) by (subst unat_add_no_wrap) simp_all
    then have "a + HDR \<noteq> NULL" using unat_0_iff by fastforce
    moreover have "sz \<le> s'" using r(4) tot(2) by (rule order.trans [rotated])
    ultimately show ?thesis using r bs by (intro exI [of _ "a + HDR"] exI [of _ h'] exI [of _ "ls @ placed ?sz a s @ rs"]) auto
  qed
  show ?thesis
  proof (cases "find (fits (?sz + HDR)) bs")
    case (Some b)
    obtain a s f where b: "b = (a, s, f)" by (cases b)
    obtain ls rs where ls: "bs = ls @ (a, s, f) # rs" and "f" and "?sz + HDR \<le> s"
      using find_split [OF Some] b by (metis (no_types, lifting) case_prod_conv)
    then have "\<exists>p h' bs'. take_item ?sz a h = Some (p, h') \<and> heap_inv root h' bs' \<and>
      (\<exists>a s. p = a + HDR \<and> p \<noteq> NULL \<and> sz \<le> s \<and> (a, s, False) \<in> set bs' \<and> a \<notin> fst ` live_of bs \<and>
        live_of bs' = insert (a, s) (live_of bs))"
      using inv tot(3) by (intro fin [of h ls a s rs]) (auto simp: word_le_nat_alt)
    moreover have "a \<noteq> NULL" using heap_rep_block(2) rep ls by blast
    then have "kmalloc root sz h = take_item ?sz a h"
      using find_item_heap [OF rep, of "?sz + HDR"] Some b by (simp add: kmalloc_take get_suitable_item_def)
    ultimately show ?thesis by (simp only:) blast
  next
    case None
    have "area_mapped root h" using inv by (simp add: heap_inv_def)
    from kheap_expand_mapped [OF this tot(4,5) room]
    obtain n h1 where e: "kheap_expand root (?sz + HDR) h = Some (n, h1)" "area_mapped root h1"
        "start_vaddr h1 = start_vaddr h" "kh_head h1 = kh_head h" "kh_tail h1 = kh_tail h" "items h1 = items h"
        "end_vaddr h \<le> end_vaddr h1"
        "n \<noteq> 0 \<Longrightarrow> unat (?sz + HDR) \<le> unat n \<and> 8 dvd unat n \<and> unat (end_vaddr h1) = unat (end_vaddr h) + unat n"
      by blast
    have "find_item (items h) (kh_head h) (?sz + HDR) = Some NULL" using find_item_heap [OF rep, of "?sz + HDR"] None by simp
    note gs = get_suitable_item_def [of root "?sz + HDR" h, unfolded this]
    show ?thesis
    proof (cases "n = 0")
      case True
      have "heap_inv root h1 bs" using inv e(2-7) by (auto simp: heap_inv_def heap_rep_def intro: order.trans)
      then show ?thesis using gs e(1) True by (intro exI [of _ NULL] exI [of _ h1]) (auto simp: kmalloc_take)
    next
      case False
      have "bs \<noteq> []" using inv by (simp add: heap_inv_def)
      then obtain ls a s f where bs: "bs = ls @ [(a, s, f)]" by (metis append_butlast_last_id prod_cases3)
      have "\<not> (\<exists>b\<in>set bs. fits (?sz + HDR) b)" using None unfolding find_None_iff by blast
      then have f: f using guard bs by auto
      obtain h2 where h2: "do { t \<leftarrow> items h1 (kh_tail h1);
          Some (kh_tail h1, put_item (kh_tail h1) (t\<lparr>it_size := it_size t + n\<rparr>) h1) } = Some (a, h2)"
          "heap_inv root h2 (ls @ [(a, s + n, f)])" "unat (s + n) = unat s + unat n"
        using grow_tail_inv [OF inv [unfolded bs] e(2-6)] e(8) [OF False] by blast
      have "\<exists>p h' bs'. take_item ?sz a h2 = Some (p, h') \<and> heap_inv root h' bs' \<and>
        (\<exists>a s. p = a + HDR \<and> p \<noteq> NULL \<and> sz \<le> s \<and> (a, s, False) \<in> set bs' \<and> a \<notin> fst ` live_of bs \<and>
          live_of bs' = insert (a, s) (live_of bs))"
        using h2 f e(8) [OF False] bs tot(3) by (intro fin [of h2 ls a "s + n" "[]"]) auto
      moreover have "a \<noteq> NULL" using heap_rep_block(2) rep bs by blast
      then have "kmalloc root sz h = take_item ?sz a h2"
        using gs e(1) False h2(1) by (simp add: kmalloc_take)
      ultimately show ?thesis by (simp only:) blast
    qed
  qed
qed

subsection \<open>Release on the invariant\<close>

lemma merge_fwd_live: "live_of (merge_fwd b rs) = live_of (b # rs)"
proof (cases rs)
  case (Cons c rs')
  then show ?thesis by (cases b; cases c) auto
qed (cases b, simp)

lemma dvd8_add: "8 dvd unat (a :: u64) \<Longrightarrow> 8 dvd unat b \<Longrightarrow> 8 dvd unat (a + b)"
  by (simp add: unat_word_ariths(1) dvd_mod)

lemma merge_fwd_align:
  "\<forall>(a, s, f)\<in>set (b # rs). 8 dvd unat s \<Longrightarrow> \<forall>(a, s, f)\<in>set (merge_fwd b rs). 8 dvd unat s"
proof (cases rs)
  case (Cons c rs')
  assume "\<forall>(a, s, f)\<in>set (b # rs). 8 dvd unat s"
  moreover have "8 dvd unat (32 :: u64)" by simp
  ultimately show ?thesis using Cons by (cases b; cases c) (auto intro!: dvd8_add)
qed (cases b, simp)

definition join_last :: "blk list \<Rightarrow> blk list \<Rightarrow> blk list" where
  "join_last ls bs = (if ls = [] then bs else butlast ls @ merge_fwd (last ls) bs)"

lemma kfree_inv:
  assumes inv: "heap_inv root h (ls @ (a, s, False) # rs)"
  shows "\<exists>h'. kfree (a + HDR) h = Some h' \<and> heap_inv root h' (join_last ls (merge_fwd (a, s, True) rs)) \<and>
    live_of (join_last ls (merge_fwd (a, s, True) rs)) = live_of ls \<union> live_of rs"
proof -
  have rep: "heap_rep h (ls @ (a, s, False) # rs)" using inv by (simp add: heap_inv_def)
  note b = heap_rep_block [OF rep]
  have "unat (a + HDR) = unat a + 32" using b(5) by (subst unat_add_no_wrap) simp_all
  moreover have "KHEAP_MAP_OFFSET \<le> a"
    using heap_inv_block(2) [OF inv, of a s False] inv by (auto simp: heap_inv_def intro: order.trans)
  ultimately have guard: "\<not> a + HDR < KHEAP_MAP_OFFSET" by (simp add: word_le_nat_alt word_less_nat_alt)
  let ?h = "put_item a \<lparr>it_next = first_or NULL (addrs rs), it_prev = last_or NULL (addrs ls),
      it_size = s, it_free = True\<rparr> h"
  note h0 = heap_rep_replace [OF rep, of True]
  obtain h1 where h1: "combine_forward a ?h = Some h1" "heap_rep h1 (ls @ merge_fwd (a, s, True) rs)"
      "kvm h1 = kvm ?h" "start_vaddr h1 = start_vaddr ?h" "end_vaddr h1 = end_vaddr ?h"
    using combine_forward_rep [OF h0] by blast
  obtain s1 rs1 where m: "merge_fwd (a, s, True) rs = (a, s1, True) # rs1"
    by (cases rs) (simp, metis merge_fwd.simps(1) prod_cases3)
  note b1 = heap_rep_block(1) [OF h1(2) [unfolded m]]
  have live1: "live_of rs1 = live_of rs" using merge_fwd_live [of "(a, s, True)" rs] m by auto
  have adj: "no_adj ls" "no_adj rs" using inv by (auto simp: heap_inv_def no_adj_append no_adj_Cons)
  then have adj1: "no_adj ((a, s1, True) # rs1)"
    using m by (cases rs) (auto simp: no_adj_Cons split: if_splits)
  have al: "\<forall>(a, s, f)\<in>set ls. 8 dvd unat s" "8 dvd unat s" "\<forall>(a, s, f)\<in>set rs. 8 dvd unat s"
    using inv by (auto simp: heap_inv_def)
  have al1: "\<forall>(a, s, f)\<in>set ((a, s1, True) # rs1). 8 dvd unat s"
    using merge_fwd_align [of "(a, s, True)" rs] al m by simp
  have run: "kfree (a + HDR) h = combine_forward (last_or NULL (addrs ls)) h1"
    using guard b(1) h1(1) b1 by (simp add: kfree_def)
  have area: "area_mapped root h1" "KHEAP_MAP_OFFSET \<le> start_vaddr h1" "8 dvd unat (start_vaddr h1)"
    using inv h1(3-5) by (auto simp: heap_inv_def area_mapped_def put_item_def)
  show ?thesis
  proof (cases ls rule: rev_cases)
    case Nil
    have "heap_inv root h1 ((a, s1, True) # rs1)"
      using h1(2) m Nil adj1 al1 area by (simp add: heap_inv_def)
    then show ?thesis using run Nil live1 m by (simp add: join_last_def)
  next
    case (snoc l0 c)
    obtain p t g where c: "c = (p, t, g)" by (cases c)
    let ?bs = "l0 @ merge_fwd (p, t, g) ((a, s1, True) # rs1)"
    have "heap_rep h1 (l0 @ (p, t, g) # (a, s1, True) # rs1)" using h1(2) m snoc c by simp
    then obtain h2 where h2: "combine_forward p h1 = Some h2" "heap_rep h2 ?bs"
        "kvm h2 = kvm h1" "start_vaddr h2 = start_vaddr h1" "end_vaddr h2 = end_vaddr h1"
      using combine_forward_rep by blast
    have "no_adj ?bs" using adj adj1 snoc c by (auto simp: no_adj_append no_adj_Cons)
    moreover have "\<forall>(a, s, f)\<in>set (merge_fwd (p, t, g) ((a, s1, True) # rs1)). 8 dvd unat s"
      by (rule merge_fwd_align) (use al(1) al1 snoc c in simp)
    then have "\<forall>(a, s, f)\<in>set ?bs. 8 dvd unat s" using al(1) unfolding snoc set_append ball_Un by blast
    ultimately have "heap_inv root h2 ?bs" using h2 area by (auto simp: heap_inv_def area_mapped_def)
    moreover have "live_of ?bs = live_of l0 \<union> live_of ((p, t, g) # (a, s1, True) # rs1)"
      unfolding merge_fwd_live [symmetric] by auto
    then have "live_of ?bs = live_of (l0 @ [c]) \<union> live_of rs" unfolding live1 [symmetric] c by auto
    ultimately show ?thesis using run snoc c h2(1) m by (simp add: join_last_def)
  qed
qed

lemma kmalloc_first_fit:
  assumes inv: "heap_inv root h bs" and lt: "unat sz < 2 ^ 29"
    and fit: "find (fits (align sz 8 + HDR)) bs = Some (a, s, f)"
  obtains ls rs h' where "bs = ls @ (a, s, True) # rs" and "kmalloc root sz h = Some (a + HDR, h')"
    and "heap_inv root h' (ls @ placed (align sz 8) a s @ rs)" and "unat (align sz 8) + 32 \<le> unat s"
proof -
  note tot = kmalloc_total [OF lt]
  have rep: "heap_rep h bs" using inv by (simp add: heap_inv_def)
  obtain ls rs where ls: "bs = ls @ (a, s, f) # rs" and f: "f" and le: "align sz 8 + HDR \<le> s"
    using find_split [OF fit] by (metis (no_types, lifting) case_prod_conv)
  have le': "unat (align sz 8) + 32 \<le> unat s" using le tot(3) by (simp add: word_le_nat_alt)
  obtain h' where "take_item (align sz 8) a h = Some (a + HDR, h')"
      "heap_inv root h' (ls @ placed (align sz 8) a s @ rs)"
    using take_item_inv [OF _ le' tot(1), of root h ls a rs] inv ls f by auto
  moreover have "a \<noteq> NULL" using heap_rep_block(2) rep ls by blast
  then have "kmalloc root sz h = take_item (align sz 8) a h"
    using find_item_heap [OF rep, of "align sz 8 + HDR"] fit by (simp add: kmalloc_take get_suitable_item_def)
  ultimately show ?thesis using that [of ls rs h'] ls f le' by simp
qed

lemma merge_fwd_placed:
  assumes "rs \<noteq> [] \<longrightarrow> \<not> snd (snd (hd rs))"
  shows "\<exists>s'. placed sz a s @ rs = (a, s', False) # tl (placed sz a s @ rs) \<and>
    merge_fwd (a, s', True) (tl (placed sz a s @ rs)) = (a, s, True) # rs"
proof (cases "s > sz + HDR + 8")
  case False
  then show ?thesis using assms by (cases rs) (auto simp: placed_def)
qed (auto simp: placed_def)

lemma join_last_used: "ls \<noteq> [] \<longrightarrow> \<not> snd (snd (last ls)) \<Longrightarrow> join_last ls (b # bs) = ls @ b # bs"
proof (cases ls rule: rev_cases)
  case (snoc l0 c)
  assume "ls \<noteq> [] \<longrightarrow> \<not> snd (snd (last ls))"
  then show ?thesis using snoc by (cases c; cases b) (simp add: join_last_def)
qed (simp add: join_last_def)

subsection \<open>The contract of an allocator\<close>

text \<open>
  What a client of the heap relies on. \<open>live\<close> is the set of blocks handed out and not yet returned, each
  with its header address and size; \<open>ok\<close> says in which states a request is served properly.
\<close>

locale allocator =
  fixes inv :: "'s \<Rightarrow> bool"
    and live :: "'s \<Rightarrow> (ptr \<times> u64) set"
    and ok :: "u64 \<Rightarrow> 's \<Rightarrow> bool"
    and alloc :: "u64 \<Rightarrow> 's \<Rightarrow> (ptr \<times> 's) option"
    and release :: "ptr \<Rightarrow> 's \<Rightarrow> 's option"
    and hdr :: u64
  assumes alloc_law: "inv s \<Longrightarrow> ok sz s \<Longrightarrow> \<exists>p s'. alloc sz s = Some (p, s') \<and> inv s' \<and>
      (p = NULL \<and> live s' = live s \<or>
       (\<exists>n. sz \<le> n \<and> p \<noteq> NULL \<and> p - hdr \<notin> fst ` live s \<and> live s' = insert (p - hdr, n) (live s)))"
    and release_law: "inv s \<Longrightarrow> (a, n) \<in> live s \<Longrightarrow>
      \<exists>s'. release (a + hdr) s = Some s' \<and> inv s' \<and> live s' = live s - {(a, n)}"
    and one_size: "inv s \<Longrightarrow> (a, n) \<in> live s \<Longrightarrow> (a, m) \<in> live s \<Longrightarrow> n = m"

text \<open>
  The runs of a client that returns only blocks it holds, and each once: \<open>Q\<close> is the set of headers
  it holds after the run.
\<close>

inductive serves :: "(u64 \<Rightarrow> 's \<Rightarrow> bool) \<Rightarrow> (u64 \<Rightarrow> 's \<Rightarrow> (ptr \<times> 's) option) \<Rightarrow> (ptr \<Rightarrow> 's \<Rightarrow> 's option) \<Rightarrow> u64 \<Rightarrow>
    's \<Rightarrow> 's \<Rightarrow> ptr set \<Rightarrow> bool"
  for ok alloc release hdr s where
  start: "serves ok alloc release hdr s s {}"
| got: "serves ok alloc release hdr s s1 Q \<Longrightarrow> ok sz s1 \<Longrightarrow> alloc sz s1 = Some (p, s2) \<Longrightarrow> p \<noteq> NULL \<Longrightarrow>
    serves ok alloc release hdr s s2 (insert (p - hdr) Q)"
| failed: "serves ok alloc release hdr s s1 Q \<Longrightarrow> ok sz s1 \<Longrightarrow> alloc sz s1 = Some (NULL, s2) \<Longrightarrow>
    serves ok alloc release hdr s s2 Q"
| returned: "serves ok alloc release hdr s s1 Q \<Longrightarrow> a \<in> Q \<Longrightarrow> release (a + hdr) s1 = Some s2 \<Longrightarrow>
    serves ok alloc release hdr s s2 (Q - {a})"

context allocator
begin

lemma serves_live:
  assumes "serves ok alloc release hdr s s' Q" and "inv s" and "live s = {}"
  shows "inv s' \<and> fst ` live s' = Q"
  using assms(1)
proof (induction rule: serves.induct)
  case start
  then show ?case using assms(2,3) by simp
next
  case (got s1 Q sz p s2)
  then obtain n where "inv s2" "live s2 = insert (p - hdr, n) (live s1)"
    using alloc_law [of s1 sz] by auto
  then show ?case using got.IH by simp
next
  case (failed s1 Q sz s2)
  then show ?case using alloc_law [of s1 sz] by auto
next
  case (returned s1 Q a s2)
  then obtain n where n: "(a, n) \<in> live s1" by auto
  then have "inv s2" "live s2 = live s1 - {(a, n)}" using returned release_law [of s1 a n] by auto
  moreover have "fst ` (live s1 - {(a, n)}) = Q - {a}"
  proof -
    have "b \<noteq> a" if "(b, m) \<in> live s1" "(b, m) \<noteq> (a, n)" for b m
      using that n one_size [of s1 a n m] returned.IH by auto
    then show ?thesis using returned.IH by force
  qed
  ultimately show ?case by simp
qed

lemma alloc_release:
  assumes "inv s" and "ok sz s" and "alloc sz s = Some (p, s1)" and "p \<noteq> NULL"
  shows "\<exists>s2. release p s1 = Some s2 \<and> inv s2 \<and> live s2 = live s"
proof -
  obtain n where n: "inv s1" "p - hdr \<notin> fst ` live s" "live s1 = insert (p - hdr, n) (live s)"
    using alloc_law [OF assms(1,2)] assms(3,4) by auto
  then obtain s2 where "release (p - hdr + hdr) s1 = Some s2" "inv s2" "live s2 = live s1 - {(p - hdr, n)}"
    using release_law [of s1 "p - hdr" n] by blast
  moreover have "(p - hdr, n) \<notin> live s" using n(2) by force
  ultimately show ?thesis using n(3) by auto
qed

end

lemma heap_inv_disjoint:
  assumes "heap_inv root h bs" and "(a, s, f) \<in> set bs" and "(b, t, g) \<in> set bs" and "a \<noteq> b"
  shows "unat a + 32 + unat s \<le> unat b \<or> unat b + 32 + unat t \<le> unat a"
proof -
  obtain q where "tiled (start_vaddr h) bs q" using assms(1) by (auto simp: heap_inv_def heap_rep_def)
  then show ?thesis by (rule tiled_disjoint [OF _ assms(2-4)])
qed

lemma heap_inv_one_size: "heap_inv root h bs \<Longrightarrow> (a, s, f) \<in> set bs \<Longrightarrow> (a, t, g) \<in> set bs \<Longrightarrow> s = t \<and> f = g"
  using heap_rep_block_ex(1) [of h bs a s f] heap_rep_block_ex(1) [of h bs a t g] by (auto simp: heap_inv_def)

lemma kmalloc_law:
  assumes inv: "heap_inv root h bs" and ok: "alloc_ok root sz h"
  shows "\<exists>p h'. kmalloc root sz h = Some (p, h') \<and> (\<exists>bs'. heap_inv root h' bs') \<and>
    (p = NULL \<and> live root h' = live root h \<or>
     (\<exists>n. sz \<le> n \<and> p \<noteq> NULL \<and> p - HDR \<notin> fst ` live root h \<and>
        live root h' = insert (p - HDR, n) (live root h)))"
proof -
  from kmalloc_inv [OF inv ok] obtain p h' bs' where r: "kmalloc root sz h = Some (p, h')" and inv': "heap_inv root h' bs'"
    and c: "p = NULL \<and> live_of bs' = live_of bs \<or>
     (\<exists>a s. p = a + HDR \<and> p \<noteq> NULL \<and> sz \<le> s \<and> (a, s, False) \<in> set bs' \<and> a \<notin> fst ` live_of bs \<and>
        live_of bs' = insert (a, s) (live_of bs))"
    by (elim exE conjE) (rule that)
  have "p = NULL \<and> live root h' = live root h \<or> (\<exists>n. sz \<le> n \<and> p \<noteq> NULL \<and> p - HDR \<notin> fst ` live root h \<and>
        live root h' = insert (p - HDR, n) (live root h))"
    using c unfolding live_eq [OF inv, symmetric] live_eq [OF inv', symmetric]
  proof (elim disjE exE conjE)
    fix a s
    assume "p = a + HDR" "p \<noteq> NULL" "sz \<le> s" "a \<notin> fst ` live root h" "live root h' = insert (a, s) (live root h)"
    then show ?thesis by (intro disjI2 exI [of _ s]) simp
  qed blast
  then show ?thesis using r inv' by blast
qed

lemma kfree_law:
  assumes inv: "heap_inv root h bs" and mem: "(a, n) \<in> live root h"
  shows "\<exists>h'. kfree (a + HDR) h = Some h' \<and> (\<exists>bs'. heap_inv root h' bs') \<and> live root h' = live root h - {(a, n)}"
proof -
  have "(a, n, False) \<in> set bs" using mem unfolding live_eq [OF inv] by blast
  then obtain ls rs where bs: "bs = ls @ (a, n, False) # rs" by (meson split_list)
  from kfree_inv [OF inv [unfolded bs]] obtain h' bs' where r: "kfree (a + HDR) h = Some h'"
    and inv': "heap_inv root h' bs'" and l: "live_of bs' = live_of ls \<union> live_of rs"
    by (elim exE conjE) (rule that)
  have "heap_rep h bs" using inv by (simp add: heap_inv_def)
  note b = heap_rep_block(3,4) [OF this [unfolded bs]]
  have "(a, n) \<notin> live_of ls" "(a, n) \<notin> live_of rs" using b by force+
  moreover have "live_of bs = insert (a, n) (live_of ls \<union> live_of rs)" unfolding bs by auto
  ultimately have "live_of bs' = live_of bs - {(a, n)}" unfolding l by blast
  then show ?thesis using r inv' unfolding live_eq [OF inv, symmetric] live_eq [OF inv', symmetric] by blast
qed

lemma one_size_law: "heap_inv root h bs \<Longrightarrow> (a, n) \<in> live root h \<Longrightarrow> (a, m) \<in> live root h \<Longrightarrow> n = m"
  using live_eq [of root h bs] heap_inv_one_size [of root h bs a n False m False] by simp

interpretation kh: allocator "\<lambda>h. \<exists>bs. heap_inv root h bs" "live root" "alloc_ok root" "kmalloc root" kfree HDR
  for root
proof (unfold_locales, goal_cases)
  case 1
  then show ?case by (elim exE) (rule kmalloc_law)
next
  case 2
  then show ?case by (elim exE) (rule kfree_law)
next
  case 3
  then show ?case by (elim exE) (rule one_size_law)
qed

subsection \<open>Properties of the kernel heap\<close>


text \<open>C9. Returning a block right after it was cut from a free block of the list gives back the same block
  list: splitting and coalescing are inverse, so the heap does not fragment.\<close>

theorem kmalloc_kfree_roundtrip:
  assumes "heap_inv root h bs" and "unat sz < 2 ^ 29" and "find (fits (align sz 8 + HDR)) bs = Some (a, s, f)"
  shows "\<exists>h1 h2. kmalloc root sz h = Some (a + HDR, h1) \<and> kfree (a + HDR) h1 = Some h2 \<and> heap_inv root h2 bs"
proof -
  obtain ls rs h1 where r: "bs = ls @ (a, s, True) # rs" "kmalloc root sz h = Some (a + HDR, h1)"
      "heap_inv root h1 (ls @ placed (align sz 8) a s @ rs)"
    using kmalloc_first_fit [OF assms] by blast
  have adj: "rs \<noteq> [] \<longrightarrow> \<not> snd (snd (hd rs))" "ls \<noteq> [] \<longrightarrow> \<not> snd (snd (last ls))"
    using assms(1) r(1) by (auto simp: heap_inv_def no_adj_append no_adj_Cons)
  obtain s' rs' where p: "placed (align sz 8) a s @ rs = (a, s', False) # rs'"
      "merge_fwd (a, s', True) rs' = (a, s, True) # rs"
    using merge_fwd_placed [OF adj(1), of "align sz 8" a s] by metis
  have "heap_inv root h1 (ls @ (a, s', False) # rs')" using r(3) p(1) by simp
  from kfree_inv [OF this] obtain h2 where "kfree (a + HDR) h1 = Some h2"
      "heap_inv root h2 (join_last ls ((a, s, True) # rs))" unfolding p(2) by blast
  then show ?thesis using r(1,2) join_last_used [OF adj(2), of "(a, s, True)" rs] by auto
qed

text \<open>C32. When no free block fits and the heap grows, \<open>get_suitable_item\<close> returns the last block without
  asking whether it is free: \<open>kmalloc\<close> then hands out the address of a block that is in use.\<close>

theorem kmalloc_returns_live_block:
  assumes inv: "heap_inv root h (ls @ [(a, s, False)])" and lt: "unat sz < 2 ^ 29"
    and room: "unat (end_vaddr h) + 2 ^ 31 < 2 ^ 64"
    and nofit: "find (fits (align sz 8 + HDR)) (ls @ [(a, s, False)]) = None"
    and grown: "kheap_expand root (align sz 8 + HDR) h = Some (n, h1)" "n \<noteq> 0"
  shows "(a, s) \<in> live root h \<and> (\<exists>h'. kmalloc root sz h = Some (a + HDR, h'))"
proof -
  note tot = kmalloc_total [OF lt]
  have rep: "heap_rep h (ls @ [(a, s, False)])" using inv by (simp add: heap_inv_def)
  have "area_mapped root h" using inv by (simp add: heap_inv_def)
  from kheap_expand_mapped [OF this tot(4,5) room] grown
  have e: "area_mapped root h1" "start_vaddr h1 = start_vaddr h" "kh_head h1 = kh_head h" "kh_tail h1 = kh_tail h"
      "items h1 = items h" "unat (align sz 8 + HDR) \<le> unat n" "8 dvd unat n"
      "unat (end_vaddr h1) = unat (end_vaddr h) + unat n" by auto
  obtain h2 where h2: "do { t \<leftarrow> items h1 (kh_tail h1);
      Some (kh_tail h1, put_item (kh_tail h1) (t\<lparr>it_size := it_size t + n\<rparr>) h1) } = Some (a, h2)"
      "heap_inv root h2 (ls @ [(a, s + n, False)])" "unat (s + n) = unat s + unat n"
    using grow_tail_inv [OF inv e(1-5) e(8,7)] by blast
  have "find_item (items h) (kh_head h) (align sz 8 + HDR) = Some NULL"
    using find_item_heap [OF rep, of "align sz 8 + HDR"] nofit by simp
  then have "kmalloc root sz h = take_item (align sz 8) a h2"
    using heap_rep_block(2) [OF rep] grown h2(1) by (simp add: kmalloc_take get_suitable_item_def)
  moreover have "heap_rep h2 (ls @ [(a, s + n, False)])" using h2(2) by (simp add: heap_inv_def)
  then obtain h' where "take_item (align sz 8) a h2 = Some (a + HDR, h')"
    using take_item_rep [of h2 ls a "s + n" False "[]" "align sz 8"] e(6) h2(3) tot(3,5) by auto
  moreover have "(a, s) \<in> live root h" using live_eq [OF inv] by simp
  ultimately show ?thesis by simp
qed


text \<open>A sample: one page of heap as one block, free or in use.\<close>

definition kheap_empty :: kheap_t where
  "kheap_empty = \<lparr>start_vaddr = KHEAP_MAP_OFFSET, end_vaddr = KHEAP_MAP_OFFSET, kh_head = NULL, kh_tail = NULL,
     items = Map.empty, kvm = vm_sample\<rparr>"

definition kheap_page :: kheap_t where
  "kheap_page = (case kheap_expand_loop (P2V 0x2000) 1 kheap_empty of Some (_, h) \<Rightarrow> h | None \<Rightarrow> kheap_empty)"

definition kheap_sample :: "bool \<Rightarrow> kheap_t" where
  "kheap_sample f = kheap_page\<lparr>kh_head := KHEAP_MAP_OFFSET, kh_tail := KHEAP_MAP_OFFSET,
     items := [KHEAP_MAP_OFFSET \<mapsto> \<lparr>it_next = NULL, it_prev = NULL, it_size = 4064, it_free = f\<rparr>]\<rparr>"

lemma kheap_page_ok: "map_option fst (kheap_expand_loop (P2V 0x2000) 1 kheap_empty) = Some True"
  by (simp add: vm_eval kheap_empty_def KHEAP_MAP_OFFSET_def)

lemma kheap_sample_inv: "heap_inv (P2V 0x2000) (kheap_sample f) [(KHEAP_MAP_OFFSET, 4064, f)]"
proof -
  have "area_mapped (P2V 0x2000) kheap_empty"
    using vm_sample_inv by (auto simp: area_mapped_def kheap_empty_def KHEAP_MAP_OFFSET_def)
  from kheap_expand_loop_mapped [OF this, of 1] kheap_page_ok
  have "area_mapped (P2V 0x2000) kheap_page" "unat (end_vaddr kheap_page) = unat KHEAP_MAP_OFFSET + 4096"
    "start_vaddr kheap_page = KHEAP_MAP_OFFSET"
    by (auto simp: kheap_page_def kheap_empty_def KHEAP_MAP_OFFSET_def)
  then show ?thesis
    by (auto simp: heap_inv_def heap_rep_def kheap_sample_def area_mapped_def KHEAP_MAP_OFFSET_def word_le_nat_alt)
qed

theorem kmalloc_kfree_roundtrip_witness:
  "\<exists>h1 h2. kmalloc (P2V 0x2000) 100 (kheap_sample True) = Some (KHEAP_MAP_OFFSET + HDR, h1) \<and>
     kfree (KHEAP_MAP_OFFSET + HDR) h1 = Some h2 \<and>
     heap_inv (P2V 0x2000) h2 [(KHEAP_MAP_OFFSET, 4064, True)]"
  by (rule kmalloc_kfree_roundtrip [OF kheap_sample_inv]) (simp_all add: align_def)


lemma kheap_sample_grows: "map_option fst (kheap_expand (P2V 0x2000) 136 (kheap_sample False)) = Some 4096"
  by (simp add: kheap_expand_def align_def kheap_sample_def kheap_page_def vm_eval kheap_empty_def KHEAP_MAP_OFFSET_def)

theorem kmalloc_returns_live_block_witness:
  "(KHEAP_MAP_OFFSET, 4064) \<in> live (P2V 0x2000) (kheap_sample False) \<and>
   (\<exists>h'. kmalloc (P2V 0x2000) 100 (kheap_sample False) = Some (KHEAP_MAP_OFFSET + HDR, h'))"
proof -
  obtain h1 where "kheap_expand (P2V 0x2000) (align 100 8 + HDR) (kheap_sample False) = Some (4096, h1)"
    using kheap_sample_grows by (auto simp: align_def)
  moreover have "unat (end_vaddr (kheap_sample False)) + 2 ^ 31 < 2 ^ 64"
    by (simp add: kheap_sample_def kheap_page_def vm_eval kheap_empty_def KHEAP_MAP_OFFSET_def)
  ultimately show ?thesis
    using kmalloc_returns_live_block [of "P2V 0x2000" "kheap_sample False" "[]" KHEAP_MAP_OFFSET 4064 100 4096 h1]
      kheap_sample_inv [of False] by simp
qed


end
