(* ===== verification/Netbuf.thy ===== *)
theory Netbuf
  imports Prelude "HOL-Library.Monad_Syntax"
begin

text \<open>
  The state of the network stack and its packet buffers: \<^verbatim>\<open>kernel/kairax/in.h\<close>,
  \<^verbatim>\<open>kernel/net/net_buffer.c\<close> and the structures of \<^verbatim>\<open>route.h\<close>, \<^verbatim>\<open>arp.h\<close>, \<^verbatim>\<open>ipc/socket.h\<close>, \<^verbatim>\<open>tcp.h\<close>,
  \<^verbatim>\<open>udp.h\<close>, \<^verbatim>\<open>raw.h\<close> and \<^verbatim>\<open>packet_raw.h\<close>. Objects with identity (buffers, sockets, interfaces) live in maps
  from addresses; pointers into a packet buffer are offsets from its start. Reading or writing outside
  a buffer, and using a freed or null object, is a fault (\<open>None\<close>). The receive queues and tables, which the
  code keeps in \<open>list_t\<close>, are the sequences that \<^verbatim>\<open>list.c\<close> refines (theory Klist).
\<close>

subsection \<open>Byte order: \<^verbatim>\<open>in.h\<close>\<close>

definition ntohs :: "u16 \<Rightarrow> u16" where
  "ntohs val = drop_bit 8 val OR push_bit 8 val"

definition ntohl :: "u32 \<Rightarrow> u32" where
  "ntohl nb = (drop_bit 24 nb AND 0xff) OR (push_bit 8 nb AND 0xff0000) OR
     (drop_bit 8 nb AND 0xff00) OR (push_bit 24 nb AND 0xff000000)"

definition htons :: "u16 \<Rightarrow> u16" where "htons val = ntohs val"
definition htonl :: "u32 \<Rightarrow> u32" where "htonl val = ntohl val"

text \<open>Structure fields in memory, on a little-endian machine.\<close>

definition le16 :: "u16 \<Rightarrow> u8 list" where
  "le16 w = [ucast w, ucast (drop_bit 8 w)]"

definition le32 :: "u32 \<Rightarrow> u8 list" where
  "le32 w = [ucast w, ucast (drop_bit 8 w), ucast (drop_bit 16 w), ucast (drop_bit 24 w)]"

definition un16 :: "u8 \<Rightarrow> u8 \<Rightarrow> u16" where
  "un16 a b = ucast a OR push_bit 8 (ucast b)"

definition un32 :: "u8 \<Rightarrow> u8 \<Rightarrow> u8 \<Rightarrow> u8 \<Rightarrow> u32" where
  "un32 a b c d = ucast a OR push_bit 8 (ucast b) OR push_bit 16 (ucast c) OR push_bit 24 (ucast d)"

text \<open>Access to a run of bytes at an offset; no bytes, no access.\<close>

definition rd :: "u8 list \<Rightarrow> int \<Rightarrow> nat \<Rightarrow> u8 list option" where
  "rd bs off n = (if n = 0 then Some []
     else if 0 \<le> off \<and> nat off + n \<le> length bs then Some (take n (drop (nat off) bs)) else None)"

definition wr :: "u8 list \<Rightarrow> int \<Rightarrow> u8 list \<Rightarrow> u8 list option" where
  "wr bs off d = (if d = [] then Some bs
     else if 0 \<le> off \<and> nat off + length d \<le> length bs
     then Some (take (nat off) bs @ d @ drop (nat off + length d) bs) else None)"

definition ld8 :: "u8 list \<Rightarrow> int \<Rightarrow> u8 option" where
  "ld8 bs off = (case rd bs off 1 of Some [a] \<Rightarrow> Some a | _ \<Rightarrow> None)"

definition ld16 :: "u8 list \<Rightarrow> int \<Rightarrow> u16 option" where
  "ld16 bs off = (case rd bs off 2 of Some [a, b] \<Rightarrow> Some (un16 a b) | _ \<Rightarrow> None)"

definition ld32 :: "u8 list \<Rightarrow> int \<Rightarrow> u32 option" where
  "ld32 bs off = (case rd bs off 4 of Some [a, b, c, d] \<Rightarrow> Some (un32 a b c d) | _ \<Rightarrow> None)"

subsection \<open>Structures\<close>

record nic =
  nic_mac :: "u8 list"
  ipv4_addr :: u32
  ipv4_subnet :: u32
  nic_name :: "u8 list"
  nic_flags :: u32

record route4 =
  dest :: u32
  netmask :: u32
  gateway :: u32
  rt_flags :: u16
  metric :: u32
  rt_interface :: ptr

record arp_v4_cache_entry =
  ae_addr :: u32
  ae_mac :: "u8 list"

text \<open>\<^verbatim>\<open>buffer_len\<close> is the length of \<open>buffer\<close>; the other pointers are offsets into it.\<close>

record net_buffer =
  buffer :: "u8 list"
  netdev :: ptr
  cursor :: int
  cur_len :: u64
  link_header :: int
  netw_header :: int
  transp_header :: int
  payload :: int
  netw_packet_size :: u64
  payload_size :: u64
  payload_read_offset :: u64
  nb_refs :: int

record sockaddr_in =
  sin_family :: u16
  sin_port :: u16
  sin_addr :: u32

datatype sock_state = UNCONNECTED | LISTEN | CONNECTING | CONNECTED | CLOSING |
  CLOSE_WAIT | LAST_ACK | FIN_WAIT1 | FIN_WAIT2

text \<open>The operation tables \<^verbatim>\<open>struct socket_prot_ops\<close> the kernel has.\<close>

datatype prot_ops = no_ops | ipv4_stream_ops | ipv4_dgram_ops | ipv4_raw_ops | packet_raw_ops

record socket =
  sk_refs :: int
  sk_domain :: int
  sk_type :: int
  sk_protocol :: int
  sk_state :: sock_state
  sk_ops :: prot_ops

record tcp_connection_request =
  cr_sn :: u32
  cr_ack :: u32
  cr_addr :: u32
  cr_port :: u16

record tcp4_socket_data =
  src_port :: u16
  bound_port :: u16
  t_addr :: sockaddr_in
  t_sn :: u32
  t_ack :: u32
  was_connected :: bool
  is_listener :: bool
  is_rst :: bool
  shut_rd :: bool
  shut_wr :: bool
  backlog_sz :: u32
  accept_queue :: "tcp_connection_request list"
  children :: "ptr list"
  listener :: ptr
  t_rx_queue :: "ptr list"

record udp4_socket_data =
  u_nic :: ptr
  u_port :: u16
  u_rx_queue :: "ptr list"
  allow_broadcast :: u8
  u_nonblock :: u8
  peer :: sockaddr_in

text \<open>The raw sockets keep the state of their \<open>rx_queue_lock\<close>, because not every path releases it.\<close>

record raw4_socket_data =
  r_rx_queue :: "ptr list"
  r_lock :: bool
  max_ttl :: u8

record packet_raw_socket_data =
  p_nic :: ptr
  p_rx_queue :: "ptr list"
  p_lock :: bool

text \<open>
  The queues a call can wake: the readers of a socket, the \<^verbatim>\<open>accept\<close> callers, the pollers. The log of
  wake-ups stands for \<^verbatim>\<open>scheduler_wake\<close> and \<^verbatim>\<open>poll_wakeall\<close>; \<open>out\<close> is the log of frames handed to drivers
  and \<open>fresh\<close> the addresses the next calls of \<^verbatim>\<open>kmalloc\<close> return (\<^verbatim>\<open>NULL\<close> when they run out).
\<close>

datatype ip4_handler = tcp_handler | udp_handler | icmp_handler

datatype waitq = Rx ptr | Backlog ptr | Poll ptr

record net =
  nics :: "ptr \<rightharpoonup> nic"
  nic_list :: "ptr list"
  route_table4 :: "route4 list"
  arp_cache :: "arp_v4_cache_entry list"
  nbufs :: "ptr \<rightharpoonup> net_buffer"
  socks :: "ptr \<rightharpoonup> socket"
  tcps :: "ptr \<rightharpoonup> tcp4_socket_data"
  udps :: "ptr \<rightharpoonup> udp4_socket_data"
  raws :: "ptr \<rightharpoonup> raw4_socket_data"
  packets :: "ptr \<rightharpoonup> packet_raw_socket_data"
  tcp4_bindings :: "u16 \<Rightarrow> ptr"
  udp4_bindings :: "u16 \<Rightarrow> ptr"
  raw_sockets :: "ptr list"
  packet_raw_sockets :: "ptr list"
  protocols :: "nat \<Rightarrow> ip4_handler option"
  now :: u64
  syncookie_key :: "u64 \<times> u64"
  rands :: "u32 list"
  fresh :: "ptr list"
  out :: "(ptr \<times> u8 list) list"
  wakes :: "(waitq \<times> int) list"

text \<open>
  What the code meets from outside: what the rest of the system does while a thread is in
  \<^verbatim>\<open>thread_sleep\<close> or \<^verbatim>\<open>scheduler_sleep_on\<close> (which also says whether a signal woke it), and the return code
  of a driver's \<open>tx\<close>. \<open>junk\<close> is what an uninitialised array on the stack holds.
\<close>

record env =
  sleep :: "net \<Rightarrow> net"
  sleep_on :: "net \<Rightarrow> bool \<times> net"
  tx_rc :: "ptr \<Rightarrow> u8 list \<Rightarrow> int"
  junk :: "u8 list"

definition kalloc :: "net \<Rightarrow> ptr \<times> net" where
  "kalloc s = (case fresh s of [] \<Rightarrow> (NULL, s) | p # ps \<Rightarrow> (p, s\<lparr>fresh := ps\<rparr>))"

definition wake :: "waitq \<Rightarrow> int \<Rightarrow> net \<Rightarrow> net" where
  "wake q n s = s\<lparr>wakes := wakes s @ [(q, n)]\<rparr>"

abbreviation INT_MAX :: int where "INT_MAX \<equiv> 0x7fffffff"

definition krand :: "net \<Rightarrow> u32 \<times> net" where
  "krand s = (case rands s of [] \<Rightarrow> (0, s) | r # rs \<Rightarrow> (r, s\<lparr>rands := rs\<rparr>))"

definition put_nb :: "ptr \<Rightarrow> net_buffer \<Rightarrow> net \<Rightarrow> net" where
  "put_nb p nb s = s\<lparr>nbufs := (nbufs s)(p \<mapsto> nb)\<rparr>"

subsection \<open>Operations: \<^verbatim>\<open>net_buffer.c\<close>\<close>

text \<open>A zeroed buffer structure around the bytes \<open>mem\<close>.\<close>

definition blank_nb :: "u8 list \<Rightarrow> net_buffer" where
  "blank_nb mem = \<lparr>buffer = mem, netdev = NULL, cursor = 0, cur_len = 0, link_header = 0, netw_header = 0,
     transp_header = 0, payload = 0, netw_packet_size = 0, payload_size = 0, payload_read_offset = 0, nb_refs = 0\<rparr>"

text \<open>The two allocations of a constructor: the bytes, then the structure.\<close>

definition alloc_nb :: "net_buffer \<Rightarrow> net \<Rightarrow> ptr \<times> net" where
  "alloc_nb nb s =
     (let (mem, s) = kalloc s
      in if mem = NULL then (NULL, s)
         else let (p, s) = kalloc s
              in if p = NULL then (NULL, s) else (p, put_nb p nb s))"

definition new_net_buffer :: "u8 list \<Rightarrow> ptr \<Rightarrow> net \<Rightarrow> ptr \<times> net" where
  "new_net_buffer data nic s =
     alloc_nb ((blank_nb data)\<lparr>netdev := nic, cursor := 0, cur_len := of_nat (length data)\<rparr>) s"

definition new_net_buffer_out :: "nat \<Rightarrow> net \<Rightarrow> ptr \<times> net" where
  "new_net_buffer_out len s = alloc_nb ((blank_nb (replicate len 0))\<lparr>cursor := int len, cur_len := 0\<rparr>) s"

definition new_net_buffer_in :: "nat \<Rightarrow> ptr \<Rightarrow> net \<Rightarrow> ptr \<times> net" where
  "new_net_buffer_in len nic s = alloc_nb ((blank_nb (replicate len 0))\<lparr>netdev := nic, cursor := 0, cur_len := 0\<rparr>) s"

definition net_buffer_get_remain_len :: "net_buffer \<Rightarrow> u64" where
  "net_buffer_get_remain_len nb = cur_len nb"

definition net_buffer_get_payload_remain_len :: "net_buffer \<Rightarrow> u64" where
  "net_buffer_get_payload_remain_len nb = payload_size nb - payload_read_offset nb"

definition net_buffer_get_buffer_remain_len :: "net_buffer \<Rightarrow> u64" where
  "net_buffer_get_buffer_remain_len nb = of_nat (length (buffer nb)) - cur_len nb"

definition net_buffer_seek_end :: "net_buffer \<Rightarrow> net_buffer" where
  "net_buffer_seek_end nb = nb\<lparr>cursor := int (length (buffer nb)), cur_len := 0\<rparr>"

definition net_buffer_shift :: "int \<Rightarrow> net_buffer \<Rightarrow> net_buffer" where
  "net_buffer_shift offset nb = nb\<lparr>cursor := cursor nb + offset, cur_len := cur_len nb - of_int offset\<rparr>"

text \<open>\<open>count\<close> narrows to \<open>int\<close> when it is passed on to \<open>net_buffer_shift\<close>.\<close>

definition net_buffer_read_payload_into :: "u64 \<Rightarrow> net_buffer \<Rightarrow> (u8 list \<times> u64 \<times> net_buffer) option" where
  "net_buffer_read_payload_into count nb =
     (let payload_remaining = payload_size nb - payload_read_offset nb;
          readable = min count payload_remaining
      in do {
        data \<leftarrow> rd (buffer nb) (payload nb + uint (payload_read_offset nb)) (unat readable);
        let nb = nb\<lparr>payload_read_offset := payload_read_offset nb + readable\<rparr>;
        Some (data, readable, net_buffer_shift (sint (ucast readable :: u32)) nb)
      })"

definition net_buffer_add_front :: "u8 list \<Rightarrow> net_buffer \<Rightarrow> net_buffer option" where
  "net_buffer_add_front data nb =
     (let nb = nb\<lparr>cursor := cursor nb - int (length data), cur_len := cur_len nb + of_nat (length data)\<rparr>
      in do { b \<leftarrow> wr (buffer nb) (cursor nb) data; Some (nb\<lparr>buffer := b\<rparr>) })"

definition net_buffer_add_back :: "u8 list \<Rightarrow> net_buffer \<Rightarrow> (int \<times> net_buffer) option" where
  "net_buffer_add_back data nb =
     (let available = of_nat (length (buffer nb)) - cur_len nb
      in if available < of_nat (length data) then Some (- ENOSPC, nb)
         else do {
           b \<leftarrow> wr (buffer nb) (uint (cur_len nb)) data;
           Some (0, nb\<lparr>buffer := b, cur_len := cur_len nb + of_nat (length data)\<rparr>)
         })"

definition net_buffer_acquire :: "ptr \<Rightarrow> net \<Rightarrow> net option" where
  "net_buffer_acquire p s = do { nb \<leftarrow> nbufs s p; Some (put_nb p (nb\<lparr>nb_refs := nb_refs nb + 1\<rparr>) s) }"

definition net_buffer_free :: "ptr \<Rightarrow> net \<Rightarrow> net option" where
  "net_buffer_free p s = do {
     nb \<leftarrow> nbufs s p;
     if nb_refs nb - 1 \<le> 0 then Some (s\<lparr>nbufs := (nbufs s)(p := None)\<rparr>)
     else Some (put_nb p (nb\<lparr>nb_refs := nb_refs nb - 1\<rparr>) s)
   }"

text \<open>An operation on the structure behind a pointer.\<close>

definition on_nb :: "ptr \<Rightarrow> (net_buffer \<Rightarrow> net_buffer option) \<Rightarrow> net \<Rightarrow> net option" where
  "on_nb p f s = do { nb \<leftarrow> nbufs s p; nb \<leftarrow> f nb; Some (put_nb p nb s) }"

subsection \<open>Reading and writing runs of bytes\<close>

lemma rd_zero [simp]: "rd bs off 0 = Some []"
  by (simp add: rd_def)

lemma rd_at: "off = int (length pre) \<Longrightarrow> n = length d \<Longrightarrow> rd (pre @ d @ post) off n = Some d"
  by (simp add: rd_def)

lemma rd_Some: "0 \<le> off \<Longrightarrow> nat off + n \<le> length bs \<Longrightarrow> rd bs off n = Some (take n (drop (nat off) bs))"
  by (simp add: rd_def)

subsection \<open>Building a packet from its end\<close>

text \<open>
  An outgoing buffer is filled from its end: the bytes from the cursor on are the packet so far, the bytes
  before it the room left for further headers.
\<close>

definition nb_room :: "net_buffer \<Rightarrow> nat" where
  "nb_room nb = nat (cursor nb)"

definition nb_contents :: "net_buffer \<Rightarrow> u8 list" where
  "nb_contents nb = drop (nat (cursor nb)) (buffer nb)"

definition nb_ok :: "net_buffer \<Rightarrow> bool" where
  "nb_ok nb \<longleftrightarrow> 0 \<le> cursor nb \<and> cursor nb \<le> int (length (buffer nb)) \<and> length (buffer nb) < 2 ^ 32 \<and>
     cur_len nb = of_nat (length (nb_contents nb))"

definition nb_push :: "u8 list \<Rightarrow> net_buffer \<Rightarrow> net_buffer" where
  "nb_push d nb = nb\<lparr>cursor := cursor nb - int (length d), cur_len := cur_len nb + of_nat (length d),
     buffer := take (nb_room nb - length d) (buffer nb) @ d @ nb_contents nb\<rparr>"

lemma nb_push_fields [simp]:
  "netdev (nb_push d nb) = netdev nb" "nb_refs (nb_push d nb) = nb_refs nb"
  by (simp_all add: nb_push_def)

text \<open>The contract of such a buffer towards the layers that put their headers in front.\<close>

locale header_stack =
  fixes ok :: "'b \<Rightarrow> bool" and contents :: "'b \<Rightarrow> 'e list" and room :: "'b \<Rightarrow> nat"
    and push :: "'e list \<Rightarrow> 'b \<Rightarrow> 'b option" and pushed :: "'e list \<Rightarrow> 'b \<Rightarrow> 'b"
  assumes push_fits: "ok b \<Longrightarrow> length d \<le> room b \<Longrightarrow> push d b = Some (pushed d b)"
    and push_over: "ok b \<Longrightarrow> room b < length d \<Longrightarrow> push d b = None"
    and pushed_ok: "ok b \<Longrightarrow> length d \<le> room b \<Longrightarrow> ok (pushed d b)"
    and pushed_contents: "ok b \<Longrightarrow> length d \<le> room b \<Longrightarrow> contents (pushed d b) = d @ contents b"
    and pushed_room: "ok b \<Longrightarrow> length d \<le> room b \<Longrightarrow> room (pushed d b) = room b - length d"
begin

lemma push_iff: "ok b \<Longrightarrow> push d b = (if length d \<le> room b then Some (pushed d b) else None)"
  by (simp add: push_fits push_over)

text \<open>Layers put on one after the other, the innermost first.\<close>

lemma push_layers:
  assumes "ok b"
  shows "fold (\<lambda>d r. Option.bind r (push d)) ds (Some b) =
    (if length (concat ds) \<le> room b then Some (fold pushed ds b) else None)"
  using assms
proof (induction ds arbitrary: b)
  case (Cons d ds)
  have none: "fold (\<lambda>d r. Option.bind r (push d)) es None = None" for es
    by (induction es) simp_all
  show ?case
  proof (cases "length d \<le> room b")
    case True
    then show ?thesis using Cons.prems Cons.IH [OF pushed_ok]
      by (simp add: push_fits pushed_room pushed_ok) linarith
  next
    case False
    then show ?thesis using Cons.prems by (simp add: push_over none)
  qed
qed simp

lemma layers_contents:
  assumes "ok b" and "length (concat ds) \<le> room b"
  shows "contents (fold pushed ds b) = concat (rev ds) @ contents b"
  using assms by (induction ds arbitrary: b) (simp_all add: pushed_ok pushed_contents pushed_room)

end

lemma nb_ok_len: "nb_ok nb \<Longrightarrow> length (nb_contents nb) = length (buffer nb) - nb_room nb"
  by (simp add: nb_ok_def nb_contents_def nb_room_def)

interpretation nbs: header_stack nb_ok nb_contents nb_room net_buffer_add_front nb_push
proof unfold_locales
  fix b :: net_buffer and d :: "u8 list"
  assume ok: "nb_ok b"
  then have c: "cursor b = int (nb_room b)" "nb_room b \<le> length (buffer b)"
    by (auto simp: nb_ok_def nb_room_def)
  show "nb_room b < length d \<Longrightarrow> net_buffer_add_front d b = None"
    using c by (auto simp: net_buffer_add_front_def Let_def wr_def)
  assume fits: "length d \<le> nb_room b"
  then have c': "nat (cursor b - int (length d)) = nb_room b - length d" using c by simp
  show "net_buffer_add_front d b = Some (nb_push d b)"
    using fits c c' by (cases "d = []") (auto simp: net_buffer_add_front_def nb_push_def Let_def wr_def nb_contents_def)
  show con: "nb_contents (nb_push d b) = d @ nb_contents b"
    using c c' by (simp add: nb_contents_def nb_push_def)
  show "nb_room (nb_push d b) = nb_room b - length d"
    using c' by (simp add: nb_room_def nb_push_def)
  have "length (buffer (nb_push d b)) = length (buffer b)"
    using fits c nb_ok_len [OF ok] by (simp add: nb_push_def)
  then show "nb_ok (nb_push d b)" using ok fits c con
    by (simp add: nb_ok_def nb_push_def)
qed

lemma nb_ok_netdev [simp]: "nb_ok (nb\<lparr>netdev := n\<rparr>) = nb_ok nb"
  "nb_contents (nb\<lparr>netdev := n\<rparr>) = nb_contents nb" "nb_room (nb\<lparr>netdev := n\<rparr>) = nb_room nb"
  by (simp_all add: nb_ok_def nb_contents_def nb_room_def)

lemma nb_ok_refs [simp]: "nb_ok (nb\<lparr>nb_refs := n\<rparr>) = nb_ok nb"
  "nb_contents (nb\<lparr>nb_refs := n\<rparr>) = nb_contents nb" "nb_room (nb\<lparr>nb_refs := n\<rparr>) = nb_room nb"
  by (simp_all add: nb_ok_def nb_contents_def nb_room_def)

text \<open>What the driver gets is the packet.\<close>

lemma rd_contents: "nb_ok nb \<Longrightarrow> rd (buffer nb) (cursor nb) (unat (cur_len nb)) = Some (nb_contents nb)"
proof -
  assume ok: "nb_ok nb"
  then have "length (nb_contents nb) < 2 ^ 64" by (auto simp: nb_ok_def nb_contents_def)
  then have "unat (cur_len nb) = length (nb_contents nb)" using ok by (simp add: nb_ok_def unat_of_nat_small)
  then show ?thesis using ok by (cases "nb_contents nb = []") (auto simp: rd_def nb_contents_def nb_ok_def)
qed

definition out_nb :: "nat \<Rightarrow> net_buffer" where
  "out_nb n = (blank_nb (replicate n 0))\<lparr>cursor := int n, cur_len := 0\<rparr>"

lemma out_nb_ok: "n < 2 ^ 32 \<Longrightarrow> nb_ok (out_nb n)"
  by (simp add: nb_ok_def out_nb_def nb_contents_def blank_nb_def)

lemma out_nb_simps [simp]: "nb_contents (out_nb n) = []" "nb_room (out_nb n) = n" "nb_refs (out_nb n) = 0"
  by (simp_all add: out_nb_def nb_contents_def nb_room_def blank_nb_def)

text \<open>Memory for one more buffer, and what the allocation returns.\<close>

definition buffer_memory :: "ptr \<Rightarrow> ptr list \<Rightarrow> net \<Rightarrow> bool" where
  "buffer_memory p ps s \<longleftrightarrow> p \<noteq> NULL \<and> (\<exists>m. m \<noteq> NULL \<and> fresh s = m # p # ps)"

lemma alloc_nb_eq: "buffer_memory p ps s \<Longrightarrow> alloc_nb nb s = (p, put_nb p nb (s\<lparr>fresh := ps\<rparr>))"
  by (auto simp: buffer_memory_def alloc_nb_def kalloc_def put_nb_def)

lemma new_net_buffer_out_eq: "buffer_memory p ps s \<Longrightarrow> new_net_buffer_out n s = (p, put_nb p (out_nb n) (s\<lparr>fresh := ps\<rparr>))"
  by (simp add: new_net_buffer_out_def out_nb_def alloc_nb_eq)

lemma ucast_of_nat: "(ucast (of_nat n :: u64) :: u16) = of_nat n"
  by (simp add: unsigned_of_nat word_of_nat_eq_iff take_bit_take_bit)

lemma le_length [simp]: "length (le16 w) = 2" "length (le32 v) = 4"
  by (simp_all add: le16_def le32_def)

lemma put_nb_put_nb [simp]: "put_nb p x (put_nb p y s) = put_nb p x s"
  by (simp add: put_nb_def)

lemma put_nb_nbufs [simp]: "nbufs (put_nb p nb s) = (nbufs s)(p \<mapsto> nb)"
  by (simp add: put_nb_def)

lemma put_nb_fields [simp]:
  "nics (put_nb p nb s) = nics s" "route_table4 (put_nb p nb s) = route_table4 s"
  "arp_cache (put_nb p nb s) = arp_cache s" "socks (put_nb p nb s) = socks s" "tcps (put_nb p nb s) = tcps s"
  "udps (put_nb p nb s) = udps s" "out (put_nb p nb s) = out s" "fresh (put_nb p nb s) = fresh s"
  "raws (put_nb p nb s) = raws s" "packets (put_nb p nb s) = packets s" "tcp4_bindings (put_nb p nb s) = tcp4_bindings s"
  "udp4_bindings (put_nb p nb s) = udp4_bindings s" "raw_sockets (put_nb p nb s) = raw_sockets s"
  "packet_raw_sockets (put_nb p nb s) = packet_raw_sockets s" "protocols (put_nb p nb s) = protocols s"
  "wakes (put_nb p nb s) = wakes s" "now (put_nb p nb s) = now s" "syncookie_key (put_nb p nb s) = syncookie_key s"
  by (simp_all add: put_nb_def)

subsection \<open>Byte order and fields\<close>

lemma ntohs_ntohs [simp]: "ntohs (ntohs w) = w"
proof (rule bit_eqI)
  fix n
  show "bit (ntohs (ntohs w)) n = bit w n"
    by (cases "n < 8") (auto simp: ntohs_def bit_simps dest: bit_imp_le_length)
qed

lemma ntohs_htons [simp]: "ntohs (htons w) = w" "htons (ntohs w) = w" "htons (htons w) = w"
  by (simp_all add: htons_def)

lemma un32_le32: "un32 (ucast w) (ucast (drop_bit 8 w)) (ucast (drop_bit 16 w)) (ucast (drop_bit 24 (w :: u32))) = w"
proof (rule bit_eqI)
  fix n assume "possible_bit TYPE(u32) n"
  then have n: "n < 32" by simp
  consider "n < 8" | "8 \<le> n" "n < 16" | "16 \<le> n" "n < 24" | "24 \<le> n" using n by linarith
  then show "bit (un32 (ucast w) (ucast (drop_bit 8 w)) (ucast (drop_bit 16 w)) (ucast (drop_bit 24 w))) n = bit w n"
    using n by cases (auto simp: un32_def bit_or_iff bit_push_bit_iff bit_unsigned_iff bit_drop_bit_eq dest: bit_imp_le_length)
qed

lemma rd_skip: "int (length pre) \<le> off \<Longrightarrow> rd (pre @ bs) off n = rd bs (off - int (length pre)) n"
proof -
  assume "int (length pre) \<le> off"
  then obtain k where "off = int (length pre + k)" by (metis zle_iff_zadd of_nat_add)
  then show ?thesis by (auto simp: rd_def nat_add_distrib)
qed

lemma rd_prefix: "0 \<le> off \<Longrightarrow> nat off + n \<le> length xs \<Longrightarrow> rd (xs @ ys) off n = rd xs off n"
  by (auto simp: rd_def)

lemma ld_skip:
  assumes "int (length pre) \<le> off"
  shows "ld8 (pre @ bs) off = ld8 bs (off - int (length pre))"
    and "ld16 (pre @ bs) off = ld16 bs (off - int (length pre))"
    and "ld32 (pre @ bs) off = ld32 bs (off - int (length pre))"
  by (simp_all only: ld8_def ld16_def ld32_def rd_skip [OF assms])

lemma ld_prefix:
  assumes "0 \<le> off"
  shows "nat off + 1 \<le> length xs \<Longrightarrow> ld8 (xs @ ys) off = ld8 xs off"
    and "nat off + 2 \<le> length xs \<Longrightarrow> ld16 (xs @ ys) off = ld16 xs off"
    and "nat off + 4 \<le> length xs \<Longrightarrow> ld32 (xs @ ys) off = ld32 xs off"
  using assms by (simp_all only: ld8_def ld16_def ld32_def rd_prefix)

lemmas field_eval = ld8_def ld16_def ld32_def rd_def le16_def le32_def un32_le32

lemma wr_at: "off = int (length pre) \<Longrightarrow> length d = length old \<Longrightarrow> wr (pre @ old @ post) off d = Some (pre @ d @ post)"
  by (auto simp: wr_def)

lemma ntohl_ntohl [simp]: "ntohl (ntohl w) = w"
proof (rule bit_eqI)
  fix n assume "possible_bit TYPE(u32) n"
  then have "n \<in> {0..<32}" by simp
  also have "{0..<32} = set [0..<32]" by (simp only: set_upt)
  also have "[0..<32] = [0, 1, 2, 3, 4, 5, 6, 7, 8, 9, 10, 11, 12, 13, 14, 15, 16, 17, 18, 19, 20, 21, 22, 23,
      24, 25, 26, 27, 28, 29, 30, 31]" by (simp add: upt_rec)
  finally show "bit (ntohl (ntohl w)) n = bit w n"
    by simp (elim disjE; simp add: ntohl_def bit_simps)
qed

lemma htonl_ntohl [simp]: "htonl (ntohl w) = w"
  by (simp add: htonl_def)

lemma ucast32_of_nat: "(ucast (of_nat n :: u64) :: u32) = of_nat n"
  by (simp add: unsigned_of_nat word_of_nat_eq_iff)

lemma ld16_inside: "0 \<le> off \<Longrightarrow> nat off + 2 \<le> length bs \<Longrightarrow> \<exists>w. ld16 bs off = Some w"
proof -
  assume "0 \<le> off" and len: "nat off + 2 \<le> length bs"
  then have "rd bs off 2 = Some (take 2 (drop (nat off) bs))" by (simp add: rd_def)
  moreover have "length (take 2 (drop (nat off) bs)) = Suc (Suc 0)" using len by simp
  then obtain a b where "take 2 (drop (nat off) bs) = [a, b]" by (auto simp: length_Suc_conv simp del: length_take)
  ultimately show ?thesis by (simp add: ld16_def)
qed

subsection \<open>Releasing a buffer, and a blank state\<close>

lemma net_buffer_free_eq: "nbufs s p = Some nb \<Longrightarrow> net_buffer_free p s =
    Some (s\<lparr>nbufs := (nbufs s)(p := if nb_refs nb \<le> 1 then None else Some (nb\<lparr>nb_refs := nb_refs nb - 1\<rparr>))\<rparr>)"
  by (simp add: net_buffer_free_def put_nb_def)

text \<open>An empty stack, and an environment in which nothing happens.\<close>

definition net_blank :: net where
  "net_blank = \<lparr>nics = Map.empty, nic_list = [], route_table4 = [], arp_cache = [], nbufs = Map.empty, socks = Map.empty,
     tcps = Map.empty, udps = Map.empty, raws = Map.empty, packets = Map.empty, tcp4_bindings = (\<lambda>_. NULL),
     udp4_bindings = (\<lambda>_. NULL), raw_sockets = [], packet_raw_sockets = [], protocols = (\<lambda>_. None), now = 0,
     syncookie_key = (0, 0), rands = [], fresh = [], out = [], wakes = []\<rparr>"

definition quiet_env :: env where
  "quiet_env = \<lparr>sleep = (\<lambda>s. s), sleep_on = (\<lambda>s. (False, s)), tx_rc = (\<lambda>_ _. 0), junk = replicate 6 0\<rparr>"

end
