(* ===== verification/Checksum.thy ===== *)
theory Checksum
  imports Netbuf
begin

text \<open>
  The Internet checksums of \<^verbatim>\<open>ipv4.c\<close>, \<^verbatim>\<open>icmp.c\<close>, \<^verbatim>\<open>udp.c\<close> and \<^verbatim>\<open>tcp.c\<close> on byte lists, and their relation to the
  ones' complement sum: the loops that fold in every round (IPv4, TCP), the loop that folds at the end
  (UDP) and the fixed two folds (ICMP) all compute the residue modulo \<open>2^16 - 1\<close>.
\<close>

subsection \<open>The routines\<close>

text \<open>The 16-bit words a pointer of type \<open>uint16_t*\<close> reads; an odd byte at the end is not read.\<close>

fun words16 :: "u8 list \<Rightarrow> u16 list" where
  "words16 (a # b # bs) = un16 a b # words16 bs"
| "words16 _ = []"

text \<open>One round of the loops in \<^verbatim>\<open>ipv4.c\<close> and \<^verbatim>\<open>tcp.c\<close>: add and fold.\<close>

definition csum_add :: "u32 \<Rightarrow> u16 \<Rightarrow> u32" where
  "csum_add acc w =
     (let acc = acc + ucast (ntohs w)
      in if acc > 0xFFFF then drop_bit 16 acc + (acc AND 0xFFFF) else acc)"

definition ipv4_calculate_checksum :: "u8 list \<Rightarrow> u16" where
  "ipv4_calculate_checksum data =
     (let acc = foldl csum_add 0 (words16 (data[10 := 0, 11 := 0]))
      in ucast (NOT (acc AND 0xFFFF) AND 0xFFFF))"

text \<open>
  \<open>d_words\<close> is a 16-bit count; \<open>payl\<close> are the bytes the routine reads from the payload, \<open>csum_reads payl_size\<close> of
  them.
\<close>

definition csum_reads :: "nat \<Rightarrow> nat" where
  "csum_reads payl_size =
     (let d_words = unat (of_nat (payl_size div 2) :: u16)
      in if d_words * 2 \<noteq> payl_size then d_words * 2 + 1 else d_words * 2)"

definition tcp_ip4_calc_checksum :: "u8 list \<Rightarrow> u8 list \<Rightarrow> u8 list \<Rightarrow> nat \<Rightarrow> u16" where
  "tcp_ip4_calc_checksum prot header payl payl_size =
     (let acc = foldl csum_add 0 (words16 prot);
          header_sz = unat (of_nat (length header div 2) :: u8);
          acc = foldl csum_add acc (take header_sz (words16 header));
          d_words = unat (of_nat (payl_size div 2) :: u16);
          acc = foldl csum_add acc (take d_words (words16 payl));
          acc = (if d_words * 2 \<noteq> payl_size then csum_add acc (un16 (payl ! (d_words * 2)) 0) else acc)
      in ucast (NOT (acc AND 0xFFFF)))"

text \<open>The summing loops of \<^verbatim>\<open>icmp.c\<close> and \<^verbatim>\<open>udp.c\<close>, without folding.\<close>

fun icmp_sum :: "u8 list \<Rightarrow> u32 \<Rightarrow> u32" where
  "icmp_sum (a # b # bs) acc = icmp_sum bs (acc + ucast (un16 a b))"
| "icmp_sum [a] acc = acc + ucast a"
| "icmp_sum [] acc = acc"

definition icmp_checksum :: "u8 list \<Rightarrow> u16" where
  "icmp_checksum b =
     (let acc = icmp_sum b 0;
          acc = drop_bit 16 acc + (acc AND 0xFFFF);
          acc = acc + drop_bit 16 acc
      in ucast (NOT acc))"

lemma unat_lt2p: "unat (w :: 'a::len word) < 2 ^ LENGTH('a)"
  by (rule unsigned_less)

lemma unat_lo16: "unat ((acc :: u32) AND 0xFFFF) = unat acc mod 65536"
proof -
  have "acc AND 0xFFFF = take_bit 16 acc" by (simp add: take_bit_eq_mask mask_eq_exp_minus_1)
  then show ?thesis by (simp only: unsigned_take_bit_eq) (simp add: take_bit_eq_mod)
qed

lemma unat_hi16: "unat (drop_bit 16 (acc :: u32)) = unat acc div 65536"
  by (simp add: drop_bit_eq_div unat_div)

text \<open>One fold keeps the value modulo \<open>65535\<close> and makes it smaller.\<close>

lemma unat_fold: "unat ((acc AND 0xFFFF) + drop_bit 16 (acc :: u32)) = unat acc mod 65536 + unat acc div 65536"
proof -
  have "unat acc mod 65536 < 65536" "unat acc div 65536 < 65536"
    using unat_lt2p [of acc] by (auto simp: less_mult_imp_div_less)
  then show ?thesis by (subst unat_add_no_wrap) (simp_all add: unat_lo16 unat_hi16)
qed

lemma fold_less: "65536 \<le> (n :: nat) \<Longrightarrow> n mod 65536 + n div 65536 < n"
proof -
  assume "65536 \<le> n"
  then have "1 \<le> n div 65536" using div_le_mono [of 65536 n 65536] by simp
  moreover have "65536 * (n div 65536) + n mod 65536 = n" by (rule mult_div_mod_eq)
  ultimately show ?thesis by linarith
qed

text \<open>\<^verbatim>\<open>while (sum >> 16) sum = (sum & 0xffff) + (sum >> 16);\<close>\<close>

function fold16 :: "u32 \<Rightarrow> u32" where
  "fold16 acc = (if drop_bit 16 acc = 0 then acc else fold16 ((acc AND 0xFFFF) + drop_bit 16 acc))"
  by auto

termination
proof (relation "measure unat")
  fix acc :: u32
  assume "drop_bit 16 acc \<noteq> 0"
  then have "unat acc div 65536 \<noteq> 0" using unat_hi16 [of acc] unat_0_iff [of "drop_bit 16 acc"] by simp
  then have "65536 \<le> unat acc" by (simp add: not_less [symmetric])
  then show "((acc AND 0xFFFF) + drop_bit 16 acc, acc) \<in> measure unat" by (simp add: unat_fold fold_less)
qed simp

declare fold16.simps [simp del]

definition udp4_calc_checksum :: "u32 \<Rightarrow> u32 \<Rightarrow> u8 list \<Rightarrow> u8 list \<Rightarrow> u16" where
  "udp4_calc_checksum src dst header payl =
     (let acc = (drop_bit 16 src AND 0xFFFF) + (src AND 0xFFFF);
          acc = acc + (drop_bit 16 dst AND 0xFFFF) + (dst AND 0xFFFF);
          acc = acc + ucast (htons 17) + ucast (htons (8 + of_nat (length payl)));
          acc = foldl (\<lambda>acc w. acc + ucast w) acc (words16 header);
          acc = icmp_sum payl acc
      in ucast (NOT (fold16 acc) AND 0xFFFF))"

subsection \<open>The ones' complement sum\<close>

text \<open>The representative in \<open>{0..65535}\<close> that ones' complement addition yields: 0 only for a zero sum.\<close>

definition oc :: "nat \<Rightarrow> nat" where
  "oc t = (if t = 0 then 0 else (t - 1) mod 65535 + 1)"

lemma oc_le: "oc t \<le> 65535"
proof -
  have "(t - 1) mod 65535 < 65535" by simp
  then have "(t - 1) mod 65535 + 1 \<le> 65535" by linarith
  then show ?thesis by (simp only: oc_def split: if_split) simp
qed

lemma oc_small: "t \<le> 65535 \<Longrightarrow> oc t = t"
  by (auto simp: oc_def)

lemma oc_fold: "oc (n mod 65536 + n div 65536) = oc n"
proof (cases "n = 0")
  case False
  let ?f = "n mod 65536 + n div 65536"
  have n: "n = ?f + 65535 * (n div 65536)" using mult_div_mod_eq [of 65536 n] by linarith
  have "?f \<noteq> 0" using False mult_div_mod_eq [of 65536 n] by auto
  then have "n - 1 = (?f - 1) + 65535 * (n div 65536)" using n by linarith
  then have "(n - 1) mod 65535 = (?f - 1) mod 65535" by (metis mod_mult_self2)
  then show ?thesis using False \<open>?f \<noteq> 0\<close> by (simp add: oc_def)
qed simp

lemma oc_add: "oc (oc a + b) = oc (a + b)"
proof (cases "a = 0")
  case False
  have "a + b - 1 = (a - 1) + b" "oc a + b - 1 = (a - 1) mod 65535 + b" using False by (simp_all add: oc_def)
  then show ?thesis using False by (simp add: oc_def mod_add_left_eq)
qed (simp add: oc_def)

lemma fold_once: "(n :: nat) \<le> 131070 \<Longrightarrow> n mod 65536 + n div 65536 \<le> 65535"
proof -
  assume n: "n \<le> 131070"
  have "n = 65536 * (n div 65536) + n mod 65536" "n mod 65536 < 65536" by simp_all
  moreover have "n div 65536 \<le> 1" using div_le_mono [OF n, of 65536] by simp
  ultimately show ?thesis using n by (cases "n div 65536 = 0") linarith+
qed

lemma unat_csum_add:
  assumes "unat acc \<le> 65535"
  shows "unat (csum_add acc w) = oc (unat acc + unat (ntohs w))"
proof -
  let ?s = "acc + ucast (ntohs w)"
  have w: "unat (ucast (ntohs w) :: u32) = unat (ntohs w)" "unat (ntohs w) \<le> 65535"
    using unat_lt2p [of "ntohs w"] by (simp_all add: unsigned_ucast_eq take_bit_nat_eq_self)
  then have s: "unat ?s = unat acc + unat (ntohs w)" using assms by (subst unat_add_no_wrap) simp_all
  have "unat (drop_bit 16 ?s + (?s AND 0xFFFF)) = unat ?s mod 65536 + unat ?s div 65536"
    using unat_fold [of ?s] by (simp add: add.commute)
  moreover have "unat ?s mod 65536 + unat ?s div 65536 \<le> 65535" using s w assms by (intro fold_once) simp
  ultimately show ?thesis using oc_fold [of "unat ?s"] s w assms oc_small [of "unat ?s mod 65536 + unat ?s div 65536"]
    by (auto simp: csum_add_def Let_def word_less_nat_alt oc_small)
qed

lemma unat_csum_fold: "unat acc \<le> 65535 \<Longrightarrow> unat (foldl csum_add acc ws) = oc (unat acc + (\<Sum>w\<leftarrow>ws. unat (ntohs w)))"
proof (induction ws arbitrary: acc)
  case Nil
  then show ?case by (simp add: oc_small)
next
  case (Cons w ws)
  have "unat (csum_add acc w) \<le> 65535" using unat_csum_add [OF Cons.prems] oc_le by simp
  from Cons.IH [OF this] show ?case
    using oc_add [of "unat acc + unat (ntohs w)"] by (simp add: unat_csum_add [OF Cons.prems] add.assoc)
qed

lemma fold16_unat: "unat (fold16 acc) = oc (unat acc)"
proof (induction acc rule: fold16.induct)
  case (1 acc)
  show ?case
  proof (cases "drop_bit 16 acc = 0")
    case True
    then have "unat acc div 65536 = 0" using unat_hi16 [of acc] by simp
    then have "unat acc \<le> 65535" by (simp add: div_eq_0_iff)
    then show ?thesis using True by (subst fold16.simps) (simp add: oc_small)
  next
    case False
    then show ?thesis using 1 by (subst fold16.simps) (simp add: unat_fold oc_fold)
  qed
qed

subsection \<open>What the routines return\<close>

lemma not_lo16: "ucast (NOT ((acc :: u32) AND 0xFFFF) AND 0xFFFF) = (NOT (ucast acc) :: u16)"
  "ucast (NOT ((acc :: u32) AND 0xFFFF)) = (NOT (ucast acc) :: u16)"
  "ucast (NOT (acc :: u32) AND 0xFFFF) = (NOT (ucast acc) :: u16)"
proof -
  have m: "(0xFFFF :: u32) = mask 16" by (simp add: mask_eq_exp_minus_1)
  show "ucast (NOT (acc AND 0xFFFF) AND 0xFFFF) = (NOT (ucast acc) :: u16)"
    "ucast (NOT (acc AND 0xFFFF)) = (NOT (ucast acc) :: u16)"
    "ucast (NOT acc AND 0xFFFF) = (NOT (ucast acc) :: u16)"
    unfolding m by (rule bit_eqI; simp add: bit_simps)+
qed

lemma unat_not16: "unat (NOT w :: u16) = 65535 - unat w"
proof -
  have "NOT w = - 1 - w" by (simp add: not_eq_complement)
  moreover have "unat (- 1 - w) = unat (- 1 :: u16) - unat w" by (rule unat_sub) simp
  moreover have "unat (- 1 :: u16) = 65535" by (simp add: unsigned_minus_1_eq_mask mask_eq_exp_minus_1)
  ultimately show ?thesis by simp
qed

lemma ucast_oc: "unat (acc :: u32) = oc t \<Longrightarrow> unat (ucast acc :: u16) = oc t"
  using oc_le [of t] by (simp add: unsigned_ucast_eq take_bit_nat_eq_self)

lemma foldl_sum:
  "unat acc + (\<Sum>w\<leftarrow>ws. unat w) < 2 ^ 32 \<Longrightarrow>
   unat (foldl (\<lambda>acc w. acc + ucast (w :: u16)) (acc :: u32) ws) = unat acc + (\<Sum>w\<leftarrow>ws. unat w)"
proof (induction ws arbitrary: acc)
  case (Cons w ws)
  have "unat (ucast w :: u32) = unat w"
    using unat_lt2p [of w] by (simp add: unsigned_ucast_eq take_bit_nat_eq_self)
  then have "unat (acc + ucast w) = unat acc + unat w" using Cons.prems by (subst unat_add_no_wrap) simp_all
  then show ?case using Cons by simp
qed simp

text \<open>The number \<open>icmp_sum\<close> adds for a run of bytes.\<close>

fun wsum :: "u8 list \<Rightarrow> nat" where
  "wsum (a # b # bs) = unat (un16 a b) + wsum bs"
| "wsum [a] = unat a"
| "wsum [] = 0"

lemma wsum_le: "wsum bs \<le> 65535 * ((length bs + 1) div 2)"
proof (induction bs rule: wsum.induct)
  case (1 a b bs)
  have "unat (un16 a b) \<le> 65535" using unat_lt2p [of "un16 a b"] by simp
  then show ?case using 1 by simp
next
  case (2 a)
  show ?case using unat_lt2p [of a] by simp
qed simp

lemma icmp_sum_unat: "unat acc + wsum bs < 2 ^ 32 \<Longrightarrow> unat (icmp_sum bs acc) = unat acc + wsum bs"
proof (induction bs acc rule: icmp_sum.induct)
  case (1 a b bs acc)
  have "unat (ucast (un16 a b) :: u32) = unat (un16 a b)"
    using unat_lt2p [of "un16 a b"] by (simp add: unsigned_ucast_eq take_bit_nat_eq_self)
  then have "unat (acc + ucast (un16 a b)) = unat acc + unat (un16 a b)"
    using 1 by (subst unat_add_no_wrap) simp_all
  then show ?case using 1 by simp
next
  case (2 a acc)
  have "unat (ucast a :: u32) = unat a" using unat_lt2p [of a] by (simp add: unsigned_ucast_eq take_bit_nat_eq_self)
  then show ?case using 2 by (subst icmp_sum.simps, subst unat_add_no_wrap) simp_all
qed simp

lemma un16_le16 [simp]: "un16 (ucast w) (ucast (drop_bit 8 (w :: u16))) = w"
  unfolding un16_def by (rule bit_eqI) (auto simp: bit_simps)

lemma words16_le16 [simp]: "words16 (le16 w @ bs) = w # words16 bs"
  by (simp add: le16_def)

lemma words16_append: "even (length xs) \<Longrightarrow> words16 (xs @ ys) = words16 xs @ words16 ys"
  by (induction xs rule: words16.induct) auto

subsection \<open>Properties of the checksums\<close>

text \<open>The words of a payload, an odd last byte completed by a zero byte.\<close>

fun padded16 :: "u8 list \<Rightarrow> u16 list" where
  "padded16 (a # b # bs) = un16 a b # padded16 bs"
| "padded16 [a] = [un16 a 0]"
| "padded16 [] = []"

lemma padded16_words16:
  "padded16 bs = words16 bs @ (if even (length bs) then [] else [un16 (bs ! (length bs - 1)) 0])"
proof (induction bs rule: padded16.induct)
  case (1 a b bs)
  then show ?case by (cases bs) auto
qed auto

lemma words16_length [simp]: "length (words16 bs) = length bs div 2"
  by (induction bs rule: words16.induct) auto

lemma foldl_result: "unat acc = oc t \<Longrightarrow> (NOT (ucast (acc :: u32)) :: u16) = NOT (of_nat (oc t))"
proof -
  assume "unat acc = oc t"
  then have "of_nat (oc t) = (of_nat (unat (ucast acc :: u16)) :: u16)" by (simp only: ucast_oc)
  then show ?thesis by simp
qed

text \<open>C14. The folding loops of the IPv4 and TCP checksums compute the ones' complement of the ones' complement
  sum of the big-endian 16-bit words, for every header and every payload shorter than 128 KiB: for IPv4
  the checksum field counts as zero, for TCP the pseudo header, the header and the payload are summed and an
  odd last byte is completed by a zero byte.\<close>

theorem checksum_ones_complement:
  assumes "length header < 512" and "length payl < 131072"
  shows "ipv4_calculate_checksum data =
      NOT (of_nat (oc (\<Sum>w\<leftarrow>words16 (data[10 := 0, 11 := 0]). unat (ntohs w)))) \<and>
    tcp_ip4_calc_checksum prot header payl (length payl) =
      NOT (of_nat (oc (\<Sum>w\<leftarrow>words16 prot @ words16 header @ padded16 payl. unat (ntohs w))))"
proof
  show "ipv4_calculate_checksum data =
      NOT (of_nat (oc (\<Sum>w\<leftarrow>words16 (data[10 := 0, 11 := 0]). unat (ntohs w))))"
    unfolding ipv4_calculate_checksum_def Let_def not_lo16(1)
    by (rule foldl_result) (simp add: unat_csum_fold)
  have hs: "unat (of_nat (length header div 2) :: u8) = length header div 2"
    using assms(1) by (simp add: unat_of_nat)
  have ds: "unat (of_nat (length payl div 2) :: u16) = length payl div 2"
    using assms(2) by (simp add: unat_of_nat)
  have odd: "(length payl div 2) * 2 \<noteq> length payl \<longleftrightarrow> odd (length payl)" by presburger
  have last: "odd (length payl) \<Longrightarrow> (length payl div 2) * 2 = length payl - 1" by presburger
  have "tcp_ip4_calc_checksum prot header payl (length payl) =
      NOT (ucast (foldl csum_add 0 (words16 prot @ words16 header @ padded16 payl)))"
    unfolding tcp_ip4_calc_checksum_def Let_def not_lo16(2) hs ds odd
    by (auto simp: padded16_words16 last)
  also have "\<dots> = NOT (of_nat (oc (\<Sum>w\<leftarrow>words16 prot @ words16 header @ padded16 payl. unat (ntohs w))))"
    by (rule foldl_result) (simp add: unat_csum_fold del: foldl_append)
  finally show "tcp_ip4_calc_checksum prot header payl (length payl) =
      NOT (of_nat (oc (\<Sum>w\<leftarrow>words16 prot @ words16 header @ padded16 payl. unat (ntohs w))))" .
qed

theorem checksum_ones_complement_witness:
  "tcp_ip4_calc_checksum [1, 2] [3, 4] [0xFF, 0xFF, 5] 3 =
     NOT (of_nat (oc (\<Sum>w\<leftarrow>words16 [1, 2] @ words16 [3, 4] @ padded16 [0xFF, 0xFF, 5]. unat (ntohs w))))"
  using checksum_ones_complement [of "[3, 4]" "[0xFF, 0xFF, 5]" "[]" "[1, 2]"] by (simp add: numeral_3_eq_3)

text \<open>C15. The checksum \<open>sock_udp4_sendto\<close> stores in a datagram verifies: recomputed by \<open>udp_ip4_handle\<close> over the
  header with the checksum in place, the result is zero, whatever the addresses, the ports, the announced
  length and the payload, up to the largest UDP payload.\<close>

theorem udp_checksum_verifies:
  assumes "length payl \<le> 65527"
  shows "udp4_calc_checksum src dst (le16 sp @ le16 dp @ le16 len @
           le16 (udp4_calc_checksum src dst (le16 sp @ le16 dp @ le16 len @ le16 0) payl)) payl = 0"
proof -
  define acc0 where "acc0 = (drop_bit 16 src AND 0xFFFF) + (src AND 0xFFFF) + (drop_bit 16 dst AND 0xFFFF) +
    (dst AND 0xFFFF) + ucast (htons 17) + ucast (htons (8 + of_nat (length payl)))"
  define T where "T = unat acc0 + unat sp + unat dp + unat len + wsum payl"
  have lo: "unat (w AND 0xFFFF) < 65536" for w :: u32 by (simp add: unat_lo16)
  have uc: "unat (ucast w :: u32) < 65536" for w :: u16
    using unat_lt2p [of w] by (simp add: unsigned_ucast_eq take_bit_nat_eq_self)
  have a0: "unat acc0 < 6 * 65536"
    unfolding acc0_def
    using lo [of "drop_bit 16 src"] lo [of src] lo [of "drop_bit 16 dst"] lo [of dst] uc [of "htons 17"]
      uc [of "htons (8 + of_nat (length payl))"]
    by (subst unat_add_no_wrap; simp)+
  have p: "wsum payl \<le> 65535 * 32764" using wsum_le [of payl] assms by (auto intro: order.trans)
  have w16: "unat (w :: u16) < 65536" for w using unat_lt2p [of w] by simp
  have val: "udp4_calc_checksum src dst (le16 sp @ le16 dp @ le16 len @ le16 c) payl =
      NOT (of_nat (oc (T + unat c)))" for c
  proof -
    have hd: "words16 (le16 sp @ le16 dp @ le16 len @ le16 c) = [sp, dp, len, c]"
      using words16_le16 [of c "[]"] by simp
    have small: "unat acc0 + (unat sp + (unat dp + (unat len + unat c))) < 2 ^ 31"
      using a0 w16 [of sp] w16 [of dp] w16 [of len] w16 [of c] by simp
    have "unat (foldl (\<lambda>acc w. acc + ucast w) acc0 [sp, dp, len, c]) =
        unat acc0 + (unat sp + (unat dp + (unat len + unat c)))"
      using small by (subst foldl_sum) simp_all
    then have "unat (icmp_sum payl (foldl (\<lambda>acc w. acc + ucast w) acc0 [sp, dp, len, c])) = T + unat c"
      using small p by (subst icmp_sum_unat) (simp_all add: T_def)
    then show ?thesis
      unfolding udp4_calc_checksum_def Let_def not_lo16(3) hd add.assoc [symmetric] acc0_def [symmetric]
      by (intro foldl_result) (simp add: fold16_unat)
  qed
  define c where "c = udp4_calc_checksum src dst (le16 sp @ le16 dp @ le16 len @ le16 0) payl"
  have "unat c = 65535 - oc T"
    using val [of 0] oc_le [of T] by (simp add: c_def unat_not16 unat_of_nat)
  then have "oc (T + unat c) = 65535"
    using oc_add [of T "unat c"] oc_le [of T] oc_small [of 65535] by simp
  then have "NOT (of_nat (oc (T + unat c)) :: u16) = 0" by simp
  then show ?thesis using val [of c] by (simp add: c_def)
qed

theorem udp_checksum_verifies_witness:
  "udp4_calc_checksum 0x0100007F 0x0100007F (le16 0x1234 @ le16 0x3500 @ le16 0x0B00 @
     le16 (udp4_calc_checksum 0x0100007F 0x0100007F (le16 0x1234 @ le16 0x3500 @ le16 0x0B00 @ le16 0) [1, 2, 3])) [1, 2, 3] = 0"
  by (rule udp_checksum_verifies) simp

end
