(* ===== verification/Inet.thy ===== *)
theory Inet
  imports Checksum
begin

text \<open>
  Interfaces, routing, address resolution, and the sending side of Ethernet and IPv4 with ICMP: \<^verbatim>\<open>dev/type/nic.c\<close>,
  \<^verbatim>\<open>net/route.c\<close>, \<^verbatim>\<open>net/arp.c\<close>, \<^verbatim>\<open>net/eth.c\<close>, \<^verbatim>\<open>net/ipv4/ipv4.c\<close>, \<^verbatim>\<open>net/ipv4/icmp.c\<close>. The receiving side, which dispatches to
  the transport protocols, is in theory Ipstack.
\<close>

subsection \<open>Interfaces: \<^verbatim>\<open>dev/type/nic.c\<close>\<close>

definition NIC_FLAG_LOOPBACK :: u32 where "NIC_FLAG_LOOPBACK = 8"

definition get_nic :: "nat \<Rightarrow> net \<Rightarrow> ptr" where
  "get_nic index s = (if index < length (nic_list s) then nic_list s ! index else NULL)"

text \<open>The loop of \<open>get_nic_by_name_unlocked\<close>; names are the bytes before the terminator.\<close>

fun find_nic :: "(ptr \<rightharpoonup> nic) \<Rightarrow> ptr list \<Rightarrow> u8 list \<Rightarrow> ptr option" where
  "find_nic ns [] name = Some NULL"
| "find_nic ns (p # ps) name = do { nic \<leftarrow> ns p; if nic_name nic = name then Some p else find_nic ns ps name }"

definition get_nic_by_name :: "u8 list \<Rightarrow> net \<Rightarrow> ptr option" where
  "get_nic_by_name name s = find_nic (nics s) (nic_list s) name"

definition unregister_nic :: "ptr \<Rightarrow> net \<Rightarrow> int \<times> net" where
  "unregister_nic nic s = (0, s\<lparr>nic_list := remove1 nic (nic_list s)\<rparr>)"

definition nic_set_addr_ip4 :: "ptr \<Rightarrow> u32 \<Rightarrow> net \<Rightarrow> (int \<times> net) option" where
  "nic_set_addr_ip4 p addr s = do {
     nic \<leftarrow> nics s p;
     if nic_flags nic AND NIC_FLAG_LOOPBACK \<noteq> 0 then Some (- ENOSYS, s)
     else Some (0, s\<lparr>nics := (nics s)(p \<mapsto> nic\<lparr>ipv4_addr := addr\<rparr>)\<rparr>)
   }"

definition nic_set_subnetmask_ip4 :: "ptr \<Rightarrow> u32 \<Rightarrow> net \<Rightarrow> (int \<times> net) option" where
  "nic_set_subnetmask_ip4 p subnet s = do {
     nic \<leftarrow> nics s p;
     if nic_flags nic AND NIC_FLAG_LOOPBACK \<noteq> 0 then Some (- ENOSYS, s)
     else Some (0, s\<lparr>nics := (nics s)(p \<mapsto> nic\<lparr>ipv4_subnet := subnet\<rparr>)\<rparr>)
   }"

subsection \<open>Routes: \<^verbatim>\<open>route.c\<close>\<close>

text \<open>The search loop: the route chosen so far and the default route.\<close>

fun route4_loop :: "u32 \<Rightarrow> route4 list \<Rightarrow> route4 option \<Rightarrow> route4 option \<Rightarrow> route4 option \<times> route4 option" where
  "route4_loop dst [] chosen default_route = (chosen, default_route)"
| "route4_loop dst (route # rest) chosen default_route =
     (let default_route = (if dest route = 0 then Some route else default_route)
      in if dest route = dst then (Some route, default_route)
         else let masked_route = dest route AND netmask route;
                  masked_dest = dst AND netmask route;
                  chosen = (if dest route \<noteq> 0 \<and> masked_route = masked_dest then Some route else chosen)
              in route4_loop dst rest chosen default_route)"

definition route4_resolve :: "u32 \<Rightarrow> net \<Rightarrow> route4 option" where
  "route4_resolve dst s =
     (let (chosen, default_route) = route4_loop dst (route_table4 s) None None
      in case chosen of None \<Rightarrow> default_route | Some r \<Rightarrow> Some r)"

definition route4_get :: "nat \<Rightarrow> net \<Rightarrow> route4 option" where
  "route4_get index s = (if index < length (route_table4 s) then Some (route_table4 s ! index) else None)"

definition route4_add :: "route4 \<Rightarrow> net \<Rightarrow> int \<times> net" where
  "route4_add route s =
     (if \<exists>exroute\<in>set (route_table4 s). dest exroute = dest route \<and> gateway exroute = gateway route \<and>
           netmask exroute = netmask route \<and> rt_interface exroute = rt_interface route
      then (- EEXIST, s)
      else (0, s\<lparr>route_table4 := route_table4 s @ [route]\<rparr>))"

subsection \<open>Ethernet, sending: \<^verbatim>\<open>eth.c\<close>\<close>

definition ETH_TYPE_ARP :: u16 where "ETH_TYPE_ARP = 0x0806"
definition ETH_TYPE_IPV4 :: u16 where "ETH_TYPE_IPV4 = 0x0800"

definition mac_is_broadcast :: "u8 list \<Rightarrow> bool" where
  "mac_is_broadcast mac = (\<forall>i<6. mac ! i = 0xFF)"

definition ethernet_frame :: "u8 list \<Rightarrow> u8 list \<Rightarrow> u16 \<Rightarrow> u8 list" where
  "ethernet_frame dst src ty = dst @ src @ le16 ty"

definition eth_send_nbuffer :: "env \<Rightarrow> ptr \<Rightarrow> u8 list \<Rightarrow> u16 \<Rightarrow> net \<Rightarrow> (int \<times> net) option" where
  "eth_send_nbuffer E p dst ty s = do {
     nb \<leftarrow> nbufs s p;
     nic \<leftarrow> nics s (netdev nb);
     nb \<leftarrow> net_buffer_add_front (ethernet_frame dst (nic_mac nic) (htons ty)) nb;
     data \<leftarrow> rd (buffer nb) (cursor nb) (unat (cur_len nb));
     Some (tx_rc E (netdev nb) data, (put_nb p nb s)\<lparr>out := out s @ [(netdev nb, data)]\<rparr>)
   }"

subsection \<open>Address resolution: \<^verbatim>\<open>arp.c\<close>\<close>

definition ARP_HTYPE_ETHERNET :: u16 where "ARP_HTYPE_ETHERNET = 0x0001"
definition ARP_PTYPE_IPV4 :: u16 where "ARP_PTYPE_IPV4 = 0x0800"
definition ARP_OPER_REQ :: u16 where "ARP_OPER_REQ = 0x0001"
definition ARP_OPER_RESP :: u16 where "ARP_OPER_RESP = 0x0002"
definition ARP_NETBUF_DEFAULT_SIZE :: nat where "ARP_NETBUF_DEFAULT_SIZE = 256"

text \<open>The packed \<^verbatim>\<open>struct arp_header\<close>.\<close>

definition arp_header :: "u16 \<Rightarrow> u8 list \<Rightarrow> u8 list \<Rightarrow> u8 list \<Rightarrow> u8 list \<Rightarrow> u8 list" where
  "arp_header oper sha spa tha tpa =
     le16 (htons ARP_HTYPE_ETHERNET) @ le16 (htons ARP_PTYPE_IPV4) @ [6, 4] @ le16 (htons oper) @
     sha @ spa @ tha @ tpa"

definition get_arp_cache_entry :: "u32 \<Rightarrow> net \<Rightarrow> arp_v4_cache_entry option" where
  "get_arp_cache_entry addr s = find (\<lambda>e. ae_addr e = addr) (arp_cache s)"

definition arp_cache_add :: "u32 \<Rightarrow> u8 list \<Rightarrow> net \<Rightarrow> net option" where
  "arp_cache_add addr mac s =
     (case get_arp_cache_entry addr s of
        Some _ \<Rightarrow> Some s
      | None \<Rightarrow>
          let (new_entry, s) = kalloc s
          in if new_entry = NULL then None
             else Some (s\<lparr>arp_cache := arp_cache s @ [\<lparr>ae_addr = addr, ae_mac = mac\<rparr>]\<rparr>))"

text \<open>A buffer with one header, sent and released again.\<close>

definition arp_send :: "env \<Rightarrow> u8 list \<Rightarrow> ptr \<Rightarrow> u8 list \<Rightarrow> net \<Rightarrow> net option" where
  "arp_send E hdr nic dst s =
     (let (p, s) = new_net_buffer_out ARP_NETBUF_DEFAULT_SIZE s
      in do {
        s \<leftarrow> on_nb p (net_buffer_add_front hdr) s;
        s \<leftarrow> on_nb p (\<lambda>nb. Some (nb\<lparr>netdev := nic\<rparr>)) s;
        (rc, s) \<leftarrow> eth_send_nbuffer E p dst ETH_TYPE_ARP s;
        net_buffer_free p s
      })"

definition arp_handle_packet :: "env \<Rightarrow> ptr \<Rightarrow> net \<Rightarrow> net option" where
  "arp_handle_packet E p s = do {
     nb \<leftarrow> nbufs s p;
     let b = buffer nb;
     let arph = cursor nb;
     oper \<leftarrow> ld16 b (arph + 6);
     ptype \<leftarrow> ld16 b (arph + 2);
     if ntohs oper = ARP_OPER_REQ then
       if ntohs ptype = ARP_PTYPE_IPV4 then do {
         spa \<leftarrow> ld32 b (arph + 14);
         sha \<leftarrow> rd b (arph + 8) 6;
         s \<leftarrow> arp_cache_add spa sha s;
         tpa \<leftarrow> ld32 b (arph + 24);
         nic \<leftarrow> nics s (netdev nb);
         if tpa = ipv4_addr nic
         then arp_send E (arp_header ARP_OPER_RESP (nic_mac nic) (le32 (ipv4_addr nic)) sha (le32 spa)) (netdev nb) sha s
         else Some s
       } else Some s
     else if ntohs oper = ARP_OPER_RESP then
       if ntohs ptype = ARP_PTYPE_IPV4 then do {
         spa \<leftarrow> ld32 b (arph + 14);
         sha \<leftarrow> rd b (arph + 8) 6;
         arp_cache_add spa sha s
       } else Some s
     else Some s
   }"

definition arp_send_request :: "env \<Rightarrow> ptr \<Rightarrow> u32 \<Rightarrow> net \<Rightarrow> net option" where
  "arp_send_request E nicp addr s = do {
     nic \<leftarrow> nics s nicp;
     arp_send E (arp_header ARP_OPER_REQ (nic_mac nic) (le32 (ipv4_addr nic)) (junk E) (le32 addr)) nicp
       (replicate 6 0xFF) s
   }"

fun arp_rounds :: "env \<Rightarrow> nat \<Rightarrow> u32 \<Rightarrow> net \<Rightarrow> arp_v4_cache_entry option \<times> net" where
  "arp_rounds E 0 addr s = (None, s)"
| "arp_rounds E (Suc n) addr s =
     (let s = sleep E s
      in case get_arp_cache_entry addr s of Some e \<Rightarrow> (Some e, s) | None \<Rightarrow> arp_rounds E n addr s)"

definition arp_get_ip4 :: "env \<Rightarrow> ptr \<Rightarrow> u32 \<Rightarrow> net \<Rightarrow> (u8 list option \<times> net) option" where
  "arp_get_ip4 E nic addr s =
     (case get_arp_cache_entry addr s of
        Some e \<Rightarrow> Some (Some (ae_mac e), s)
      | None \<Rightarrow> do {
          s \<leftarrow> arp_send_request E nic addr s;
          let (entry, s) = arp_rounds E 10 addr s;
          Some (map_option ae_mac entry, s)
        })"

subsection \<open>IPv4, sending: \<^verbatim>\<open>ipv4.c\<close>\<close>

definition IPV4_MAX_PROTOCOLS :: nat where "IPV4_MAX_PROTOCOLS = 20"
definition IPV4_PROTOCOL_TCP :: u8 where "IPV4_PROTOCOL_TCP = 6"
definition IPV4_PROTOCOL_UDP :: u8 where "IPV4_PROTOCOL_UDP = 17"
definition IPV4_PROTOCOL_ICMP :: u8 where "IPV4_PROTOCOL_ICMP = 1"
definition IPV4_DEFAULT_TTL :: u8 where "IPV4_DEFAULT_TTL = 64"
definition IP_FLAG_DF :: u16 where "IP_FLAG_DF = 0x4000"

definition ip4_register_protocol :: "ip4_handler \<Rightarrow> nat \<Rightarrow> net \<Rightarrow> int \<times> net" where
  "ip4_register_protocol protocol proto s =
     (if proto \<ge> IPV4_MAX_PROTOCOLS then (- EINVAL, s)
      else (0, s\<lparr>protocols := (protocols s)(proto := Some protocol)\<rparr>))"

text \<open>The packed \<^verbatim>\<open>struct ip4_packet\<close>.\<close>

definition ip4_packet :: "u8 \<Rightarrow> u16 \<Rightarrow> u8 \<Rightarrow> u8 \<Rightarrow> u16 \<Rightarrow> u32 \<Rightarrow> u32 \<Rightarrow> u8 list" where
  "ip4_packet version_ihl sz ttl protocol checksum src_ip dst_ip =
     [version_ihl, 0] @ le16 sz @ le16 0 @ le16 (htons IP_FLAG_DF) @ [ttl, protocol] @ le16 checksum @
     le32 src_ip @ le32 dst_ip"

definition ip4_get_destination_mac :: "env \<Rightarrow> route4 \<Rightarrow> u32 \<Rightarrow> net \<Rightarrow> (u8 list option \<times> net) option" where
  "ip4_get_destination_mac E route dest_addr s =
     (if gateway route \<noteq> 0 then arp_get_ip4 E (rt_interface route) (gateway route) s
      else arp_get_ip4 E (rt_interface route) dest_addr s)"

definition ip4_send_ttl :: "env \<Rightarrow> ptr \<Rightarrow> route4 option \<Rightarrow> u32 \<Rightarrow> u8 \<Rightarrow> u8 \<Rightarrow> net \<Rightarrow> (int \<times> net) option" where
  "ip4_send_ttl E p route dst prot ttl s =
     (case route of
        None \<Rightarrow> Some (- ENETUNREACH, s)
      | Some route \<Rightarrow> do {
          nic \<leftarrow> nics s (rt_interface route);
          nb \<leftarrow> nbufs s p;
          let len = net_buffer_get_remain_len nb + 20;
          let pkt = ip4_packet 0x45 (htons (ucast len)) ttl prot 0 (ipv4_addr nic) dst;
          let pkt = ip4_packet 0x45 (htons (ucast len)) ttl prot (htons (ipv4_calculate_checksum pkt))
                      (ipv4_addr nic) dst;
          nb \<leftarrow> net_buffer_add_front pkt nb;
          let s = put_nb p (nb\<lparr>netdev := rt_interface route\<rparr>) s;
          (mac, s) \<leftarrow> ip4_get_destination_mac E route dst s;
          case mac of
            None \<Rightarrow> Some (- ENETUNREACH, s)
          | Some mac \<Rightarrow> eth_send_nbuffer E p mac ETH_TYPE_IPV4 s
        })"

definition ip4_send :: "env \<Rightarrow> ptr \<Rightarrow> route4 option \<Rightarrow> u32 \<Rightarrow> u8 \<Rightarrow> net \<Rightarrow> (int \<times> net) option" where
  "ip4_send E p route dst prot s = ip4_send_ttl E p route dst prot IPV4_DEFAULT_TTL s"

subsection \<open>ICMP: \<^verbatim>\<open>icmp.c\<close>\<close>

definition ICMP_ECHOREPLY :: u8 where "ICMP_ECHOREPLY = 0"
definition ICMP_ECHO :: u8 where "ICMP_ECHO = 8"

definition icmp_header :: "u8 \<Rightarrow> u16 \<Rightarrow> u16 \<Rightarrow> u16 \<Rightarrow> u8 list" where
  "icmp_header ty checksum ident sequence = [ty, 0] @ le16 checksum @ le16 ident @ le16 sequence"

definition icmp_ip4_handle_ping :: "env \<Rightarrow> ptr \<Rightarrow> net \<Rightarrow> net option" where
  "icmp_ip4_handle_ping E p s = do {
     nb \<leftarrow> nbufs s p;
     ident \<leftarrow> ld16 (buffer nb) (transp_header nb + 4);
     sequence \<leftarrow> ld16 (buffer nb) (transp_header nb + 6);
     src_ip \<leftarrow> ld32 (buffer nb) (netw_header nb + 12);
     let hdr = icmp_header ICMP_ECHOREPLY (icmp_checksum (icmp_header ICMP_ECHOREPLY 0 ident sequence)) ident sequence;
     case route4_resolve src_ip s of
       None \<Rightarrow> Some s
     | Some route \<Rightarrow>
         let (resp, s) = new_net_buffer_out 256 s
         in do {
           s \<leftarrow> on_nb resp (\<lambda>nb. Some (nb\<lparr>netdev := rt_interface route\<rparr>)) s;
           s \<leftarrow> net_buffer_acquire resp s;
           s \<leftarrow> on_nb resp (net_buffer_add_front hdr) s;
           (rc, s) \<leftarrow> ip4_send E resp (Some route) src_ip IPV4_PROTOCOL_ICMP s;
           net_buffer_free resp s
         }
   }"

text \<open>The checksum of the request is computed (over all the bytes the IP header announces) but only reported.\<close>

definition icmp_ip4_handle :: "env \<Rightarrow> ptr \<Rightarrow> net \<Rightarrow> (int \<times> net) option" where
  "icmp_ip4_handle E p s = do {
     nb \<leftarrow> nbufs s p;
     checked \<leftarrow> rd (buffer nb) (transp_header nb) (nat (sint (ucast (netw_packet_size nb) :: u32)));
     s \<leftarrow> net_buffer_acquire p s;
     ty \<leftarrow> ld8 (buffer nb) (transp_header nb);
     s \<leftarrow> (if ty = ICMP_ECHO then icmp_ip4_handle_ping E p s else Some s);
     s \<leftarrow> net_buffer_free p s;
     Some (0, s)
   }"

definition icmp_ip4_init :: "net \<Rightarrow> net" where
  "icmp_ip4_init s = snd (ip4_register_protocol icmp_handler (unat IPV4_PROTOCOL_ICMP) s)"

subsection \<open>The frame a send produces\<close>

text \<open>The address the frame goes to first, and the condition that the route is usable without waiting.\<close>

definition next_hop :: "route4 \<Rightarrow> u32 \<Rightarrow> u32" where
  "next_hop route dst = (if gateway route \<noteq> 0 then gateway route else dst)"

definition path_ready :: "route4 \<Rightarrow> u32 \<Rightarrow> nic \<Rightarrow> u8 list \<Rightarrow> net \<Rightarrow> bool" where
  "path_ready route dst nic mac s \<longleftrightarrow>
     nics s (rt_interface route) = Some nic \<and> length (nic_mac nic) = 6 \<and> length mac = 6 \<and>
     map_option ae_mac (get_arp_cache_entry (next_hop route dst) s) = Some mac"

definition ip4_header :: "u32 \<Rightarrow> u32 \<Rightarrow> u8 \<Rightarrow> u8 \<Rightarrow> nat \<Rightarrow> u8 list" where
  "ip4_header src dst prot ttl n =
     (let sz = htons (of_nat (n + 20))
      in ip4_packet 0x45 sz ttl prot (htons (ipv4_calculate_checksum (ip4_packet 0x45 sz ttl prot 0 src dst))) src dst)"

definition ip4_frame :: "nic \<Rightarrow> u8 list \<Rightarrow> u32 \<Rightarrow> u8 \<Rightarrow> u8 \<Rightarrow> u8 list \<Rightarrow> u8 list" where
  "ip4_frame nic mac dst prot ttl data =
     ethernet_frame mac (nic_mac nic) (htons ETH_TYPE_IPV4) @
     ip4_header (ipv4_addr nic) dst prot ttl (length data) @ data"

lemma ip4_packet_length [simp]: "length (ip4_packet v sz ttl prot c src dst) = 20"
  by (simp add: ip4_packet_def)

lemma ip4_header_length [simp]: "length (ip4_header src dst prot ttl n) = 20"
  by (simp add: ip4_header_def Let_def)

lemma ethernet_frame_length [simp]: "length (ethernet_frame dst src ty) = length dst + length src + 2"
  by (simp add: ethernet_frame_def)

lemma eth_send_fits:
  assumes "nbufs s p = Some nb" and "nics s (netdev nb) = Some nic" and "nb_ok nb"
  shows "eth_send_nbuffer E p dst ty s =
    (let hdr = ethernet_frame dst (nic_mac nic) (htons ty)
     in if length hdr \<le> nb_room nb
        then Some (tx_rc E (netdev nb) (hdr @ nb_contents nb),
                   (put_nb p (nb_push hdr nb) s)\<lparr>out := out s @ [(netdev nb, hdr @ nb_contents nb)]\<rparr>)
        else None)"
proof -
  let ?hdr = "ethernet_frame dst (nic_mac nic) (htons ty)"
  show ?thesis
  proof (cases "length ?hdr \<le> nb_room nb")
    case True
    have "rd (buffer (nb_push ?hdr nb)) (cursor (nb_push ?hdr nb)) (unat (cur_len (nb_push ?hdr nb))) =
        Some (?hdr @ nb_contents nb)"
      using rd_contents [OF nbs.pushed_ok [OF assms(3) True]] nbs.pushed_contents [OF assms(3) True] by simp
    with assms True show ?thesis by (simp add: eth_send_nbuffer_def nbs.push_fits Let_def del: ethernet_frame_length)
  next
    case False
    with assms show ?thesis
      by (simp add: eth_send_nbuffer_def nbs.push_over Let_def del: ethernet_frame_length)
  qed
qed

lemma path_ready_mac:
  assumes "path_ready route dst nic mac s"
  shows "ip4_get_destination_mac E route dst s = Some (Some mac, s)"
  using assms by (auto simp: path_ready_def next_hop_def ip4_get_destination_mac_def arp_get_ip4_def split: if_splits)

lemma path_ready_put_nb [simp]: "path_ready route dst nic mac (put_nb p nb s) = path_ready route dst nic mac s"
  by (simp add: path_ready_def get_arp_cache_entry_def)

lemma path_ready_fresh [simp]: "path_ready route dst nic mac (s\<lparr>fresh := ps\<rparr>) = path_ready route dst nic mac s"
  by (simp add: path_ready_def get_arp_cache_entry_def)

text \<open>Sending a packet of \<open>n\<close> bytes over a ready path needs \<open>34\<close> bytes of room and has no other outcome.\<close>

lemma ip4_send_fits:
  assumes nb: "nbufs s p = Some nb" "nb_ok nb" and path: "path_ready route dst nic mac s"
    and room: "34 \<le> nb_room nb"
  shows "\<exists>nb'. nb_refs nb' = nb_refs nb \<and> ip4_send_ttl E p (Some route) dst prot ttl s =
    (let frame = ip4_frame nic mac dst prot ttl (nb_contents nb)
     in Some (tx_rc E (rt_interface route) frame,
              (put_nb p nb' s)\<lparr>out := out s @ [(rt_interface route, frame)]\<rparr>))"
proof -
  let ?ip = "ip4_header (ipv4_addr nic) dst prot ttl (length (nb_contents nb))"
  let ?nb = "(nb_push ?ip nb)\<lparr>netdev := rt_interface route\<rparr>"
  have nic: "nics s (rt_interface route) = Some nic" "length (nic_mac nic) = 6" "length mac = 6"
    using path by (simp_all add: path_ready_def)
  have len: "cur_len nb = of_nat (length (nb_contents nb))" using nb by (simp add: nb_ok_def)
  have hdr: "htons (ucast (net_buffer_get_remain_len nb + 20 :: u64)) = htons (of_nat (length (nb_contents nb) + 20))"
    using ucast_of_nat [of "length (nb_contents nb) + 20"] by (simp add: net_buffer_get_remain_len_def len)
  have fits: "length ?ip \<le> nb_room nb" using room by simp
  have ok: "nb_ok ?nb" "nb_contents ?nb = ?ip @ nb_contents nb" "nb_room ?nb = nb_room nb - 20"
    using nb fits by (simp_all add: nbs.pushed_ok nbs.pushed_contents nbs.pushed_room)
  have "ip4_send_ttl E p (Some route) dst prot ttl s = eth_send_nbuffer E p mac ETH_TYPE_IPV4 (put_nb p ?nb s)"
    using nb nic fits path
    by (simp add: ip4_send_ttl_def hdr nbs.push_iff path_ready_mac ip4_header_def Let_def)
  also have "\<dots> = Some (tx_rc E (rt_interface route) (ip4_frame nic mac dst prot ttl (nb_contents nb)),
      (put_nb p (nb_push (ethernet_frame mac (nic_mac nic) (htons ETH_TYPE_IPV4)) ?nb) s)
        \<lparr>out := out s @ [(rt_interface route, ip4_frame nic mac dst prot ttl (nb_contents nb))]\<rparr>)"
    using room nic ok by (subst eth_send_fits [where nb = ?nb and nic = nic]) (auto simp: Let_def ip4_frame_def)
  finally show ?thesis by (intro exI [of _ "nb_push (ethernet_frame mac (nic_mac nic) (htons ETH_TYPE_IPV4)) ?nb"])
      (simp add: Let_def)
qed

lemma ip4_send_over:
  assumes nb: "nbufs s p = Some nb" "nb_ok nb" and path: "path_ready route dst nic mac s"
    and room: "nb_room nb < 34"
  shows "ip4_send_ttl E p (Some route) dst prot ttl s = None"
proof -
  have nic: "nics s (rt_interface route) = Some nic" "length (nic_mac nic) = 6" "length mac = 6"
    using path by (simp_all add: path_ready_def)
  have eth: "eth_send_nbuffer E p mac ETH_TYPE_IPV4 (put_nb p ((nb_push ip nb)\<lparr>netdev := rt_interface route\<rparr>) s) = None"
    if "length ip = 20" "20 \<le> nb_room nb" for ip
    using that nb nic room
    by (subst eth_send_fits [where nb = "(nb_push ip nb)\<lparr>netdev := rt_interface route\<rparr>" and nic = nic]) (simp_all add: nbs.pushed_ok nbs.pushed_room Let_def)
  show ?thesis using nb nic path eth
    by (simp add: ip4_send_ttl_def nbs.push_iff path_ready_mac Let_def)
qed

lemma ip4_packet_fields:
  "ld8 (ip4_packet v sz ttl prot c src dst) 0 = Some v"
  "ld16 (ip4_packet v sz ttl prot c src dst) 2 = Some sz"
  "ld8 (ip4_packet v sz ttl prot c src dst) 9 = Some prot"
  "ld16 (ip4_packet v sz ttl prot c src dst) 10 = Some c"
  "ld32 (ip4_packet v sz ttl prot c src dst) 12 = Some src"
  "ld32 (ip4_packet v sz ttl prot c src dst) 16 = Some dst"
  by (simp_all add: ip4_packet_def field_eval)

lemma ethernet_frame_type: "length d = 6 \<Longrightarrow> length m = 6 \<Longrightarrow> ld16 (ethernet_frame d m ty) 12 = Some ty"
  unfolding ethernet_frame_def append_assoc [symmetric]
  by (subst ld_skip) (simp_all add: field_eval)

subsection \<open>Properties of routing\<close>

text \<open>A route whose network contains the destination, and the last element with a property.\<close>

definition net_matches :: "u32 \<Rightarrow> route4 \<Rightarrow> bool" where
  "net_matches dst r \<longleftrightarrow> dest r \<noteq> 0 \<and> dest r AND netmask r = dst AND netmask r"

definition last_with :: "('a \<Rightarrow> bool) \<Rightarrow> 'a list \<Rightarrow> 'a option" where
  "last_with P xs = find P (rev xs)"

lemma last_with_Cons: "last_with P (x # xs) = (case last_with P xs of None \<Rightarrow> if P x then Some x else None | Some y \<Rightarrow> Some y)"
proof -
  have "find P (ys @ [x]) = (case find P ys of None \<Rightarrow> if P x then Some x else None | Some y \<Rightarrow> Some y)" for ys
    by (induction ys) auto
  then show ?thesis by (simp add: last_with_def)
qed

lemma route4_loop_spec:
  "fst (route4_loop dst rs c d) =
     (case find (\<lambda>r. dest r = dst) rs of
        Some r \<Rightarrow> Some r
      | None \<Rightarrow> (case last_with (net_matches dst) rs of Some r \<Rightarrow> Some r | None \<Rightarrow> c)) \<and>
   (find (\<lambda>r. dest r = dst) rs = None \<longrightarrow>
      snd (route4_loop dst rs c d) = (case last_with (\<lambda>r. dest r = 0) rs of Some r \<Rightarrow> Some r | None \<Rightarrow> d))"
proof (induction rs arbitrary: c d)
  case Nil
  then show ?case by (simp add: last_with_def)
next
  case (Cons r rs)
  then show ?case
    by (cases "dest r = dst") (auto simp: last_with_Cons net_matches_def Let_def split: option.splits)
qed

text \<open>C27. \<open>route4_resolve\<close> takes the first route to exactly the destination; failing that, the last route in the
  table whose network contains it; failing that, the last default route. Neither the length of the network
  mask nor the metric plays a role.\<close>

theorem route4_resolve_choice:
  "route4_resolve dst s =
     (case find (\<lambda>r. dest r = dst) (route_table4 s) of
        Some r \<Rightarrow> Some r
      | None \<Rightarrow> (case last_with (net_matches dst) (route_table4 s) of
                   Some r \<Rightarrow> Some r
                 | None \<Rightarrow> last_with (\<lambda>r. dest r = 0) (route_table4 s)))"
  using route4_loop_spec [of dst "route_table4 s" None None]
  by (auto simp: route4_resolve_def case_prod_beta split: option.splits)

subsection \<open>Properties of address resolution\<close>

definition arp_wf :: "net \<Rightarrow> bool" where
  "arp_wf s \<longleftrightarrow> distinct (map ae_addr (arp_cache s))"

lemma arp_cache_kalloc [simp]: "arp_cache (snd (kalloc s)) = arp_cache s"
  by (simp add: kalloc_def split: list.split)

lemma arp_cache_alloc_nb [simp]: "arp_cache (snd (alloc_nb nb s)) = arp_cache s"
  using arp_cache_kalloc [of s] arp_cache_kalloc [of "snd (kalloc s)"]
  by (auto simp: alloc_nb_def Let_def case_prod_beta)

lemma arp_send_cache: "arp_send E hdr nic dst s = Some s' \<Longrightarrow> arp_cache s' = arp_cache s"
  by (auto simp: arp_send_def on_nb_def eth_send_nbuffer_def net_buffer_free_def new_net_buffer_out_def case_prod_beta
      split: bind_splits if_splits)

text \<open>One cache extends another by entries for new addresses.\<close>

definition arp_extends :: "net \<Rightarrow> net \<Rightarrow> bool" where
  "arp_extends s s' \<longleftrightarrow> (\<exists>zs. arp_cache s' = arp_cache s @ zs \<and> distinct (map ae_addr zs) \<and>
     ae_addr ` set zs \<inter> ae_addr ` set (arp_cache s) = {})"

lemma arp_extends_same: "arp_cache s' = arp_cache s \<Longrightarrow> arp_extends s s'"
  by (simp add: arp_extends_def)

lemma arp_cache_add_extends:
  assumes "arp_cache_add addr mac s = Some s'"
  shows "arp_extends s s'"
proof (cases "get_arp_cache_entry addr s")
  case None
  then have "addr \<notin> ae_addr ` set (arp_cache s)" by (auto simp: get_arp_cache_entry_def find_None_iff)
  moreover from assms None have "arp_cache s' = arp_cache s @ [\<lparr>ae_addr = addr, ae_mac = mac\<rparr>]"
    using arp_cache_kalloc [of s] by (auto simp: arp_cache_add_def Let_def case_prod_beta split: if_splits)
  ultimately show ?thesis by (simp add: arp_extends_def)
next
  case (Some e)
  then show ?thesis using assms by (simp add: arp_cache_add_def arp_extends_same)
qed

lemma arp_handle_packet_extends:
  assumes "arp_handle_packet E p s = Some s'"
  shows "arp_extends s s'"
proof -
  have "arp_extends s s' \<or> (\<exists>a m t. arp_cache_add a m s = Some t \<and> arp_cache s' = arp_cache t)"
    using assms
    by (auto simp: arp_handle_packet_def Let_def arp_extends_same split: bind_splits if_splits dest!: arp_send_cache)
  then show ?thesis using arp_cache_add_extends by (fastforce simp: arp_extends_def)
qed

text \<open>C26. Whatever packets arrive, the ARP cache holds one entry per address and the entry an address has got
  first never changes: a later reply with another hardware address is ignored.\<close>

theorem arp_first_mapping_stays:
  assumes "arp_handle_packet E p s = Some s'" and "arp_wf s"
  shows "arp_wf s' \<and> (\<forall>a e. get_arp_cache_entry a s = Some e \<longrightarrow> get_arp_cache_entry a s' = Some e)"
proof -
  have find_app: "find P (xs @ ys) = (case find P xs of None \<Rightarrow> find P ys | Some x \<Rightarrow> Some x)" for P and xs ys :: "arp_v4_cache_entry list"
    by (induction xs) auto
  from arp_handle_packet_extends [OF assms(1)]
  obtain zs where zs: "arp_cache s' = arp_cache s @ zs" "distinct (map ae_addr zs)"
      "ae_addr ` set zs \<inter> ae_addr ` set (arp_cache s) = {}"
    unfolding arp_extends_def by blast
  then show ?thesis using assms(2) by (auto simp: arp_wf_def get_arp_cache_entry_def find_app)
qed

lemma ip4_header_addrs:
  "ld32 (ip4_header src dst prot ttl n) 12 = Some src" "ld32 (ip4_header src dst prot ttl n) 16 = Some dst"
  by (simp_all add: ip4_header_def ip4_packet_fields Let_def)

text \<open>A sample: the reply of a host 7 arrives, while host 5 is already known.\<close>

definition arp_sample :: net where
  "arp_sample = net_blank\<lparr>
     arp_cache := [\<lparr>ae_addr = 5, ae_mac = [1, 1, 1, 1, 1, 1]\<rparr>],
     nbufs := [0x50 \<mapsto> (blank_nb (arp_header ARP_OPER_RESP [7, 7, 7, 7, 7, 7] (le32 7) [1, 2, 3, 4, 5, 6] (le32 9)))],
     fresh := [0x60]\<rparr>"

lemma arp_sample_run: "arp_handle_packet quiet_env 0x50 arp_sample =
    Some (arp_sample\<lparr>fresh := [], arp_cache := [\<lparr>ae_addr = 5, ae_mac = [1, 1, 1, 1, 1, 1]\<rparr>, \<lparr>ae_addr = 7, ae_mac = [7, 7, 7, 7, 7, 7]\<rparr>]\<rparr>)"
  by (simp add: arp_handle_packet_def arp_sample_def net_blank_def blank_nb_def arp_header_def field_eval ARP_OPER_RESP_def
      ARP_OPER_REQ_def ARP_PTYPE_IPV4_def ARP_HTYPE_ETHERNET_def arp_cache_add_def get_arp_cache_entry_def kalloc_def un32_def)

theorem arp_first_mapping_stays_witness:
  "get_arp_cache_entry 5 (the (arp_handle_packet quiet_env 0x50 arp_sample)) = Some \<lparr>ae_addr = 5, ae_mac = [1, 1, 1, 1, 1, 1]\<rparr>"
  using arp_first_mapping_stays [OF arp_sample_run]
  by (simp add: arp_sample_run) (simp add: arp_wf_def arp_sample_def net_blank_def get_arp_cache_entry_def)

end
