(* ===== verification/Sockets.thy ===== *)
theory Sockets
  imports Inet
begin

text \<open>
  Socket objects and their reference counts (\<^verbatim>\<open>ipc/socket.c\<close>), and the ephemeral port search that TCP and UDP
  share. A socket and its protocol data (\<open>sock->data\<close>) are created and destroyed together; the data of each
  protocol has a map of its own, indexed by the address of the socket.
\<close>

definition AF_INET :: u16 where "AF_INET = 2"
definition AF_PACKET :: u16 where "AF_PACKET = 17"
definition MSG_DONTWAIT :: u32 where "MSG_DONTWAIT = 0x40"

text \<open>\<^verbatim>\<open>sizeof(struct sockaddr_in)\<close>\<close>

abbreviation SOCKADDR_LEN :: u32 where "SOCKADDR_LEN \<equiv> 16"

definition blank_addr :: sockaddr_in where
  "blank_addr = \<lparr>sin_family = 0, sin_port = 0, sin_addr = 0\<rparr>"

definition put_sock :: "ptr \<Rightarrow> socket \<Rightarrow> net \<Rightarrow> net" where
  "put_sock p k s = s\<lparr>socks := (socks s)(p \<mapsto> k)\<rparr>"

definition set_state :: "ptr \<Rightarrow> sock_state \<Rightarrow> net \<Rightarrow> net option" where
  "set_state p st s = do { k \<leftarrow> socks s p; Some (put_sock p (k\<lparr>sk_state := st\<rparr>) s) }"

definition acquire_socket :: "ptr \<Rightarrow> net \<Rightarrow> net option" where
  "acquire_socket p s = do { k \<leftarrow> socks s p; Some (put_sock p (k\<lparr>sk_refs := sk_refs k + 1\<rparr>) s) }"

definition free_socket :: "ptr \<Rightarrow> net \<Rightarrow> net option" where
  "free_socket p s = do {
     k \<leftarrow> socks s p;
     if sk_refs k - 1 \<le> 0
     then Some (s\<lparr>socks := (socks s)(p := None), tcps := (tcps s)(p := None), udps := (udps s)(p := None),
                  raws := (raws s)(p := None), packets := (packets s)(p := None)\<rparr>)
     else Some (put_sock p (k\<lparr>sk_refs := sk_refs k - 1\<rparr>) s)
   }"

text \<open>The inode behind the socket is one more allocation; its fields are not part of the state.\<close>

definition new_socket :: "net \<Rightarrow> (ptr \<times> net) option" where
  "new_socket s =
     (let (result, s) = kalloc s
      in if result = NULL then Some (NULL, s)
         else let s = put_sock result \<lparr>sk_refs = 0, sk_domain = 0, sk_type = 0, sk_protocol = 0,
                        sk_state = UNCONNECTED, sk_ops = no_ops\<rparr> s;
                  (ino, s) = kalloc s
              in if ino = NULL then None
                 else do { s \<leftarrow> acquire_socket result s; Some (result, s) })"

text \<open>
  The loops of \<^verbatim>\<open>tcp_ip4_alloc_dynamic_port\<close> and \<^verbatim>\<open>udp_ip4_alloc_dynamic_port\<close>: the first free port from
  \<open>port\<close> on.
\<close>

definition TCP_PORTS :: nat where "TCP_PORTS = 65536"
definition TCP_DYNAMIC_PORT :: nat where "TCP_DYNAMIC_PORT = 49152"

function find_port :: "(u16 \<Rightarrow> ptr) \<Rightarrow> nat \<Rightarrow> nat option" where
  "find_port bindings port =
     (if port \<ge> TCP_PORTS then None
      else if bindings (of_nat port) = NULL then Some port else find_port bindings (port + 1))"
  by auto
termination by (relation "measure (\<lambda>(_, port). TCP_PORTS - port)") auto

declare find_port.simps [simp del]

text \<open>The loop \<^verbatim>\<open>while ((b = list_dequeue(q)) != NULL) net_buffer_free(b);\<close>\<close>

fun free_all :: "ptr list \<Rightarrow> net \<Rightarrow> net option" where
  "free_all [] s = Some s"
| "free_all (b # bs) s = do { s \<leftarrow> net_buffer_free b s; free_all bs s }"

text \<open>Event bits of \<^verbatim>\<open>poll.h\<close>\<close>

definition POLLIN :: u16 where "POLLIN = 0x001"
definition POLLOUT :: u16 where "POLLOUT = 0x004"
definition POLLHUP :: u16 where "POLLHUP = 0x010"
definition POLLRDNORM :: u16 where "POLLRDNORM = 0x040"
definition POLLWRNORM :: u16 where "POLLWRNORM = 0x100"
definition POLLRDHUP :: u16 where "POLLRDHUP = 0x2000"

subsection \<open>Port search\<close>

lemma from_port: "(port :: nat) \<le> k \<longleftrightarrow> k = port \<or> port + 1 \<le> k"
  by auto

lemma find_port_None: "find_port b port = None \<longleftrightarrow> (\<forall>k. port \<le> k \<and> k < TCP_PORTS \<longrightarrow> b (of_nat k) \<noteq> NULL)"
proof (induction b port rule: find_port.induct)
  case (1 b port)
  show ?case
  proof (cases "port \<ge> TCP_PORTS \<or> b (of_nat port) = NULL")
    case True
    then show ?thesis unfolding find_port.simps [of b port] by auto
  next
    case False
    then have "find_port b port = find_port b (port + 1)" by (subst find_port.simps) simp
    moreover have "find_port b (port + 1) = None \<longleftrightarrow> (\<forall>k. port + 1 \<le> k \<and> k < TCP_PORTS \<longrightarrow> b (of_nat k) \<noteq> NULL)"
      using 1 False by simp
    moreover have "(\<forall>k. port \<le> k \<and> k < TCP_PORTS \<longrightarrow> b (of_nat k) \<noteq> NULL) \<longleftrightarrow>
        (\<forall>k. port + 1 \<le> k \<and> k < TCP_PORTS \<longrightarrow> b (of_nat k) \<noteq> NULL)"
      unfolding from_port [of port] using False by auto
    ultimately show ?thesis by simp
  qed
qed

lemma find_port_Some:
  "find_port b port = Some q \<Longrightarrow> port \<le> q \<and> q < TCP_PORTS \<and> b (of_nat q) = NULL \<and>
     (\<forall>k. port \<le> k \<and> k < q \<longrightarrow> b (of_nat k) \<noteq> NULL)"
proof (induction b port rule: find_port.induct)
  case (1 b port)
  note def = find_port.simps [of b port]
  show ?case
  proof (cases "port \<ge> TCP_PORTS \<or> b (of_nat port) = NULL")
    case True
    then have "q = port" "port < TCP_PORTS" "b (of_nat port) = NULL"
      using "1.prems" unfolding def by (auto split: if_splits)
    then show ?thesis by auto
  next
    case False
    then have "find_port b (port + 1) = Some q" using "1.prems" unfolding def by simp
    then have "port + 1 \<le> q \<and> q < TCP_PORTS \<and> b (of_nat q) = NULL \<and>
      (\<forall>k. port + 1 \<le> k \<and> k < q \<longrightarrow> b (of_nat k) \<noteq> NULL)" using "1.IH" False by simp
    then show ?thesis unfolding from_port [of port] using False by blast
  qed
qed

lemma put_sock_same: "socks s p = Some k \<Longrightarrow> put_sock p k s = s"
  by (simp add: put_sock_def fun_upd_idem)

lemma put_sock_put_sock [simp]: "put_sock p k (put_sock p x s) = put_sock p k s"
  by (simp add: put_sock_def)

lemma put_sock_fields [simp]:
  "tcps (put_sock p k s) = tcps s" "nbufs (put_sock p k s) = nbufs s" "socks (put_sock p k s) = (socks s)(p \<mapsto> k)"
  "tcp4_bindings (put_sock p k s) = tcp4_bindings s"
  by (simp_all add: put_sock_def)

subsection \<open>The byte stream of a socket\<close>

text \<open>The bytes of a received buffer that have not been read, and those of a queue of buffers.\<close>

definition unread :: "net_buffer \<Rightarrow> u8 list" where
  "unread nb = take (unat (payload_size nb - payload_read_offset nb))
     (drop (nat (payload nb + uint (payload_read_offset nb))) (buffer nb))"

definition queue_bytes :: "(ptr \<rightharpoonup> net_buffer) \<Rightarrow> ptr list \<Rightarrow> u8 list" where
  "queue_bytes bufs ps = concat (map (\<lambda>p. case bufs p of None \<Rightarrow> [] | Some nb \<Rightarrow> unread nb) ps)"

text \<open>The payload lies in the buffer, and what has been read lies in the payload.\<close>

definition payload_ok :: "net_buffer \<Rightarrow> bool" where
  "payload_ok nb \<longleftrightarrow> 0 \<le> payload nb \<and> payload_read_offset nb \<le> payload_size nb \<and>
     nat (payload nb) + unat (payload_size nb) \<le> length (buffer nb)"

lemma queue_bytes_cong: "(\<And>p. p \<in> set ps \<Longrightarrow> bufs p = bufs' p) \<Longrightarrow> queue_bytes bufs ps = queue_bytes bufs' ps"
  by (simp add: queue_bytes_def cong: map_cong)

lemma queue_bytes_Cons [simp]: "queue_bytes bufs (p # ps) = (case bufs p of None \<Rightarrow> [] | Some nb \<Rightarrow> unread nb) @ queue_bytes bufs ps"
  by (simp add: queue_bytes_def)

lemma queue_bytes_append [simp]: "queue_bytes bufs (ps @ qs) = queue_bytes bufs ps @ queue_bytes bufs qs"
  by (simp add: queue_bytes_def)

lemma queue_bytes_Nil [simp]: "queue_bytes bufs [] = []"
  by (simp add: queue_bytes_def)

text \<open>One read from a buffer.\<close>

lemma read_payload_spec:
  fixes len :: u64
  assumes ok: "payload_ok nb"
  defines "n \<equiv> min len (payload_size nb - payload_read_offset nb)"
  shows "\<exists>nb'. net_buffer_read_payload_into len nb = Some (take (unat len) (unread nb), n, nb') \<and>
    unread nb' = drop (unat len) (unread nb) \<and> payload_ok nb' \<and> nb_refs nb' = nb_refs nb \<and>
    net_buffer_get_payload_remain_len nb' = payload_size nb - payload_read_offset nb - n \<and>
    uint n = int (length (take (unat len) (unread nb)))"
proof -
  let ?o = "payload_read_offset nb" and ?z = "payload_size nb" and ?a = "nat (payload nb)"
  have le: "?o \<le> ?z" and pos: "0 \<le> payload nb" and fit: "?a + unat ?z \<le> length (buffer nb)"
    using ok by (auto simp: payload_ok_def)
  have o: "unat ?o \<le> unat ?z" using le by (simp add: word_le_nat_alt)
  have rest: "unat (?z - ?o) = unat ?z - unat ?o" using le by (rule unat_sub)
  have n: "unat n = min (unat len) (unat ?z - unat ?o)"
    unfolding n_def using rest by (simp add: min_def word_le_nat_alt)
  have at: "nat (payload nb + uint ?o) = ?a + unat ?o" using pos by (simp add: nat_add_distrib)
  have un: "unread nb = take (unat ?z - unat ?o) (drop (?a + unat ?o) (buffer nb))"
    by (simp add: unread_def rest at)
  have len_un: "length (unread nb) = unat ?z - unat ?o" using fit o by (simp add: un)
  have rd: "rd (buffer nb) (payload nb + uint ?o) (unat n) = Some (take (unat len) (unread nb))"
    using fit o pos n by (subst rd_Some) (simp_all add: at un min.commute)
  have on: "unat (?o + n) = unat ?o + unat n"
    using n o unat_lt2p [of ?z] by (subst unat_add_no_wrap) (auto simp: min_def)
  let ?nb = "net_buffer_shift (sint (ucast n :: u32)) (nb\<lparr>payload_read_offset := ?o + n\<rparr>)"
  have le': "?o + n \<le> ?z" using on n o by (simp add: word_le_nat_alt)
  have "unread ?nb = take (unat ?z - (unat ?o + unat n)) (drop (?a + (unat ?o + unat n)) (buffer nb))"
    using pos on by (simp add: unread_def net_buffer_shift_def unat_sub [OF le'] nat_add_distrib)
  also have "\<dots> = drop (unat len) (unread nb)" using n
    by (cases "unat len \<le> unat ?z - unat ?o") (simp_all add: un drop_take ac_simps)
  finally have "unread ?nb = drop (unat len) (unread nb)" .
  moreover have "payload_ok ?nb" using ok le' by (simp add: payload_ok_def net_buffer_shift_def)
  moreover have "net_buffer_read_payload_into len nb = Some (take (unat len) (unread nb), n, ?nb)"
    using rd by (simp add: net_buffer_read_payload_into_def n_def Let_def)
  moreover have "net_buffer_get_payload_remain_len ?nb = ?z - ?o - n"
    by (simp add: net_buffer_get_payload_remain_len_def net_buffer_shift_def)
  moreover have "uint n = int (length (take (unat len) (unread nb)))"
    using n len_un by (simp add: uint_nat min.commute)
  ultimately show ?thesis by (intro exI [of _ ?nb]) (simp add: net_buffer_shift_def)
qed

lemma out_put_sock [simp]: "out (put_sock p k s) = out s" "fresh (put_sock p k s) = fresh s"
  by (simp_all add: put_sock_def)

lemma free_all_ok:
  "distinct ps \<Longrightarrow> \<forall>p\<in>set ps. \<exists>nb. nbufs s p = Some nb \<Longrightarrow>
   \<exists>bufs. free_all ps s = Some (s\<lparr>nbufs := bufs\<rparr>)"
proof (induction ps arbitrary: s)
  case Nil
  then show ?case by (intro exI [of _ "nbufs s"]) simp
next
  case (Cons p ps)
  then obtain nb where nb: "nbufs s p = Some nb" by auto
  then obtain b where b: "net_buffer_free p s = Some (s\<lparr>nbufs := b\<rparr>)" "\<forall>q\<in>set ps. b q = nbufs s q"
    using Cons.prems(1) net_buffer_free_eq [OF nb] by (intro that) (assumption, auto)
  then have "\<exists>bufs. free_all ps (s\<lparr>nbufs := b\<rparr>) = Some ((s\<lparr>nbufs := b\<rparr>)\<lparr>nbufs := bufs\<rparr>)"
    using Cons.prems by (intro Cons.IH) auto
  then show ?case using b by auto
qed

text \<open>A packet with three unread bytes.\<close>

definition sample_packet :: net_buffer where
  "sample_packet = (blank_nb [9, 1, 2, 3, 9])\<lparr>payload := 1, payload_size := 3, nb_refs := 1\<rparr>"

lemma sample_packet_ok: "payload_ok sample_packet" "unread sample_packet = [1, 2, 3]" "nb_refs sample_packet = 1"
  by (simp_all add: payload_ok_def unread_def sample_packet_def blank_nb_def)

end
