(* ===== verification/Udp.thy ===== *)
theory Udp
  imports Sockets
begin

text \<open>
  UDP over IPv4: \<^verbatim>\<open>net/ipv4/udp.c\<close>. A pointer argument that may be null is an option; the bytes a call copies
  to its caller are part of its result.
\<close>

definition UDP_DEFAULT_RESPONSE_BUFLEN :: nat where "UDP_DEFAULT_RESPONSE_BUFLEN = 4096"

definition put_udp :: "ptr \<Rightarrow> udp4_socket_data \<Rightarrow> net \<Rightarrow> net" where
  "put_udp p d s = s\<lparr>udps := (udps s)(p \<mapsto> d)\<rparr>"

definition udp_ip4_alloc_dynamic_port :: "ptr \<Rightarrow> net \<Rightarrow> (bool \<times> net) option" where
  "udp_ip4_alloc_dynamic_port sock s = do {
     d \<leftarrow> udps s sock;
     case find_port (udp4_bindings s) TCP_DYNAMIC_PORT of
       None \<Rightarrow> Some (False, s)
     | Some port \<Rightarrow> do {
         let s = put_udp sock (d\<lparr>u_port := of_nat port\<rparr>) s;
         let s = s\<lparr>udp4_bindings := (udp4_bindings s)(of_nat port := sock)\<rparr>;
         s \<leftarrow> acquire_socket sock s;
         Some (True, s)
       }
   }"

text \<open>\<^verbatim>\<open>struct udp_packet\<close>\<close>

definition udp_packet :: "u16 \<Rightarrow> u16 \<Rightarrow> u16 \<Rightarrow> u16 \<Rightarrow> u8 list" where
  "udp_packet sport dport len checksum = le16 sport @ le16 dport @ le16 len @ le16 checksum"

subsection \<open>Receiving\<close>

definition udp_ip4_handle :: "ptr \<Rightarrow> net \<Rightarrow> (int \<times> net) option" where
  "udp_ip4_handle p s = do {
     nb \<leftarrow> nbufs s p;
     let b = buffer nb;
     let udphdr = transp_header nb;
     len \<leftarrow> ld16 b (udphdr + 4);
     let nb = nb\<lparr>payload := udphdr + 8, payload_size := ucast (ntohs len) - 8\<rparr>;
     let nb = net_buffer_shift 8 nb;
     let s = put_nb p nb s;
     checksum \<leftarrow> ld16 b (udphdr + 6);
     src_ip \<leftarrow> ld32 b (netw_header nb + 12);
     dst_ip \<leftarrow> ld32 b (netw_header nb + 16);
     bad \<leftarrow> (if checksum \<noteq> 0
             then do {
               hdr \<leftarrow> rd b udphdr 8;
               data \<leftarrow> rd b (payload nb) (unat (payload_size nb));
               Some (htons (udp4_calc_checksum src_ip dst_ip hdr data) \<noteq> 0)
             }
             else Some False);
     if bad then Some (- 1, s)
     else do {
       dport \<leftarrow> ld16 b (udphdr + 2);
       sport \<leftarrow> ld16 b udphdr;
       let sock = udp4_bindings s (ntohs dport);
       if sock = NULL then Some (- 1, s)
       else do {
         k \<leftarrow> socks s sock;
         d \<leftarrow> udps s sock;
         if sk_state k = CONNECTED \<and> (sport \<noteq> sin_port (peer d) \<or> src_ip \<noteq> sin_addr (peer d))
         then Some (- 1, s)
         else do {
           s \<leftarrow> net_buffer_acquire p s;
           let s = put_udp sock (d\<lparr>u_rx_queue := u_rx_queue d @ [p]\<rparr>) s;
           Some (0, wake (Poll sock) 0 (wake (Rx sock) 1 s))
         }
       }
     }
   }"

definition udp_ip4_init :: "net \<Rightarrow> net" where
  "udp_ip4_init s =
     (let (tbl, s) = kalloc s
      in snd (ip4_register_protocol udp_handler (unat IPV4_PROTOCOL_UDP) s))"

subsection \<open>Socket operations\<close>

definition sock_udp4_create :: "ptr \<Rightarrow> net \<Rightarrow> int \<times> net" where
  "sock_udp4_create sock s =
     (let (d, s) = kalloc s
      in if d = NULL then (- ENOMEM, s)
         else (0, put_udp sock \<lparr>u_nic = NULL, u_port = 0, u_rx_queue = [], allow_broadcast = 0, u_nonblock = 0,
                     peer = blank_addr\<rparr> s))"

definition sock_udp4_connect :: "ptr \<Rightarrow> sockaddr_in \<Rightarrow> u32 \<Rightarrow> net \<Rightarrow> (int \<times> net) option" where
  "sock_udp4_connect sock saddr sockaddr_len s =
     (if sin_family saddr \<noteq> AF_INET \<or> sockaddr_len \<noteq> SOCKADDR_LEN then Some (- EINVAL, s)
      else do {
        d \<leftarrow> udps s sock;
        s \<leftarrow> set_state sock CONNECTED (put_udp sock (d\<lparr>peer := saddr\<rparr>) s);
        Some (0, s)
      })"

definition sock_udp4_bind :: "ptr \<Rightarrow> sockaddr_in \<Rightarrow> u32 \<Rightarrow> net \<Rightarrow> (int \<times> net) option" where
  "sock_udp4_bind sock addr addrlen s =
     (if sin_family addr \<noteq> AF_INET \<or> addrlen \<noteq> SOCKADDR_LEN then Some (- EINVAL, s)
      else do {
        let port = ntohs (sin_port addr);
        d \<leftarrow> udps s sock;
        let s = put_udp sock (d\<lparr>u_port := port\<rparr>) s;
        let s = s\<lparr>udp4_bindings := (udp4_bindings s)(port := sock)\<rparr>;
        s \<leftarrow> acquire_socket sock s;
        Some (0, s)
      })"

text \<open>
  \<open>src_addr\<close> is \<open>None\<close> for a null pointer and otherwise the length the caller gives. The sender's address is
  read from the packet after the buffer has been released.
\<close>

definition sock_udp4_recvfrom ::
  "env \<Rightarrow> ptr \<Rightarrow> u64 \<Rightarrow> u32 \<Rightarrow> u32 option \<Rightarrow> net \<Rightarrow> (int \<times> u8 list \<times> sockaddr_in option \<times> net) option" where
  "sock_udp4_recvfrom E sock len flags src_addr s =
     (if (case src_addr of Some l \<Rightarrow> l \<noteq> SOCKADDR_LEN | None \<Rightarrow> False) then Some (- EINVAL, [], None, s)
      else do {
        d \<leftarrow> udps s sock;
        (p, s) \<leftarrow> (case u_rx_queue d of
            q # qs \<Rightarrow> Some (Inr q, put_udp sock (d\<lparr>u_rx_queue := qs\<rparr>) s)
          | [] \<Rightarrow>
              if flags AND MSG_DONTWAIT = MSG_DONTWAIT \<or> u_nonblock d = 1 then Some (Inl (- EAGAIN), s)
              else do {
                let (sig, s) = sleep_on E s;
                d \<leftarrow> udps s sock;
                case u_rx_queue d of
                  q # qs \<Rightarrow> Some (Inr q, put_udp sock (d\<lparr>u_rx_queue := qs\<rparr>) s)
                | [] \<Rightarrow> Some (Inl (- EINTR), s)
              });
        case p of
          Inl rc \<Rightarrow> Some (rc, [], None, s)
        | Inr p \<Rightarrow> do {
            nb \<leftarrow> nbufs s p;
            (data, len, nb') \<leftarrow> net_buffer_read_payload_into len nb;
            s \<leftarrow> net_buffer_free p (put_nb p nb' s);
            from \<leftarrow> (case src_addr of
                None \<Rightarrow> Some None
              | Some _ \<Rightarrow> do {
                  nb \<leftarrow> nbufs s p;
                  ip \<leftarrow> ld32 (buffer nb) (netw_header nb + 12);
                  port \<leftarrow> ld16 (buffer nb) (transp_header nb);
                  Some (Some \<lparr>sin_family = AF_INET, sin_port = port, sin_addr = ip\<rparr>)
                });
            Some (uint len, data, from, s)
          }
      })"

definition sock_udp4_sendto ::
  "env \<Rightarrow> ptr \<Rightarrow> u8 list \<Rightarrow> sockaddr_in option \<Rightarrow> u32 \<Rightarrow> net \<Rightarrow> (int \<times> net) option" where
  "sock_udp4_sendto E sock msg to tolen s = do {
     k \<leftarrow> socks s sock;
     d \<leftarrow> udps s sock;
     let target = (case to of
         None \<Rightarrow> if sk_state k = CONNECTED then Some (peer d) else None
       | Some a \<Rightarrow> if tolen \<noteq> SOCKADDR_LEN then None else if sin_family a \<noteq> AF_INET then None else Some a);
     case target of
       None \<Rightarrow> Some (- EINVAL, s)
     | Some a \<Rightarrow>
         if sin_addr a = 0xFFFFFFFF \<and> allow_broadcast d = 0 then Some (- EACCES, s)
         else do {
           (ok, s) \<leftarrow> (if u_port d = 0 then udp_ip4_alloc_dynamic_port sock s else Some (True, s));
           if \<not> ok then Some (- EADDRNOTAVAIL, s)
           else do {
             d \<leftarrow> udps s sock;
             case route4_resolve (sin_addr a) s of
               None \<Rightarrow> Some (- ENETUNREACH, s)
             | Some route \<Rightarrow>
                 let (resp, s) = new_net_buffer_out UDP_DEFAULT_RESPONSE_BUFLEN s
                 in do {
                   s \<leftarrow> on_nb resp (\<lambda>nb. Some (nb\<lparr>netdev := rt_interface route\<rparr>)) s;
                   s \<leftarrow> net_buffer_acquire resp s;
                   s \<leftarrow> on_nb resp (net_buffer_add_front msg) s;
                   nic \<leftarrow> nics s (rt_interface route);
                   let hdr = udp_packet (htons (u_port d)) (sin_port a) (htons (8 + of_nat (length msg)));
                   let checksum = udp4_calc_checksum (ipv4_addr nic) (sin_addr a) (hdr 0) msg;
                   s \<leftarrow> on_nb resp (net_buffer_add_front (hdr checksum)) s;
                   (rc, s) \<leftarrow> ip4_send E resp (Some route) (sin_addr a) IPV4_PROTOCOL_UDP s;
                   s \<leftarrow> net_buffer_free resp s;
                   if rc \<noteq> 0 then Some (rc, s) else Some (int (length msg), s)
                 }
           }
         }
   }"

definition SO_BROADCAST :: u32 where "SO_BROADCAST = 6"
definition SO_BINDTODEVICE :: u32 where "SO_BINDTODEVICE = 25"

text \<open>\<open>optval\<close> is the bytes behind the pointer.\<close>

definition sock_udp4_setsockopt_sol_socket :: "ptr \<Rightarrow> u32 \<Rightarrow> u8 list \<Rightarrow> u32 \<Rightarrow> net \<Rightarrow> (int \<times> net) option" where
  "sock_udp4_setsockopt_sol_socket sock optname optval optlen s = do {
     d \<leftarrow> udps s sock;
     if optname = SO_BINDTODEVICE then do {
       nic \<leftarrow> get_nic_by_name (takeWhile (\<lambda>c. c \<noteq> 0) optval) s;
       Some (0, put_udp sock (d\<lparr>u_nic := nic\<rparr>) s)
     }
     else if optname = SO_BROADCAST then
       if optlen \<noteq> 4 then Some (- EINVAL, s)
       else do {
         v \<leftarrow> ld32 optval 0;
         Some (0, put_udp sock (d\<lparr>allow_broadcast := ucast v\<rparr>) s)
       }
     else Some (0, s)
   }"

definition sock_udp4_setsockopt_sol_IP :: "ptr \<Rightarrow> u32 \<Rightarrow> net \<Rightarrow> int \<times> net" where
  "sock_udp4_setsockopt_sol_IP sock optname s = (0, s)"

definition sock_udp4_setsockopt :: "ptr \<Rightarrow> u32 \<Rightarrow> u32 \<Rightarrow> u8 list \<Rightarrow> u32 \<Rightarrow> net \<Rightarrow> (int \<times> net) option" where
  "sock_udp4_setsockopt sock level optname optval optlen s =
     (if level = 1 then sock_udp4_setsockopt_sol_socket sock optname optval optlen s
      else if level = 0 then Some (sock_udp4_setsockopt_sol_IP sock optname s)
      else Some (0, s))"

definition FIONBIO :: u64 where "FIONBIO = 0x5421"

text \<open>\<open>arg\<close> is the integer behind the pointer.\<close>

definition sock_udp4_ioctl :: "ptr \<Rightarrow> u64 \<Rightarrow> u32 \<Rightarrow> net \<Rightarrow> (int \<times> net) option" where
  "sock_udp4_ioctl sock request arg s = do {
     d \<leftarrow> udps s sock;
     if request = FIONBIO then Some (0, put_udp sock (d\<lparr>u_nonblock := ucast arg\<rparr>) s) else Some (- EINVAL, s)
   }"

definition sock_udp4_poll :: "ptr \<Rightarrow> net \<Rightarrow> u16 option" where
  "sock_udp4_poll sock s = do {
     d \<leftarrow> udps s sock;
     Some ((if u_rx_queue d \<noteq> [] then POLLIN OR POLLRDNORM else 0) OR POLLOUT OR POLLWRNORM)
   }"

definition sock_udp4_close :: "ptr \<Rightarrow> net \<Rightarrow> (int \<times> net) option" where
  "sock_udp4_close sock s = do {
     d \<leftarrow> udps s sock;
     s \<leftarrow> (if udp4_bindings s (u_port d) = sock
           then free_socket sock (s\<lparr>udp4_bindings := (udp4_bindings s)(u_port d := NULL)\<rparr>)
           else Some s);
     d \<leftarrow> udps s sock;
     let s = put_udp sock (d\<lparr>u_rx_queue := []\<rparr>) s;
     s \<leftarrow> free_all (u_rx_queue d) s;
     Some (0, s)
   }"

text \<open>C36. \<open>sock_udp4_recvfrom\<close> with an address argument uses the packet buffer after releasing it: for every datagram
  whose only reference is the queue's, the call with a null address returns a prefix of the payload, and the call that
  asks for the sender's address faults.\<close>

theorem udp_recvfrom_after_free:
  assumes d: "udps s sock = Some d" "u_rx_queue d = p # ps" and nb: "nbufs s p = Some nb" "payload_ok nb" "nb_refs nb = 1"
  shows "(\<exists>s'. sock_udp4_recvfrom E sock len flags None s =
            Some (int (length (take (unat len) (unread nb))), take (unat len) (unread nb), None, s') \<and>
          nbufs s' = (nbufs s)(p := None)) \<and>
    sock_udp4_recvfrom E sock len flags (Some SOCKADDR_LEN) s = None"
proof -
  let ?n = "min len (payload_size nb - payload_read_offset nb)"
  obtain nb' where r: "net_buffer_read_payload_into len nb = Some (take (unat len) (unread nb), ?n, nb')" "nb_refs nb' = 1"
      "uint ?n = int (length (take (unat len) (unread nb)))"
    using read_payload_spec [OF nb(2), of len] nb(3) by auto
  have free: "net_buffer_free p (put_nb p nb' (put_udp sock x s)) = Some ((put_udp sock x s)\<lparr>nbufs := (nbufs s)(p := None)\<rparr>)" for x
    using r(2) by (simp add: net_buffer_free_def put_udp_def put_nb_def)
  have bufs: "nbufs (put_udp sock x s) = nbufs s" for x by (simp add: put_udp_def)
  show ?thesis using d nb r(1,3) free by (simp add: sock_udp4_recvfrom_def bufs)
qed

definition udp_sample :: net where
  "udp_sample = net_blank\<lparr>nbufs := [0x300 \<mapsto> sample_packet], udps := [0x100 \<mapsto> \<lparr>u_nic = NULL, u_port = 53,
     u_rx_queue = [0x300], allow_broadcast = 0, u_nonblock = 0, peer = blank_addr\<rparr>]\<rparr>"

theorem udp_recvfrom_after_free_witness:
  "(\<exists>s'. sock_udp4_recvfrom quiet_env 0x100 2 0 None udp_sample = Some (2, [1, 2], None, s') \<and>
     nbufs s' = (nbufs udp_sample)(0x300 := None)) \<and>
   sock_udp4_recvfrom quiet_env 0x100 2 0 (Some SOCKADDR_LEN) udp_sample = None"
  using udp_recvfrom_after_free [of udp_sample "0x100" _ "0x300" "[]" sample_packet quiet_env 2 0] sample_packet_ok
  by (simp add: udp_sample_def)

end
