(* ===== verification/Rawsock.thy ===== *)
theory Rawsock
  imports Sockets
begin

text \<open>
  Raw IPv4 sockets (\<^verbatim>\<open>net/ipv4/raw.c\<close>) and raw packet sockets (\<^verbatim>\<open>net/packet/packet_raw.c\<close>). Taking a receive lock
  that is held has no result: the holder has left the kernel and the call spins forever.
\<close>

definition put_raw :: "ptr \<Rightarrow> raw4_socket_data \<Rightarrow> net \<Rightarrow> net" where
  "put_raw p d s = s\<lparr>raws := (raws s)(p \<mapsto> d)\<rparr>"

definition put_packet :: "ptr \<Rightarrow> packet_raw_socket_data \<Rightarrow> net \<Rightarrow> net" where
  "put_packet p d s = s\<lparr>packets := (packets s)(p \<mapsto> d)\<rparr>"

text \<open>\<^verbatim>\<open>acquire_spinlock(&sock_data->rx_queue_lock)\<close>\<close>

definition lock_raw :: "ptr \<Rightarrow> net \<Rightarrow> net option" where
  "lock_raw p s = do { d \<leftarrow> raws s p; if r_lock d then None else Some (put_raw p (d\<lparr>r_lock := True\<rparr>) s) }"

definition unlock_raw :: "ptr \<Rightarrow> net \<Rightarrow> net option" where
  "unlock_raw p s = do { d \<leftarrow> raws s p; Some (put_raw p (d\<lparr>r_lock := False\<rparr>) s) }"

definition lock_packet :: "ptr \<Rightarrow> net \<Rightarrow> net option" where
  "lock_packet p s = do { d \<leftarrow> packets s p; if p_lock d then None else Some (put_packet p (d\<lparr>p_lock := True\<rparr>) s) }"

definition unlock_packet :: "ptr \<Rightarrow> net \<Rightarrow> net option" where
  "unlock_packet p s = do { d \<leftarrow> packets s p; Some (put_packet p (d\<lparr>p_lock := False\<rparr>) s) }"

subsection \<open>Raw IPv4 sockets: \<^verbatim>\<open>raw.c\<close>\<close>

definition raw_ip4_put_to_rx_queue :: "ptr \<Rightarrow> ptr \<Rightarrow> net \<Rightarrow> net option" where
  "raw_ip4_put_to_rx_queue sock p s = do {
     s \<leftarrow> lock_raw sock s;
     s \<leftarrow> net_buffer_acquire p s;
     d \<leftarrow> raws s sock;
     s \<leftarrow> unlock_raw sock (put_raw sock (d\<lparr>r_rx_queue := r_rx_queue d @ [p]\<rparr>) s);
     Some (wake (Poll sock) 0 (wake (Rx sock) 1 s))
   }"

fun raw4_accept_loop :: "ptr list \<Rightarrow> int \<Rightarrow> ptr \<Rightarrow> net \<Rightarrow> net option" where
  "raw4_accept_loop [] protocol p s = Some s"
| "raw4_accept_loop (sock # rest) protocol p s = do {
     k \<leftarrow> socks s sock;
     s \<leftarrow> (if sk_protocol k = protocol then raw_ip4_put_to_rx_queue sock p s else Some s);
     raw4_accept_loop rest protocol p s
   }"

definition raw4_accept_packet :: "int \<Rightarrow> ptr \<Rightarrow> net \<Rightarrow> net option" where
  "raw4_accept_packet protocol p s = raw4_accept_loop (raw_sockets s) protocol p s"

definition sock_raw4_create :: "ptr \<Rightarrow> net \<Rightarrow> (int \<times> net) option" where
  "sock_raw4_create sock s =
     (let (d, s) = kalloc s
      in if d = NULL then Some (- ENOMEM, s)
         else do {
           let s = put_raw sock \<lparr>r_rx_queue = [], r_lock = False, max_ttl = 0\<rparr> s;
           let s = s\<lparr>raw_sockets := raw_sockets s @ [sock]\<rparr>;
           s \<leftarrow> acquire_socket sock s;
           Some (0, s)
         })"

definition sock_raw4_sendto ::
  "env \<Rightarrow> ptr \<Rightarrow> u8 list \<Rightarrow> sockaddr_in option \<Rightarrow> u32 \<Rightarrow> net \<Rightarrow> (int \<times> net) option" where
  "sock_raw4_sendto E sock msg to tolen s =
     (case to of
        None \<Rightarrow> Some (- EINVAL, s)
      | Some a \<Rightarrow>
          if tolen \<noteq> SOCKADDR_LEN then Some (- EINVAL, s)
          else do {
            k \<leftarrow> socks s sock;
            d \<leftarrow> raws s sock;
            case route4_resolve (sin_addr a) s of
              None \<Rightarrow> Some (- ENETUNREACH, s)
            | Some route \<Rightarrow>
                let (resp, s) = new_net_buffer_out 2048 s
                in do {
                  s \<leftarrow> on_nb resp (\<lambda>nb. Some (nb\<lparr>netdev := rt_interface route\<rparr>)) s;
                  s \<leftarrow> net_buffer_acquire resp s;
                  s \<leftarrow> on_nb resp (net_buffer_add_front msg) s;
                  let ttl = (if max_ttl d \<noteq> 0 then max_ttl d else IPV4_DEFAULT_TTL);
                  (rc, s) \<leftarrow> ip4_send_ttl E resp (Some route) (sin_addr a) (of_int (sk_protocol k)) ttl s;
                  s \<leftarrow> net_buffer_free resp s;
                  Some (rc, s)
                }
          })"

text \<open>
  On an empty queue a non-blocking call returns with the lock held. The sender's address is read from the
  packet after the buffer has been released, and the result is 0, not the number of bytes.
\<close>

definition sock_raw4_recvfrom ::
  "env \<Rightarrow> ptr \<Rightarrow> u64 \<Rightarrow> u32 \<Rightarrow> u32 option \<Rightarrow> net \<Rightarrow> (int \<times> u8 list \<times> u32 option \<times> net) option" where
  "sock_raw4_recvfrom E sock len flags src_addr s =
     (if (case src_addr of Some l \<Rightarrow> l \<noteq> SOCKADDR_LEN | None \<Rightarrow> False) then Some (- EINVAL, [], None, s)
      else do {
        s \<leftarrow> lock_raw sock s;
        d \<leftarrow> raws s sock;
        (rc, s) \<leftarrow> (if r_rx_queue d = []
            then if flags AND MSG_DONTWAIT = MSG_DONTWAIT then Some (- EAGAIN, s)
                 else do {
                   s \<leftarrow> unlock_raw sock s;
                   let (sig, s) = sleep_on E s;
                   d \<leftarrow> raws s sock;
                   if r_rx_queue d = [] then Some (- EINTR, s)
                   else do { s \<leftarrow> lock_raw sock s; Some (0, s) }
                 }
            else Some (0, s));
        if rc \<noteq> 0 then Some (rc, [], None, s)
        else do {
          d \<leftarrow> raws s sock;
          (p, qs) \<leftarrow> (case r_rx_queue d of [] \<Rightarrow> None | q # qs \<Rightarrow> Some (q, qs));
          let s = put_raw sock (d\<lparr>r_rx_queue := qs\<rparr>) s;
          nb \<leftarrow> nbufs s p;
          s \<leftarrow> unlock_raw sock s;
          let len = min len (netw_packet_size nb);
          data \<leftarrow> rd (buffer nb) (transp_header nb) (unat len);
          s \<leftarrow> net_buffer_free p s;
          from \<leftarrow> (case src_addr of
              None \<Rightarrow> Some None
            | Some _ \<Rightarrow> do { nb \<leftarrow> nbufs s p; ip \<leftarrow> ld32 (buffer nb) (netw_header nb + 12); Some (Some ip) });
          Some (0, data, from, s)
        }
      })"

definition IP_TTL :: u32 where "IP_TTL = 2"

definition sock_raw4_setsockopt_sol_socket :: "ptr \<Rightarrow> u32 \<Rightarrow> net \<Rightarrow> int \<times> net" where
  "sock_raw4_setsockopt_sol_socket sock optname s = (0, s)"

definition sock_raw4_setsockopt_sol_IP :: "ptr \<Rightarrow> u32 \<Rightarrow> u8 list \<Rightarrow> u32 \<Rightarrow> net \<Rightarrow> (int \<times> net) option" where
  "sock_raw4_setsockopt_sol_IP sock optname optval optlen s =
     (if optname = IP_TTL then
        if optlen < 1 then Some (- EINVAL, s)
        else do {
          val \<leftarrow> ld8 optval 0;
          d \<leftarrow> raws s sock;
          Some (0, put_raw sock (d\<lparr>max_ttl := val\<rparr>) s)
        }
      else Some (0, s))"

definition sock_raw4_setsockopt :: "ptr \<Rightarrow> u32 \<Rightarrow> u32 \<Rightarrow> u8 list \<Rightarrow> u32 \<Rightarrow> net \<Rightarrow> (int \<times> net) option" where
  "sock_raw4_setsockopt sock level optname optval optlen s =
     (if level = 1 then Some (sock_raw4_setsockopt_sol_socket sock optname s)
      else if level = 0 then sock_raw4_setsockopt_sol_IP sock optname optval optlen s
      else Some (0, s))"

definition sock_raw4_poll :: "ptr \<Rightarrow> net \<Rightarrow> u16 option" where
  "sock_raw4_poll sock s = do {
     d \<leftarrow> raws s sock;
     Some ((if r_rx_queue d \<noteq> [] then POLLIN OR POLLRDNORM else 0) OR POLLOUT OR POLLWRNORM)
   }"

definition sock_raw4_drop_recv_buffer :: "ptr \<Rightarrow> net \<Rightarrow> net option" where
  "sock_raw4_drop_recv_buffer sock s = do {
     s \<leftarrow> lock_raw sock s;
     d \<leftarrow> raws s sock;
     s \<leftarrow> free_all (r_rx_queue d) (put_raw sock (d\<lparr>r_rx_queue := []\<rparr>) s);
     unlock_raw sock s
   }"

definition sock_raw4_close :: "ptr \<Rightarrow> net \<Rightarrow> (int \<times> net) option" where
  "sock_raw4_close sock s = do {
     s \<leftarrow> free_socket sock (s\<lparr>raw_sockets := remove1 sock (raw_sockets s)\<rparr>);
     s \<leftarrow> sock_raw4_drop_recv_buffer sock (wake (Rx sock) INT_MAX s);
     Some (0, s)
   }"

subsection \<open>Raw packet sockets: \<^verbatim>\<open>packet_raw.c\<close>\<close>

definition packet_raw_put_to_rx_queue :: "ptr \<Rightarrow> ptr \<Rightarrow> net \<Rightarrow> net option" where
  "packet_raw_put_to_rx_queue sock p s = do {
     s \<leftarrow> lock_packet sock s;
     s \<leftarrow> net_buffer_acquire p s;
     d \<leftarrow> packets s sock;
     s \<leftarrow> unlock_packet sock (put_packet sock (d\<lparr>p_rx_queue := p_rx_queue d @ [p]\<rparr>) s);
     Some (wake (Poll sock) 0 (wake (Rx sock) 1 s))
   }"

fun packet_raw_accept_loop :: "ptr list \<Rightarrow> int \<Rightarrow> ptr \<Rightarrow> net \<Rightarrow> net option" where
  "packet_raw_accept_loop [] protocol p s = Some s"
| "packet_raw_accept_loop (sock # rest) protocol p s = do {
     k \<leftarrow> socks s sock;
     d \<leftarrow> packets s sock;
     nb \<leftarrow> nbufs s p;
     s \<leftarrow> (if sk_protocol k = protocol \<and> p_nic d = netdev nb then packet_raw_put_to_rx_queue sock p s else Some s);
     packet_raw_accept_loop rest protocol p s
   }"

definition packet_raw_accept_packet :: "int \<Rightarrow> ptr \<Rightarrow> net \<Rightarrow> net option" where
  "packet_raw_accept_packet protocol p s = packet_raw_accept_loop (packet_raw_sockets s) protocol p s"

definition sock_packet_raw_create :: "ptr \<Rightarrow> net \<Rightarrow> (int \<times> net) option" where
  "sock_packet_raw_create sock s =
     (let (d, s) = kalloc s
      in if d = NULL then Some (- ENOMEM, s)
         else do {
           let s = put_packet sock \<lparr>p_nic = NULL, p_rx_queue = [], p_lock = False\<rparr> s;
           let s = s\<lparr>packet_raw_sockets := packet_raw_sockets s @ [sock]\<rparr>;
           s \<leftarrow> acquire_socket sock s;
           Some (0, s)
         })"

text \<open>\<^verbatim>\<open>struct packet_sockaddr_in\<close> is the family and the interface name (14 bytes).\<close>

definition sock_packet_raw_bind :: "ptr \<Rightarrow> u16 \<Rightarrow> u8 list \<Rightarrow> u32 \<Rightarrow> net \<Rightarrow> (int \<times> net) option" where
  "sock_packet_raw_bind sock family ifname addrlen s =
     (if family \<noteq> AF_PACKET \<or> addrlen \<noteq> 14 then Some (- EINVAL, s)
      else do {
        d \<leftarrow> packets s sock;
        nic \<leftarrow> get_nic_by_name ifname s;
        let s = put_packet sock (d\<lparr>p_nic := nic\<rparr>) s;
        if nic = NULL then Some (- ENODEV, s) else Some (0, s)
      })"

text \<open>The message itself is what the driver gets; the buffer made beside it only bounds its length.\<close>

definition sock_packet_raw_sendto ::
  "env \<Rightarrow> ptr \<Rightarrow> u8 list \<Rightarrow> sockaddr_in option \<Rightarrow> u32 \<Rightarrow> net \<Rightarrow> (int \<times> net) option" where
  "sock_packet_raw_sendto E sock msg to tolen s =
     (if to \<noteq> None \<or> tolen \<noteq> 0 then Some (- EINVAL, s)
      else do {
        d \<leftarrow> packets s sock;
        if p_nic d = NULL then Some (- ENODEV, s)
        else let (resp, s) = new_net_buffer_out 2048 s
             in do {
               s \<leftarrow> on_nb resp (\<lambda>nb. Some (nb\<lparr>netdev := p_nic d\<rparr>)) s;
               s \<leftarrow> net_buffer_acquire resp s;
               s \<leftarrow> on_nb resp (net_buffer_add_front msg) s;
               let rc = tx_rc E (p_nic d) msg;
               let s = s\<lparr>out := out s @ [(p_nic d, msg)]\<rparr>;
               s \<leftarrow> net_buffer_free resp s;
               Some (rc, s)
             }
      })"

definition sock_packet_raw_recvfrom ::
  "env \<Rightarrow> ptr \<Rightarrow> u64 \<Rightarrow> u32 \<Rightarrow> u32 option \<Rightarrow> net \<Rightarrow> (int \<times> u8 list \<times> u8 list option \<times> net) option" where
  "sock_packet_raw_recvfrom E sock len flags src_addr s =
     (if (case src_addr of Some l \<Rightarrow> l \<noteq> 14 | None \<Rightarrow> False) then Some (- EINVAL, [], None, s)
      else do {
        s \<leftarrow> lock_packet sock s;
        d \<leftarrow> packets s sock;
        (rc, s) \<leftarrow> (if p_rx_queue d = []
            then if flags AND MSG_DONTWAIT = MSG_DONTWAIT then Some (- EAGAIN, s)
                 else do {
                   s \<leftarrow> unlock_packet sock s;
                   let (sig, s) = sleep_on E s;
                   d \<leftarrow> packets s sock;
                   if p_rx_queue d = [] then Some (- EINTR, s)
                   else do { s \<leftarrow> lock_packet sock s; Some (0, s) }
                 }
            else Some (0, s));
        if rc \<noteq> 0 then Some (rc, [], None, s)
        else do {
          d \<leftarrow> packets s sock;
          (p, qs) \<leftarrow> (case p_rx_queue d of [] \<Rightarrow> None | q # qs \<Rightarrow> Some (q, qs));
          s \<leftarrow> unlock_packet sock (put_packet sock (d\<lparr>p_rx_queue := qs\<rparr>) s);
          nb \<leftarrow> nbufs s p;
          let len = min len (of_nat (length (buffer nb)));
          data \<leftarrow> rd (buffer nb) 0 (unat len);
          s \<leftarrow> net_buffer_free p s;
          from \<leftarrow> (case src_addr of
              None \<Rightarrow> Some None
            | Some _ \<Rightarrow> do { nb \<leftarrow> nbufs s p; nic \<leftarrow> nics s (netdev nb); Some (Some (nic_name nic)) });
          Some (0, data, from, s)
        }
      })"

definition sock_packet_raw_poll :: "ptr \<Rightarrow> net \<Rightarrow> u16 option" where
  "sock_packet_raw_poll sock s = do {
     d \<leftarrow> packets s sock;
     Some ((if p_rx_queue d \<noteq> [] then POLLIN OR POLLRDNORM else 0) OR POLLOUT OR POLLWRNORM)
   }"

definition sock_packet_raw_drop_recv_buffer :: "ptr \<Rightarrow> net \<Rightarrow> net option" where
  "sock_packet_raw_drop_recv_buffer sock s = do {
     s \<leftarrow> lock_packet sock s;
     d \<leftarrow> packets s sock;
     s \<leftarrow> free_all (p_rx_queue d) (put_packet sock (d\<lparr>p_rx_queue := []\<rparr>) s);
     unlock_packet sock s
   }"

text \<open>The function has no return statement; its result is not specified and not part of the model.\<close>

definition sock_packet_raw_close :: "ptr \<Rightarrow> net \<Rightarrow> net option" where
  "sock_packet_raw_close sock s = do {
     s \<leftarrow> free_socket sock (s\<lparr>packet_raw_sockets := remove1 sock (packet_raw_sockets s)\<rparr>);
     sock_packet_raw_drop_recv_buffer sock (wake (Rx sock) INT_MAX s)
   }"

text \<open>C37. A non-blocking \<open>sock_raw4_recvfrom\<close> on an empty queue returns \<open>EAGAIN\<close> with the lock of the receive queue held:
  from then on the delivery of a packet to the socket, another read and closing the queue spin forever.\<close>

theorem raw_recv_keeps_lock:
  assumes "raws s sock = Some d" and "r_rx_queue d = []" and "\<not> r_lock d" and "flags AND MSG_DONTWAIT = MSG_DONTWAIT"
  shows "\<exists>s'. sock_raw4_recvfrom E sock len flags None s = Some (- EAGAIN, [], None, s') \<and>
    raw_ip4_put_to_rx_queue sock p s' = None \<and> sock_raw4_recvfrom E' sock len' flags' None s' = None \<and>
    sock_raw4_drop_recv_buffer sock s' = None"
proof -
  let ?s = "put_raw sock (d\<lparr>r_lock := True\<rparr>) s"
  have lock: "lock_raw sock s = Some ?s" "lock_raw sock ?s = None" "raws ?s sock = Some (d\<lparr>r_lock := True\<rparr>)"
    using assms by (simp_all add: lock_raw_def put_raw_def)
  have "sock_raw4_recvfrom E sock len flags None s = Some (- EAGAIN, [], None, ?s)"
    using assms lock by (simp add: sock_raw4_recvfrom_def)
  with lock(2) show ?thesis
    by (intro exI [of _ ?s]) (simp add: raw_ip4_put_to_rx_queue_def sock_raw4_recvfrom_def sock_raw4_drop_recv_buffer_def)
qed

definition raw_sample :: net where
  "raw_sample = net_blank\<lparr>raws := [0x100 \<mapsto> \<lparr>r_rx_queue = [], r_lock = False, max_ttl = 0\<rparr>]\<rparr>"

theorem raw_recv_keeps_lock_witness:
  "\<exists>s'. sock_raw4_recvfrom quiet_env 0x100 10 MSG_DONTWAIT None raw_sample = Some (- EAGAIN, [], None, s') \<and>
    raw_ip4_put_to_rx_queue 0x100 0x300 s' = None \<and> sock_raw4_recvfrom quiet_env 0x100 10 0 None s' = None \<and>
    sock_raw4_drop_recv_buffer 0x100 s' = None"
  by (rule raw_recv_keeps_lock [where d = "\<lparr>r_rx_queue = [], r_lock = False, max_ttl = 0\<rparr>"])
    (simp_all add: raw_sample_def)

end
