(* ===== verification/Siphash.thy ===== *)
theory Siphash
  imports Netbuf
begin

text \<open>
  The keyed hash of \<^verbatim>\<open>kairax/siphash.c\<close> that TCP derives its SYN cookies from.
\<close>

definition ROTL64 :: "u64 \<Rightarrow> nat \<Rightarrow> u64" where
  "ROTL64 a b = push_bit b a OR drop_bit (64 - b) a"

type_synonym sipstate = "u64 \<times> u64 \<times> u64 \<times> u64"

definition SIPHASH_PERMUTATION :: "sipstate \<Rightarrow> sipstate" where
  "SIPHASH_PERMUTATION = (\<lambda>(a, b, c, d).
     let a = a + b; b = ROTL64 b 13; b = b XOR a; a = ROTL64 a 32;
         c = c + d; d = ROTL64 d 16; d = d XOR c;
         a = a + d; d = ROTL64 d 21; d = d XOR a;
         c = c + b; b = ROTL64 b 17; b = b XOR c; c = ROTL64 c 32
     in (a, b, c, d))"

definition siphash_b :: "int \<Rightarrow> u64" where
  "siphash_b len = push_bit 56 (of_int len)"

text \<open>The sixteen bytes of the key, one random number each.\<close>

fun keygen_bytes :: "nat \<Rightarrow> net \<Rightarrow> u8 list \<times> net" where
  "keygen_bytes 0 s = ([], s)"
| "keygen_bytes (Suc n) s =
     (let (r, s) = krand s; (bs, s) = keygen_bytes n s in (ucast r # bs, s))"

definition le64_of :: "u8 list \<Rightarrow> u64" where
  "le64_of bs = foldr (\<lambda>b acc. ucast b OR push_bit 8 acc) bs 0"

definition siphash_keygen :: "net \<Rightarrow> (u64 \<times> u64) \<times> net" where
  "siphash_keygen s =
     (let (bs, s) = keygen_bytes 16 s in ((le64_of (take 8 bs), le64_of (drop 8 bs)), s))"

definition siphash_2u64 :: "u64 \<Rightarrow> u64 \<Rightarrow> u64 \<times> u64 \<Rightarrow> u64" where
  "siphash_2u64 first second key =
     (let v0 = 0x736f6d6570736575; v1 = 0x646f72616e646f6d;
          v2 = 0x6c7967656e657261; v3 = 0x7465646279746573;
          b = siphash_b 16;
          v3 = v3 XOR snd key; v2 = v2 XOR fst key; v1 = v1 XOR snd key; v0 = v0 XOR fst key;
          v3 = v3 XOR first;
          (v0, v1, v2, v3) = SIPHASH_PERMUTATION (SIPHASH_PERMUTATION (v0, v1, v2, v3));
          v0 = v0 XOR first; v3 = v3 XOR second;
          (v0, v1, v2, v3) = SIPHASH_PERMUTATION (SIPHASH_PERMUTATION (v0, v1, v2, v3));
          v0 = v0 XOR second;
          v3 = v3 XOR b;
          (v0, v1, v2, v3) = SIPHASH_PERMUTATION (SIPHASH_PERMUTATION (v0, v1, v2, v3));
          v0 = v0 XOR b; v2 = v2 XOR 0xff;
          (v0, v1, v2, v3) = SIPHASH_PERMUTATION (SIPHASH_PERMUTATION (SIPHASH_PERMUTATION
             (SIPHASH_PERMUTATION (v0, v1, v2, v3))))
      in (v0 XOR v1) XOR (v2 XOR v3))"

definition siphash_4u32 :: "u32 \<Rightarrow> u32 \<Rightarrow> u32 \<Rightarrow> u32 \<Rightarrow> u64 \<times> u64 \<Rightarrow> u64" where
  "siphash_4u32 a b c d key =
     siphash_2u64 (push_bit 32 (ucast b) OR ucast a) (push_bit 32 (ucast d) OR ucast c) key"

subsection \<open>The reference hash\<close>

text \<open>
  SipHash-2-4 of a byte string, after its specification: the message is cut into 64-bit little-endian words;
  the last word holds the remaining bytes and, in its top byte, the length of the message; two rounds per
  word, four to finish.
\<close>

type_synonym rounds = "sipstate \<Rightarrow> sipstate"

definition sip_absorb :: "u64 \<Rightarrow> sipstate \<Rightarrow> sipstate" where
  "sip_absorb m = (\<lambda>(v0, v1, v2, v3).
     case (SIPHASH_PERMUTATION ^^ 2) (v0, v1, v2, v3 XOR m) of (v0, v1, v2, v3) \<Rightarrow> (v0 XOR m, v1, v2, v3))"

fun sip_words :: "u8 list \<Rightarrow> nat \<Rightarrow> u64 list" where
  "sip_words (a # b # c # d # e # f # g # h # bs) n = le64_of [a, b, c, d, e, f, g, h] # sip_words bs n"
| "sip_words bs n = [le64_of bs OR push_bit 56 (of_nat n)]"

definition siphash24 :: "u64 \<times> u64 \<Rightarrow> u8 list \<Rightarrow> u64" where
  "siphash24 key msg =
     (case key of (k0, k1) \<Rightarrow>
      case fold sip_absorb (sip_words msg (length msg))
             (0x736f6d6570736575 XOR k0, 0x646f72616e646f6d XOR k1,
              0x6c7967656e657261 XOR k0, 0x7465646279746573 XOR k1) of (v0, v1, v2, v3) \<Rightarrow>
      case (SIPHASH_PERMUTATION ^^ 4) (v0, v1, v2 XOR 0xff, v3) of (v0, v1, v2, v3) \<Rightarrow>
      (v0 XOR v1) XOR (v2 XOR v3))"

lemma le32_shift: "foldr (\<lambda>b acc. ucast b OR push_bit 8 acc) (le32 a) x = (ucast a OR push_bit 32 x :: u64)"
proof (rule bit_eqI)
  fix n :: nat
  consider "n < 8" | "8 \<le> n" "n < 16" | "16 \<le> n" "n < 24" | "24 \<le> n" "n < 32" | "32 \<le> n" by linarith
  then show "bit (foldr (\<lambda>b acc. ucast b OR push_bit 8 acc) (le32 a) x) n = bit (ucast a OR push_bit 32 x :: u64) n"
    by cases (auto simp: le32_def bit_or_iff bit_push_bit_iff bit_unsigned_iff bit_drop_bit_eq dest: bit_imp_le_length)
qed

lemma le64_pair: "le64_of (le32 a @ le32 b) = push_bit 32 (ucast b) OR ucast a"
  by (simp add: le64_of_def le32_shift or.commute)

lemma sip_rounds:
  "(SIPHASH_PERMUTATION ^^ 2) v = SIPHASH_PERMUTATION (SIPHASH_PERMUTATION v)"
  "(SIPHASH_PERMUTATION ^^ 4) v = SIPHASH_PERMUTATION (SIPHASH_PERMUTATION (SIPHASH_PERMUTATION (SIPHASH_PERMUTATION v)))"
  by (simp_all add: eval_nat_numeral)

lemma siphash_2u64_words:
  "siphash_2u64 m1 m2 (k0, k1) =
     (case fold sip_absorb [m1, m2, siphash_b 16]
             (0x736f6d6570736575 XOR k0, 0x646f72616e646f6d XOR k1,
              0x6c7967656e657261 XOR k0, 0x7465646279746573 XOR k1) of (v0, v1, v2, v3) \<Rightarrow>
      case (SIPHASH_PERMUTATION ^^ 4) (v0, v1, v2 XOR 0xff, v3) of (v0, v1, v2, v3) \<Rightarrow>
      (v0 XOR v1) XOR (v2 XOR v3))"
proof -
  define P where "P = SIPHASH_PERMUTATION"
  obtain a0 a1 a2 a3 where A: "P (P (0x736f6d6570736575 XOR k0, 0x646f72616e646f6d XOR k1,
      0x6c7967656e657261 XOR k0, (0x7465646279746573 XOR k1) XOR m1)) = (a0, a1, a2, a3)" by (metis prod_cases4)
  obtain b0 b1 b2 b3 where B: "P (P (a0 XOR m1, a1, a2, a3 XOR m2)) = (b0, b1, b2, b3)" by (metis prod_cases4)
  obtain d0 d1 d2 d3 where D: "P (P (b0 XOR m2, b1, b2, b3 XOR siphash_b 16)) = (d0, d1, d2, d3)" by (metis prod_cases4)
  show ?thesis
    by (simp only: siphash_2u64_def sip_absorb_def P_def [symmetric] sip_rounds [folded P_def] Let_def fst_conv snd_conv
          A B D prod.case fold_simps)
qed


end
