(* ===== verification/Tcp.thy ===== *)
theory Tcp
  imports Sockets Siphash
begin

text \<open>
  TCP over IPv4: \<^verbatim>\<open>net/ipv4/tcp.c\<close>. Socket data lives in \<open>tcps\<close>, indexed by the socket; the port table is
  \<open>tcp4_bindings\<close>. Each handler runs as one step between the points where it sleeps; waiting loops are partial
  functions, so that waiting forever has no result.
\<close>

definition TCP_FLAG_FIN :: u16 where "TCP_FLAG_FIN = 1"
definition TCP_FLAG_SYN :: u16 where "TCP_FLAG_SYN = 2"
definition TCP_FLAG_RST :: u16 where "TCP_FLAG_RST = 4"
definition TCP_FLAG_PSH :: u16 where "TCP_FLAG_PSH = 8"
definition TCP_FLAG_ACK :: u16 where "TCP_FLAG_ACK = 16"
definition TCP_FLAG_SYNACK :: u16 where "TCP_FLAG_SYNACK = TCP_FLAG_SYN OR TCP_FLAG_ACK"
definition TCP_HEADER_SZ_VAL :: u16 where "TCP_HEADER_SZ_VAL = push_bit 12 5"

definition put_tcp :: "ptr \<Rightarrow> tcp4_socket_data \<Rightarrow> net \<Rightarrow> net" where
  "put_tcp p d s = s\<lparr>tcps := (tcps s)(p \<mapsto> d)\<rparr>"

definition on_tcp :: "ptr \<Rightarrow> (tcp4_socket_data \<Rightarrow> tcp4_socket_data) \<Rightarrow> net \<Rightarrow> net option" where
  "on_tcp p f s = do { d \<leftarrow> tcps s p; Some (put_tcp p (f d) s) }"

subsection \<open>Segments\<close>

text \<open>\<^verbatim>\<open>struct tcp_packet\<close> as the senders fill it, and \<^verbatim>\<open>struct tcp_checksum_proto\<close>\<close>

definition tcp_packet :: "u16 \<Rightarrow> u16 \<Rightarrow> u32 \<Rightarrow> u32 \<Rightarrow> u16 \<Rightarrow> u16 \<Rightarrow> u8 list" where
  "tcp_packet sport dport sn ack flags checksum =
     le16 sport @ le16 dport @ le32 sn @ le32 ack @ le16 (htons (flags OR TCP_HEADER_SZ_VAL)) @
     le16 (htons 65535) @ le16 checksum @ le16 0"

definition tcp_checksum_proto :: "u32 \<Rightarrow> u32 \<Rightarrow> u16 \<Rightarrow> u8 list" where
  "tcp_checksum_proto src dst len = le32 src @ le32 dst @ [0, IPV4_PROTOCOL_TCP] @ le16 len"

text \<open>
  The steps all senders share: a fresh buffer of \<open>n\<close> bytes on the route's interface, the payload, and in front
  of it the header with its checksum.
\<close>

definition tcp_fill :: "nat \<Rightarrow> route4 \<Rightarrow> u32 \<Rightarrow> u32 \<Rightarrow> (u16 \<Rightarrow> u8 list) \<Rightarrow> u8 list \<Rightarrow> net \<Rightarrow> (ptr \<times> net) option" where
  "tcp_fill n route src dst pkt msg s =
     (let (p, s) = new_net_buffer_out n s
      in do {
        s \<leftarrow> on_nb p (\<lambda>nb. Some (nb\<lparr>netdev := rt_interface route\<rparr>)) s;
        s \<leftarrow> on_nb p (net_buffer_add_front msg) s;
        let proto = tcp_checksum_proto src dst (htons (20 + of_nat (length msg)));
        let checksum = htons (tcp_ip4_calc_checksum proto (pkt 0) msg (length msg));
        s \<leftarrow> on_nb p (net_buffer_add_front (pkt checksum)) s;
        Some (p, s)
      })"

definition tcp_transmit :: "env \<Rightarrow> ptr \<Rightarrow> route4 \<Rightarrow> u32 \<Rightarrow> net \<Rightarrow> (int \<times> net) option" where
  "tcp_transmit E p route dst s = do {
     (rc, s) \<leftarrow> ip4_send E p (Some route) dst IPV4_PROTOCOL_TCP s;
     s \<leftarrow> net_buffer_free p s;
     Some (rc, s)
   }"

definition tcp_ip4_ack :: "env \<Rightarrow> ptr \<Rightarrow> net \<Rightarrow> (int \<times> net) option" where
  "tcp_ip4_ack E sock s = do {
     d \<leftarrow> tcps s sock;
     case route4_resolve (sin_addr (t_addr d)) s of
       None \<Rightarrow> Some (- ENETUNREACH, s)
     | Some route \<Rightarrow> do {
         nic \<leftarrow> nics s (rt_interface route);
         let dst = sin_addr (t_addr d);
         (p, s) \<leftarrow> tcp_fill 1024 route (ipv4_addr nic) dst
            (tcp_packet (htons (src_port d)) (sin_port (t_addr d)) (ntohl (t_sn d)) (ntohl (t_ack d)) TCP_FLAG_ACK) [] s;
         tcp_transmit E p route dst s
       }
   }"

definition tcp_ip4_fin :: "env \<Rightarrow> ptr \<Rightarrow> net \<Rightarrow> (int \<times> net) option" where
  "tcp_ip4_fin E sock s = do {
     d \<leftarrow> tcps s sock;
     case route4_resolve (sin_addr (t_addr d)) s of
       None \<Rightarrow> Some (- ENETUNREACH, s)
     | Some route \<Rightarrow> do {
         nic \<leftarrow> nics s (rt_interface route);
         let dst = sin_addr (t_addr d);
         (p, s) \<leftarrow> tcp_fill 1024 route (ipv4_addr nic) dst
            (tcp_packet (htons (src_port d)) (sin_port (t_addr d)) (ntohl (t_sn d)) (ntohl (t_ack d))
               (TCP_FLAG_FIN OR TCP_FLAG_ACK)) [] s;
         s \<leftarrow> on_tcp sock (\<lambda>d. d\<lparr>t_sn := t_sn d + 1\<rparr>) s;
         tcp_transmit E p route dst s
       }
   }"

text \<open>The fields of a received segment, as read from the packet (network byte order).\<close>

record segment =
  sg_sport :: u16
  sg_dport :: u16
  sg_sn :: u32
  sg_ack :: u32
  sg_src :: u32
  sg_dst :: u32

definition read_segment :: "net_buffer \<Rightarrow> segment option" where
  "read_segment nb = do {
     let b = buffer nb;
     sport \<leftarrow> ld16 b (transp_header nb);
     dport \<leftarrow> ld16 b (transp_header nb + 2);
     sn \<leftarrow> ld32 b (transp_header nb + 4);
     ack \<leftarrow> ld32 b (transp_header nb + 8);
     src \<leftarrow> ld32 b (netw_header nb + 12);
     dst \<leftarrow> ld32 b (netw_header nb + 16);
     Some \<lparr>sg_sport = sport, sg_dport = dport, sg_sn = sn, sg_ack = ack, sg_src = src, sg_dst = dst\<rparr>
   }"

definition tcp_ip4_err_rst :: "env \<Rightarrow> segment \<Rightarrow> net \<Rightarrow> (int \<times> net) option" where
  "tcp_ip4_err_rst E g s =
     (case route4_resolve (sg_src g) s of
        None \<Rightarrow> Some (- ENETUNREACH, s)
      | Some route \<Rightarrow> do {
          nic \<leftarrow> nics s (rt_interface route);
          (p, s) \<leftarrow> tcp_fill 1024 route (ipv4_addr nic) (sg_src g)
             (tcp_packet (sg_dport g) (sg_sport g) 0 (sg_sn g) (TCP_FLAG_RST OR TCP_FLAG_ACK)) [] s;
          tcp_transmit E p route (sg_src g) s
        })"

subsection \<open>Ports and listeners\<close>

definition tcp_ip4_alloc_dynamic_port :: "ptr \<Rightarrow> net \<Rightarrow> (bool \<times> net) option" where
  "tcp_ip4_alloc_dynamic_port sock s = do {
     d \<leftarrow> tcps s sock;
     case find_port (tcp4_bindings s) TCP_DYNAMIC_PORT of
       None \<Rightarrow> Some (False, s)
     | Some port \<Rightarrow> do {
         let s = put_tcp sock (d\<lparr>src_port := of_nat port\<rparr>) s;
         let s = s\<lparr>tcp4_bindings := (tcp4_bindings s)(of_nat port := sock)\<rparr>;
         s \<leftarrow> acquire_socket sock s;
         Some (True, s)
       }
   }"

definition tcp_ip4_unbind_sock :: "ptr \<Rightarrow> net \<Rightarrow> net option" where
  "tcp_ip4_unbind_sock sock s = do {
     d \<leftarrow> tcps s sock;
     if tcp4_bindings s (bound_port d) = sock
     then free_socket sock (s\<lparr>tcp4_bindings := (tcp4_bindings s)(bound_port d := NULL)\<rparr>)
     else Some s
   }"

definition tcp_ip4_listener_add :: "ptr \<Rightarrow> ptr \<Rightarrow> net \<Rightarrow> net option" where
  "tcp_ip4_listener_add lst client s = do {
     s \<leftarrow> on_tcp lst (\<lambda>d. d\<lparr>children := children d @ [client]\<rparr>) s;
     acquire_socket client s
   }"

definition tcp_ip4_listener_remove :: "ptr \<Rightarrow> ptr \<Rightarrow> net \<Rightarrow> net option" where
  "tcp_ip4_listener_remove sock client s = do {
     s \<leftarrow> on_tcp sock (\<lambda>d. d\<lparr>children := remove1 client (children d)\<rparr>) s;
     d \<leftarrow> tcps s sock;
     s \<leftarrow> free_socket client s;
     k \<leftarrow> socks s sock;
     if sk_state k = UNCONNECTED \<and> children d = [] then tcp_ip4_unbind_sock sock s else Some s
   }"

fun listener_find :: "(ptr \<rightharpoonup> tcp4_socket_data) \<Rightarrow> ptr list \<Rightarrow> u32 \<Rightarrow> u16 \<Rightarrow> ptr option" where
  "listener_find ts [] addr port = Some NULL"
| "listener_find ts (c # cs) addr port = do {
     d \<leftarrow> ts c;
     if sin_port (t_addr d) = port \<and> sin_addr (t_addr d) = addr then Some c else listener_find ts cs addr port
   }"

definition tcp_ip4_listener_get :: "ptr \<Rightarrow> u32 \<Rightarrow> u16 \<Rightarrow> net \<Rightarrow> ptr option" where
  "tcp_ip4_listener_get lst addr port s = do { d \<leftarrow> tcps s lst; listener_find (tcps s) (children d) addr port }"

definition tcp_ip4_destroy :: "ptr \<Rightarrow> net \<Rightarrow> net option" where
  "tcp_ip4_destroy sock s = do {
     d \<leftarrow> tcps s sock;
     s \<leftarrow> set_state sock UNCONNECTED s;
     if listener d \<noteq> NULL then tcp_ip4_listener_remove (listener d) sock s
     else tcp_ip4_unbind_sock sock (wake (Poll sock) 0 s)
   }"

subsection \<open>Receiving\<close>

definition tcp_ip4_handle_ack :: "ptr \<Rightarrow> net \<Rightarrow> net option" where
  "tcp_ip4_handle_ack sock s = do {
     k \<leftarrow> socks s sock;
     if sk_state k = LAST_ACK then tcp_ip4_destroy sock s
     else if sk_state k = CLOSING then tcp_ip4_destroy sock s
     else if sk_state k = FIN_WAIT1 then set_state sock FIN_WAIT2 s
     else Some s
   }"

text \<open>\<open>sock_data->ack += 1\<close> and the acknowledgement\<close>

definition ack_fin :: "env \<Rightarrow> ptr \<Rightarrow> net \<Rightarrow> net option" where
  "ack_fin E sock s = do {
     s \<leftarrow> on_tcp sock (\<lambda>d. d\<lparr>t_ack := t_ack d + 1\<rparr>) s;
     (rc, s) \<leftarrow> tcp_ip4_ack E sock s;
     Some s
   }"

definition tcp_ip4_handle_fin :: "env \<Rightarrow> ptr \<Rightarrow> bool \<Rightarrow> net \<Rightarrow> net option" where
  "tcp_ip4_handle_fin E sock has_ack s = do {
     k \<leftarrow> socks s sock;
     if sk_state k = CONNECTED then do {
       s \<leftarrow> set_state sock CLOSE_WAIT s;
       s \<leftarrow> on_tcp sock (\<lambda>d. d\<lparr>shut_rd := True\<rparr>) s;
       s \<leftarrow> ack_fin E sock s;
       Some (wake (Poll sock) 0 (wake (Rx sock) INT_MAX s))
     }
     else if sk_state k = FIN_WAIT1 \<and> \<not> has_ack then do {
       s \<leftarrow> set_state sock CLOSING s;
       ack_fin E sock s
     }
     else if sk_state k = FIN_WAIT1 \<and> has_ack then do {
       s \<leftarrow> ack_fin E sock s;
       tcp_ip4_destroy sock s
     }
     else if sk_state k = FIN_WAIT2 then do {
       s \<leftarrow> ack_fin E sock s;
       tcp_ip4_destroy sock s
     }
     else Some s
   }"

definition tcp_ip4_make_syn_cookie :: "u32 \<Rightarrow> u32 \<Rightarrow> u16 \<Rightarrow> u16 \<Rightarrow> u32 \<Rightarrow> net \<Rightarrow> u32" where
  "tcp_ip4_make_syn_cookie saddr destaddr srcport dstport seq s =
     (let ports = push_bit 16 (ucast srcport) OR ucast dstport;
          t = ucast (drop_bit 6 (now s))
      in ucast (siphash_4u32 saddr destaddr ports t (syncookie_key s)))"

definition tcp_ip4_handle_syn :: "env \<Rightarrow> segment \<Rightarrow> net \<Rightarrow> net option" where
  "tcp_ip4_handle_syn E g s =
     (let sn = tcp_ip4_make_syn_cookie (sg_src g) (sg_dst g) (sg_sport g) (sg_dport g) (sg_sn g) s;
          ack = ntohl (sg_sn g) + 1
      in case route4_resolve (sg_src g) s of
           None \<Rightarrow> Some s
         | Some route \<Rightarrow> do {
             (p, s) \<leftarrow> tcp_fill 2048 route (sg_dst g) (sg_src g)
                (tcp_packet (sg_dport g) (sg_sport g) (ntohl sn) (ntohl ack) (TCP_FLAG_SYN OR TCP_FLAG_ACK)) [] s;
             (rc, s) \<leftarrow> tcp_transmit E p route (sg_src g) s;
             Some s
           })"

definition tcp_ip4_listener_handle_ack :: "ptr \<Rightarrow> segment \<Rightarrow> net \<Rightarrow> (bool \<times> net) option" where
  "tcp_ip4_listener_handle_ack sock g s = do {
     d \<leftarrow> tcps s sock;
     let old_client_sn = htonl (ntohl (sg_sn g) - 1);
     let old_server_sn = ntohl (sg_ack g) - 1;
     let calculated_cookie = tcp_ip4_make_syn_cookie (sg_src g) (sg_dst g) (sg_sport g) (sg_dport g) old_client_sn s;
     if calculated_cookie = old_server_sn then
       if length (accept_queue d) \<ge> unat (backlog_sz d) then Some (False, s)
       else
         let (request, s) = kalloc s
         in if request = NULL then None
            else
              let req = \<lparr>cr_sn = old_server_sn, cr_ack = ntohl (sg_sn g), cr_addr = sg_src g, cr_port = sg_sport g\<rparr>;
                  s = put_tcp sock (d\<lparr>accept_queue := accept_queue d @ [req]\<rparr>) s
              in Some (True, wake (Poll sock) 0 (wake (Backlog sock) 1 s))
     else Some (False, s)
   }"

definition tcp_ip4_put_to_rx_queue :: "ptr \<Rightarrow> ptr \<Rightarrow> net \<Rightarrow> net option" where
  "tcp_ip4_put_to_rx_queue sock p s = do {
     d \<leftarrow> tcps s sock;
     if shut_rd d then Some s
     else do {
       s \<leftarrow> net_buffer_acquire p s;
       let s = put_tcp sock (d\<lparr>t_rx_queue := t_rx_queue d @ [p]\<rparr>) s;
       Some (wake (Poll sock) 0 (wake (Rx sock) 1 s))
     }
   }"

definition tcp_ip4_sock_drop_recv_buffer :: "ptr \<Rightarrow> net \<Rightarrow> net option" where
  "tcp_ip4_sock_drop_recv_buffer sock s = do {
     d \<leftarrow> tcps s sock;
     free_all (t_rx_queue d) (put_tcp sock (d\<lparr>t_rx_queue := []\<rparr>) s)
   }"

text \<open>
  The branches of \<open>tcp_ip4_handle\<close> for a segment that belongs to the socket \<open>sock\<close>, with the return code. \<open>lsn\<close> says
  whether the socket bound to the port is listening.
\<close>

definition tcp_deliver :: "env \<Rightarrow> ptr \<Rightarrow> ptr \<Rightarrow> segment \<Rightarrow> u16 \<Rightarrow> u64 \<Rightarrow> bool \<Rightarrow> net \<Rightarrow> (int \<times> net) option" where
  "tcp_deliver E sock p g flags psize lsn s =
     (if flags AND TCP_FLAG_SYNACK = TCP_FLAG_SYN then
        if \<not> lsn then do { (rc, s) \<leftarrow> tcp_ip4_err_rst E g s; Some (1, s) }
        else do { s \<leftarrow> tcp_ip4_handle_syn E g s; Some (0, s) }
      else if flags AND TCP_FLAG_SYNACK = TCP_FLAG_SYNACK then do {
        s \<leftarrow> on_tcp sock (\<lambda>d. d\<lparr>t_ack := htonl (sg_sn g) + 1, t_sn := t_sn d + 1\<rparr>) s;
        (rc, s) \<leftarrow> tcp_ip4_ack E sock s;
        s \<leftarrow> set_state sock CONNECTED s;
        s \<leftarrow> on_tcp sock (\<lambda>d. d\<lparr>was_connected := True\<rparr>) s;
        Some (0, wake (Poll sock) 0 (wake (Rx sock) 1 s))
      }
      else if flags AND TCP_FLAG_PSH = TCP_FLAG_PSH then do {
        s \<leftarrow> on_tcp sock (\<lambda>d. d\<lparr>t_ack := htonl (sg_sn g) + ucast psize\<rparr>) s;
        (rc, s) \<leftarrow> tcp_ip4_ack E sock s;
        s \<leftarrow> tcp_ip4_put_to_rx_queue sock p s;
        Some (0, s)
      }
      else if flags AND TCP_FLAG_FIN = TCP_FLAG_FIN then do {
        s \<leftarrow> tcp_ip4_handle_fin E sock (flags AND TCP_FLAG_ACK = TCP_FLAG_ACK) s;
        Some (0, s)
      }
      else if flags AND TCP_FLAG_RST = TCP_FLAG_RST then do {
        s \<leftarrow> set_state sock UNCONNECTED s;
        s \<leftarrow> on_tcp sock (\<lambda>d. d\<lparr>is_rst := True\<rparr>) s;
        s \<leftarrow> tcp_ip4_sock_drop_recv_buffer sock s;
        Some (0, wake (Poll sock) 0 (wake (Rx sock) INT_MAX s))
      }
      else if flags AND TCP_FLAG_ACK = TCP_FLAG_ACK then do {
        s \<leftarrow> tcp_ip4_handle_ack sock s;
        Some (0, s)
      }
      else Some (0, s))"

text \<open>The socket a segment is for: the bound one, or its child; \<open>Inl rc\<close> when the handler is done.\<close>

definition tcp_demux :: "env \<Rightarrow> ptr \<Rightarrow> segment \<Rightarrow> u16 \<Rightarrow> net \<Rightarrow> ((int + ptr) \<times> net) option" where
  "tcp_demux E sock g flags s = do {
     d \<leftarrow> tcps s sock;
     if is_listener d \<and> flags AND TCP_FLAG_SYNACK \<noteq> TCP_FLAG_SYN then do {
       child \<leftarrow> tcp_ip4_listener_get sock (sg_src g) (sg_sport g) s;
       if child = NULL then do {
         (handled, s) \<leftarrow> (if flags AND TCP_FLAG_ACK = TCP_FLAG_ACK then tcp_ip4_listener_handle_ack sock g s
                           else Some (False, s));
         if handled then do { s \<leftarrow> free_socket sock s; Some (Inl 0, s) }
         else do {
           (rc, s) \<leftarrow> tcp_ip4_err_rst E g s;
           s \<leftarrow> free_socket sock s;
           Some (Inl (- 1), s)
         }
       }
       else do {
         s \<leftarrow> free_socket sock s;
         s \<leftarrow> acquire_socket child s;
         Some (Inr child, s)
       }
     }
     else Some (Inr sock, s)
   }"

text \<open>The header of the segment: its length in bytes, and the check of the checksum, which clears the field.\<close>

definition tcp_header_size :: "u16 \<Rightarrow> nat" where
  "tcp_header_size hlen_flags = unat (drop_bit 12 (ntohs hlen_flags AND 0xF000)) * 4"

definition tcp_check :: "net_buffer \<Rightarrow> (bool \<times> net_buffer) option" where
  "tcp_check nb = do {
     let th = transp_header nb;
     hlen_flags \<leftarrow> ld16 (buffer nb) (th + 12);
     let hsize = tcp_header_size hlen_flags;
     let nb = net_buffer_shift (int hsize) nb;
     let nb = nb\<lparr>payload := th + int hsize, payload_size := netw_packet_size nb - of_nat hsize\<rparr>;
     orig_checksum \<leftarrow> ld16 (buffer nb) (th + 16);
     b \<leftarrow> wr (buffer nb) (th + 16) [0, 0];
     dst \<leftarrow> ld32 b (netw_header nb + 16);
     src \<leftarrow> ld32 b (netw_header nb + 12);
     header \<leftarrow> rd b th hsize;
     data \<leftarrow> rd b (payload nb) (csum_reads (unat (payload_size nb)));
     let proto = tcp_checksum_proto src dst (htons (ucast (netw_packet_size nb)));
     let calculated = htons (tcp_ip4_calc_checksum proto header data (unat (payload_size nb)));
     Some (calculated = orig_checksum, nb\<lparr>buffer := b\<rparr>)
   }"

definition tcp_ip4_handle :: "env \<Rightarrow> ptr \<Rightarrow> net \<Rightarrow> (int \<times> net) option" where
  "tcp_ip4_handle E p s = do {
     nb \<leftarrow> nbufs s p;
     hlen_flags \<leftarrow> ld16 (buffer nb) (transp_header nb + 12);
     (ok, nb) \<leftarrow> tcp_check nb;
     let s = put_nb p nb s;
     if \<not> ok then Some (- 1, s)
     else do {
       let flags = ntohs hlen_flags AND 0x1FF;
       g \<leftarrow> read_segment nb;
       let sock = tcp4_bindings s (ntohs (sg_dport g));
       if sock = NULL then do { (rc, s) \<leftarrow> tcp_ip4_err_rst E g s; Some (- 1, s) }
       else do {
         s \<leftarrow> acquire_socket sock s;
         k \<leftarrow> socks s sock;
         (target, s) \<leftarrow> tcp_demux E sock g flags s;
         case target of
           Inl rc \<Rightarrow> Some (rc, s)
         | Inr sock \<Rightarrow> do {
             (rc, s) \<leftarrow> tcp_deliver E sock p g flags (payload_size nb) (sk_state k = LISTEN) s;
             s \<leftarrow> free_socket sock s;
             Some (rc, s)
           }
       }
     }
   }"

subsection \<open>Socket operations\<close>

definition sock_tcp4_create :: "ptr \<Rightarrow> net \<Rightarrow> (int \<times> net) option" where
  "sock_tcp4_create sock s =
     (if sock = NULL then None
      else let (d, s) = kalloc s
           in if d = NULL then Some (- ENOMEM, s)
              else Some (0, put_tcp sock \<lparr>src_port = 0, bound_port = 0, t_addr = blank_addr, t_sn = 0, t_ack = 0,
                     was_connected = False, is_listener = False, is_rst = False, shut_rd = False, shut_wr = False,
                     backlog_sz = 0, accept_queue = [], children = [], listener = NULL, t_rx_queue = []\<rparr> s))"

partial_function (option) connect_wait :: "env \<Rightarrow> ptr \<Rightarrow> net \<Rightarrow> (int \<times> net) option" where
  "connect_wait E sock s = do {
     k \<leftarrow> socks s sock;
     if sk_state k = CONNECTED then Some (0, s)
     else
       let (sig, s) = sleep_on E s
       in if sig then Some (- EINTR, s)
          else do {
            d \<leftarrow> tcps s sock;
            if is_rst d then Some (- ECONNREFUSED, s) else connect_wait E sock s
          }
   }"

definition sock_tcp4_connect :: "env \<Rightarrow> ptr \<Rightarrow> sockaddr_in \<Rightarrow> u32 \<Rightarrow> net \<Rightarrow> (int \<times> net) option" where
  "sock_tcp4_connect E sock saddr sockaddr_len s =
     (if sin_family saddr \<noteq> AF_INET \<or> sockaddr_len \<noteq> SOCKADDR_LEN then Some (- EINVAL, s)
      else do {
        d \<leftarrow> tcps s sock;
        if was_connected d then Some (- EISCONN, s)
        else do {
          (ok, s) \<leftarrow> tcp_ip4_alloc_dynamic_port sock s;
          if \<not> ok then Some (- EADDRNOTAVAIL, s)
          else do {
            s \<leftarrow> on_tcp sock (\<lambda>d. d\<lparr>bound_port := src_port d, t_addr := saddr\<rparr>) s;
            s \<leftarrow> set_state sock CONNECTING s;
            case route4_resolve (sin_addr saddr) s of
              None \<Rightarrow> Some (- ENETUNREACH, s)
            | Some route \<Rightarrow>
                let (p, s) = new_net_buffer_out 1024 s
                in do {
                  s \<leftarrow> on_nb p (\<lambda>nb. Some (nb\<lparr>netdev := rt_interface route\<rparr>)) s;
                  let (r, s) = krand s;
                  s \<leftarrow> on_tcp sock (\<lambda>d. d\<lparr>t_sn := r, t_ack := 0\<rparr>) s;
                  d \<leftarrow> tcps s sock;
                  nic \<leftarrow> nics s (rt_interface route);
                  let pkt = tcp_packet (htons (src_port d)) (sin_port saddr) (ntohl (t_sn d)) (t_ack d) TCP_FLAG_SYN;
                  let proto = tcp_checksum_proto (ipv4_addr nic) (sin_addr saddr) (htons 20);
                  let checksum = htons (tcp_ip4_calc_checksum proto (pkt 0) [] 0);
                  s \<leftarrow> on_nb p (net_buffer_add_front (pkt checksum)) s;
                  (rc, s) \<leftarrow> tcp_transmit E p route (sin_addr saddr) s;
                  if rc < 0 then Some (rc, s) else connect_wait E sock s
                }
          }
        }
      })"

definition sock_tcp4_accept :: "env \<Rightarrow> ptr \<Rightarrow> net \<Rightarrow> (int \<times> ptr \<times> net) option" where
  "sock_tcp4_accept E sock s = do {
     d \<leftarrow> tcps s sock;
     (req, s) \<leftarrow> (case accept_queue d of
         r # rs \<Rightarrow> Some (Some r, put_tcp sock (d\<lparr>accept_queue := rs\<rparr>) s)
       | [] \<Rightarrow> do {
           let (sig, s) = sleep_on E s;
           d \<leftarrow> tcps s sock;
           case accept_queue d of
             r # rs \<Rightarrow> Some (Some r, put_tcp sock (d\<lparr>accept_queue := rs\<rparr>) s)
           | [] \<Rightarrow> Some (None, s)
         });
     case req of
       None \<Rightarrow> Some (- EINTR, NULL, s)
     | Some r \<Rightarrow> do {
         (client, s) \<leftarrow> new_socket s;
         (rc, s) \<leftarrow> sock_tcp4_create client s;
         k \<leftarrow> socks s client;
         let s = put_sock client (k\<lparr>sk_ops := ipv4_stream_ops\<rparr>) s;
         d \<leftarrow> tcps s sock;
         s \<leftarrow> on_tcp client (\<lambda>c. c\<lparr>t_addr := \<lparr>sin_family = AF_INET, sin_port = cr_port r, sin_addr = cr_addr r\<rparr>,
                src_port := bound_port d, bound_port := htons (cr_port r), t_sn := cr_sn r, t_ack := cr_ack r,
                listener := sock\<rparr>) s;
         s \<leftarrow> tcp_ip4_listener_add sock client s;
         s \<leftarrow> set_state client CONNECTED s;
         s \<leftarrow> on_tcp client (\<lambda>c. c\<lparr>was_connected := True\<rparr>) s;
         Some (0, client, s)
       }
   }"

definition sock_tcp4_bind :: "ptr \<Rightarrow> sockaddr_in \<Rightarrow> u32 \<Rightarrow> net \<Rightarrow> (int \<times> net) option" where
  "sock_tcp4_bind sock addr addrlen s =
     (if sin_family addr \<noteq> AF_INET \<or> addrlen \<noteq> SOCKADDR_LEN then Some (- EINVAL, s)
      else
        let port = ntohs (sin_port addr)
        in if tcp4_bindings s port \<noteq> NULL then Some (- EADDRINUSE, s)
           else do {
             s \<leftarrow> on_tcp sock (\<lambda>d. d\<lparr>t_addr := (t_addr d)\<lparr>sin_port := sin_port addr\<rparr>, bound_port := port\<rparr>) s;
             s \<leftarrow> acquire_socket sock (s\<lparr>tcp4_bindings := (tcp4_bindings s)(port := sock)\<rparr>);
             Some (0, s)
           })"

definition sock_tcp4_listen :: "ptr \<Rightarrow> int \<Rightarrow> net \<Rightarrow> (int \<times> net) option" where
  "sock_tcp4_listen sock backlog s = do {
     s \<leftarrow> on_tcp sock (\<lambda>d. d\<lparr>backlog_sz := of_int backlog, is_listener := True, src_port := bound_port d\<rparr>) s;
     s \<leftarrow> set_state sock LISTEN s;
     Some (0, s)
   }"

text \<open>The waiting loop of \<open>recvfrom\<close>: a buffer at the head of the queue, or the result of the call.\<close>

partial_function (option) recv_wait :: "env \<Rightarrow> ptr \<Rightarrow> u32 \<Rightarrow> net \<Rightarrow> ((int + ptr) \<times> net) option" where
  "recv_wait E sock flags s = do {
     k \<leftarrow> socks s sock;
     d \<leftarrow> tcps s sock;
     if t_rx_queue d \<noteq> [] then Some (Inr (hd (t_rx_queue d)), s)
     else if flags AND MSG_DONTWAIT = MSG_DONTWAIT then Some (Inl (- EAGAIN), s)
     else if shut_rd d then Some (Inl 0, s)
     else if is_rst d then Some (Inl (- ECONNRESET), s)
     else if sk_state k \<noteq> CONNECTED then Some (Inl 0, s)
     else
       let (sig, s) = sleep_on E s
       in if sig then Some (Inl (- EINTR), s) else recv_wait E sock flags s
   }"

definition sock_tcp4_recvfrom :: "env \<Rightarrow> ptr \<Rightarrow> u64 \<Rightarrow> u32 \<Rightarrow> net \<Rightarrow> (int \<times> u8 list \<times> net) option" where
  "sock_tcp4_recvfrom E sock len flags s = do {
     k \<leftarrow> socks s sock;
     d \<leftarrow> tcps s sock;
     if \<not> was_connected d then Some (- ENOTCONN, [], s)
     else if len = 0 then
       if sk_state k \<noteq> CONNECTED then Some (- ENOTCONN, [], s)
       else if is_rst d then Some (- ECONNRESET, [], s)
       else Some (0, [], s)
     else do {
       (r, s) \<leftarrow> recv_wait E sock flags s;
       case r of
         Inl rc \<Rightarrow> Some (rc, [], s)
       | Inr p \<Rightarrow> do {
           nb \<leftarrow> nbufs s p;
           (data, readable, nb) \<leftarrow> net_buffer_read_payload_into len nb;
           let s = put_nb p nb s;
           s \<leftarrow> (if net_buffer_get_payload_remain_len nb = 0
                 then do {
                   s \<leftarrow> on_tcp sock (\<lambda>d. d\<lparr>t_rx_queue := remove1 p (t_rx_queue d)\<rparr>) s;
                   net_buffer_free p s
                 }
                 else Some s);
           Some (uint readable, data, s)
         }
     }
   }"

definition sock_tcp4_sendto :: "env \<Rightarrow> ptr \<Rightarrow> u8 list \<Rightarrow> net \<Rightarrow> (int \<times> net) option" where
  "sock_tcp4_sendto E sock msg s = do {
     k \<leftarrow> socks s sock;
     if sk_state k \<noteq> CONNECTED then Some (- ENOTCONN, s)
     else do {
       d \<leftarrow> tcps s sock;
       if is_rst d then Some (- ECONNRESET, s)
       else if shut_wr d then Some (- EPIPE, s)
       else if msg = [] then Some (0, s)
       else
         let dst = sin_addr (t_addr d)
         in case route4_resolve dst s of
              None \<Rightarrow> Some (- ENETUNREACH, s)
            | Some route \<Rightarrow> do {
                nic \<leftarrow> nics s (rt_interface route);
                (p, s) \<leftarrow> tcp_fill 1024 route (ipv4_addr nic) dst
                   (tcp_packet (htons (src_port d)) (sin_port (t_addr d)) (ntohl (t_sn d)) (ntohl (t_ack d))
                      (TCP_FLAG_PSH OR TCP_FLAG_ACK)) msg s;
                s \<leftarrow> on_tcp sock (\<lambda>d. d\<lparr>t_sn := t_sn d + of_nat (length msg)\<rparr>) s;
                tcp_transmit E p route dst s
              }
     }
   }"

definition sock_tcp4_shutdown_sequense :: "env \<Rightarrow> ptr \<Rightarrow> net \<Rightarrow> net option" where
  "sock_tcp4_shutdown_sequense E sock s = do {
     k \<leftarrow> socks s sock;
     (do_fin, s) \<leftarrow>
       (if sk_state k = CLOSE_WAIT then do { s \<leftarrow> set_state sock LAST_ACK s; Some (True, s) }
        else if sk_state k = CONNECTED then do { s \<leftarrow> set_state sock FIN_WAIT1 s; Some (True, s) }
        else if sk_state k = CONNECTING then do { s \<leftarrow> tcp_ip4_unbind_sock sock s; Some (True, s) }
        else Some (False, s));
     if do_fin then do { (rc, s) \<leftarrow> tcp_ip4_fin E sock s; Some s } else Some s
   }"

definition sock_tcp4_close :: "env \<Rightarrow> ptr \<Rightarrow> net \<Rightarrow> (int \<times> net) option" where
  "sock_tcp4_close E sock s = do {
     d \<leftarrow> tcps s sock;
     if \<not> is_listener d then do {
       s \<leftarrow> on_tcp sock (\<lambda>d. d\<lparr>shut_rd := True, shut_wr := True\<rparr>) s;
       s \<leftarrow> tcp_ip4_sock_drop_recv_buffer sock s;
       s \<leftarrow> sock_tcp4_shutdown_sequense E sock s;
       Some (0, s)
     }
     else do {
       s \<leftarrow> set_state sock UNCONNECTED s;
       s \<leftarrow> on_tcp sock (\<lambda>d. d\<lparr>accept_queue := []\<rparr>) s;
       s \<leftarrow> (if children d = [] then tcp_ip4_unbind_sock sock s else Some s);
       Some (0, s)
     }
   }"

text \<open>The bytes of the peer's address that fit, and the full length. The padding \<open>sin_zero\<close> is taken as zero.\<close>

definition sock_tcp4_getpeername :: "ptr \<Rightarrow> nat \<Rightarrow> net \<Rightarrow> (int \<times> u8 list \<times> nat) option" where
  "sock_tcp4_getpeername sock addrlen s = do {
     k \<leftarrow> socks s sock;
     d \<leftarrow> tcps s sock;
     if sk_state k \<noteq> CONNECTED then Some (- ENOTCONN, [], addrlen)
     else
       let a = t_addr d;
           bytes = le16 (sin_family a) @ le16 (sin_port a) @ le32 (sin_addr a) @ replicate 8 0
       in Some (0, take (min addrlen 16) bytes, 16)
   }"

definition SHUT_RD :: int where "SHUT_RD = 0"
definition SHUT_WR :: int where "SHUT_WR = 1"
definition SHUT_RDWR :: int where "SHUT_RDWR = 2"

definition sock_tcp4_shutdown :: "env \<Rightarrow> ptr \<Rightarrow> int \<Rightarrow> net \<Rightarrow> (int \<times> net) option" where
  "sock_tcp4_shutdown E sock how s = do {
     s \<leftarrow> (if how = SHUT_RD \<or> how = SHUT_RDWR
           then do {
             s \<leftarrow> on_tcp sock (\<lambda>d. d\<lparr>shut_rd := True\<rparr>) s;
             Some (wake (Poll sock) 0 (wake (Rx sock) INT_MAX s))
           }
           else Some s);
     s \<leftarrow> (if how = SHUT_WR \<or> how = SHUT_RDWR
           then do {
             s \<leftarrow> sock_tcp4_shutdown_sequense E sock s;
             on_tcp sock (\<lambda>d. d\<lparr>shut_wr := True\<rparr>) s
           }
           else Some s);
     Some (0, s)
   }"

definition sock_tcp4_setsockopt :: "net \<Rightarrow> int \<times> net" where
  "sock_tcp4_setsockopt s = (0, s)"

definition sock_tcp4_poll :: "ptr \<Rightarrow> net \<Rightarrow> u16 option" where
  "sock_tcp4_poll sock s = do {
     k \<leftarrow> socks s sock;
     d \<leftarrow> tcps s sock;
     let disconnected = (was_connected d \<and> sk_state k = UNCONNECTED);
     if sk_state k = LISTEN \<and> accept_queue d \<noteq> [] then Some (POLLIN OR POLLRDNORM)
     else
       Some ((if disconnected \<or> shut_rd d \<and> shut_wr d then POLLHUP else 0) OR
             (if shut_rd d then POLLIN OR POLLRDNORM OR POLLRDHUP else 0) OR
             (if t_rx_queue d \<noteq> [] then POLLIN OR POLLRDNORM else 0) OR
             (if sk_state k = CONNECTED then POLLOUT OR POLLWRNORM else 0))
   }"

definition tcp_ip4_init :: "net \<Rightarrow> net" where
  "tcp_ip4_init s =
     (let (key, s) = siphash_keygen s
      in snd (ip4_register_protocol tcp_handler (unat IPV4_PROTOCOL_TCP) (s\<lparr>syncookie_key := key\<rparr>)))"

end
