(* ===== verification/Bytestream.thy ===== *)
theory Bytestream
  imports Prelude "HOL-Library.Monad_Syntax"
begin

text \<open>
  The contract of an object that is read like a stream of bytes: a read returns a non-empty prefix of what is there,
  of any length up to the one asked for. Pipes (theory Pipe) and TCP sockets (theory Tcpdata) keep it; a program that
  reads until it has enough gets the same bytes from both.
\<close>

text \<open>The loop of such a program: read until \<open>n\<close> bytes have come; \<open>fuel\<close> bounds the number of reads.\<close>

fun gather :: "(nat \<Rightarrow> 's \<Rightarrow> ('e list \<times> 's) option) \<Rightarrow> nat \<Rightarrow> nat \<Rightarrow> 's \<Rightarrow> ('e list \<times> 's) option" where
  "gather read fuel 0 s = Some ([], s)"
| "gather read 0 (Suc n) s = None"
| "gather read (Suc fuel) (Suc n) s = do {
     (d, s) \<leftarrow> read (Suc n) s;
     (ds, s) \<leftarrow> gather read fuel (Suc n - length d) s;
     Some (d @ ds, s)
   }"

locale byte_source =
  fixes ok :: "'s \<Rightarrow> bool" and stream :: "'s \<Rightarrow> 'e list" and read :: "nat \<Rightarrow> 's \<Rightarrow> ('e list \<times> 's) option"
  assumes read_prefix: "ok s \<Longrightarrow> stream s \<noteq> [] \<Longrightarrow> 0 < n \<Longrightarrow>
    \<exists>d s'. read n s = Some (d, s') \<and> stream s = d @ stream s' \<and> d \<noteq> [] \<and> length d \<le> n \<and> ok s'"
begin

text \<open>Reading in pieces gives exactly the first \<open>n\<close> bytes, in order, and leaves the others; \<open>n\<close> reads are enough.\<close>

lemma gather_exact:
  assumes "ok s" and "n \<le> length (stream s)" and "n \<le> fuel"
  shows "\<exists>s'. gather read fuel n s = Some (take n (stream s), s') \<and> stream s' = drop n (stream s) \<and> ok s'"
  using assms
proof (induction fuel arbitrary: n s)
  case (Suc fuel m)
  show ?case
  proof (cases m)
    case (Suc n)
    then have "stream s \<noteq> []" using Suc.prems by auto
    then obtain d s1 where r: "read (Suc n) s = Some (d, s1)" "stream s = d @ stream s1" "d \<noteq> []" "length d \<le> Suc n" "ok s1"
      using read_prefix [OF Suc.prems(1), of "Suc n"] by auto
    have "Suc n - length d \<le> length (stream s1)" "Suc n - length d \<le> fuel"
      using Suc Suc.prems r(2,3,4) by (cases d; simp)+
    from Suc.IH [OF r(5) this] obtain s2 where
      "gather read fuel (Suc n - length d) s1 = Some (take (Suc n - length d) (stream s1), s2)"
      "stream s2 = drop (Suc n - length d) (stream s1)" "ok s2" by blast
    then show ?thesis using r Suc by simp
  qed (use Suc.prems in simp)
qed simp_all

end

end
