(* ===== verification/Tcpdata.thy ===== *)
theory Tcpdata
  imports Tcp Bytestream
begin

text \<open>
  Properties of TCP's data path: the frames the senders produce and the bound on their length, the segments a
  receiver accepts, the acknowledgement and the receive queue, and \<open>recvfrom\<close> as reading from a byte stream.
\<close>

subsection \<open>Sending a segment\<close>

lemma tcp_packet_length [simp]: "length (tcp_packet sp dp sn ack fl c) = 20"
  by (simp add: tcp_packet_def)

text \<open>The segment as the senders build it, and the frame around it.\<close>

definition tcp_segment :: "u32 \<Rightarrow> u32 \<Rightarrow> (u16 \<Rightarrow> u8 list) \<Rightarrow> u8 list \<Rightarrow> u8 list" where
  "tcp_segment src dst pkt msg =
     pkt (htons (tcp_ip4_calc_checksum (tcp_checksum_proto src dst (htons (20 + of_nat (length msg)))) (pkt 0) msg (length msg))) @ msg"

definition tcp_frame :: "nic \<Rightarrow> u8 list \<Rightarrow> u32 \<Rightarrow> u8 list \<Rightarrow> u8 list" where
  "tcp_frame nic mac dst seg = ip4_frame nic mac dst IPV4_PROTOCOL_TCP IPV4_DEFAULT_TTL seg"

lemma tcp_fill_spec:
  assumes mem: "buffer_memory p ps s" and n: "n < 2 ^ 32" and pkt: "\<And>c. length (pkt c) = 20"
  shows "if length msg + 20 \<le> n
    then \<exists>nb. nb_ok nb \<and> nb_contents nb = tcp_segment src dst pkt msg \<and> nb_room nb = n - length msg - 20 \<and>
           nb_refs nb = 0 \<and> tcp_fill n route src dst pkt msg s = Some (p, put_nb p nb (s\<lparr>fresh := ps\<rparr>))
    else tcp_fill n route src dst pkt msg s = None"
proof -
  let ?nb0 = "(out_nb n)\<lparr>netdev := rt_interface route\<rparr>"
  let ?nb1 = "nb_push msg ?nb0"
  define hdr where "hdr = pkt (htons (tcp_ip4_calc_checksum (tcp_checksum_proto src dst (htons (20 + of_nat (length msg)))) (pkt 0) msg (length msg)))"
  have len: "length hdr = 20" by (simp add: hdr_def pkt)
  have seg: "tcp_segment src dst pkt msg = hdr @ msg" by (simp add: tcp_segment_def hdr_def)
  have ok0: "nb_ok ?nb0" "nb_contents ?nb0 = []" "nb_room ?nb0 = n" using out_nb_ok [OF n] by simp_all
  have fill: "tcp_fill n route src dst pkt msg s = do {
      nb \<leftarrow> net_buffer_add_front msg ?nb0;
      nb \<leftarrow> net_buffer_add_front hdr nb;
      Some (p, put_nb p nb (s\<lparr>fresh := ps\<rparr>))
    }"
    by (simp add: tcp_fill_def new_net_buffer_out_eq [OF mem] on_nb_def hdr_def Let_def)
  show ?thesis
  proof (cases "length msg \<le> n")
    case True
    have ok1: "nb_ok ?nb1" "nb_contents ?nb1 = msg" "nb_room ?nb1 = n - length msg" "nb_refs ?nb1 = 0"
      using ok0 True nbs.pushed_ok [of ?nb0 msg] nbs.pushed_contents [of ?nb0 msg] nbs.pushed_room [of ?nb0 msg] by auto
    have step: "net_buffer_add_front msg ?nb0 = Some ?nb1" using ok0 True by (intro nbs.push_fits) simp_all
    show ?thesis
    proof (cases "length msg + 20 \<le> n")
      case True
      then have f: "length hdr \<le> nb_room ?nb1" using ok1 len by simp
      have "nb_ok (nb_push hdr ?nb1) \<and> nb_contents (nb_push hdr ?nb1) = tcp_segment src dst pkt msg \<and>
          nb_room (nb_push hdr ?nb1) = n - length msg - 20 \<and> nb_refs (nb_push hdr ?nb1) = 0 \<and>
          tcp_fill n route src dst pkt msg s = Some (p, put_nb p (nb_push hdr ?nb1) (s\<lparr>fresh := ps\<rparr>))"
        using nbs.pushed_ok [OF ok1(1) f] nbs.pushed_contents [OF ok1(1) f] nbs.pushed_room [OF ok1(1) f] ok1 len
        by (simp add: fill step nbs.push_fits [OF ok1(1) f] seg)
      then have "\<exists>nb. nb_ok nb \<and> nb_contents nb = tcp_segment src dst pkt msg \<and> nb_room nb = n - length msg - 20 \<and>
           nb_refs nb = 0 \<and> tcp_fill n route src dst pkt msg s = Some (p, put_nb p nb (s\<lparr>fresh := ps\<rparr>))"
        by (rule exI)
      with True show ?thesis by simp
    next
      case False
      then have "nb_room ?nb1 < length hdr" using ok1 len by simp
      with False show ?thesis by (simp add: fill step nbs.push_over [OF ok1(1)])
    qed
  next
    case False
    then have "net_buffer_add_front msg ?nb0 = None" using ok0 by (intro nbs.push_over) simp_all
    with False show ?thesis by (simp add: fill)
  qed
qed

text \<open>A buffer sent and released leaves no trace but the frame.\<close>

lemma tcp_transmit_fits:
  assumes nb: "nbufs s p = Some nb" "nb_ok nb" "nb_refs nb = 0" and path: "path_ready route dst nic mac s"
    and room: "34 \<le> nb_room nb"
  shows "tcp_transmit E p route dst s =
    (let frame = tcp_frame nic mac dst (nb_contents nb)
     in Some (tx_rc E (rt_interface route) frame,
              s\<lparr>nbufs := (nbufs s)(p := None), out := out s @ [(rt_interface route, frame)]\<rparr>))"
  using ip4_send_fits [OF nb(1,2) path room, of E IPV4_PROTOCOL_TCP IPV4_DEFAULT_TTL] nb
  by (auto simp: tcp_transmit_def ip4_send_def tcp_frame_def Let_def net_buffer_free_def put_nb_def)

lemma tcp_transmit_over:
  "nbufs s p = Some nb \<Longrightarrow> nb_ok nb \<Longrightarrow> path_ready route dst nic mac s \<Longrightarrow> nb_room nb < 34 \<Longrightarrow>
   tcp_transmit E p route dst s = None"
  by (simp add: tcp_transmit_def ip4_send_def ip4_send_over)

definition after_send :: "ptr \<Rightarrow> ptr list \<Rightarrow> ptr \<Rightarrow> u8 list \<Rightarrow> net \<Rightarrow> net" where
  "after_send p ps ifc frame s = s\<lparr>fresh := ps, nbufs := (nbufs s)(p := None), out := out s @ [(ifc, frame)]\<rparr>"

text \<open>What \<open>sendto\<close> does on a connected socket with a route, its interface and the next hop's address at hand.\<close>

definition send_ready :: "ptr \<Rightarrow> tcp4_socket_data \<Rightarrow> route4 \<Rightarrow> nic \<Rightarrow> u8 list \<Rightarrow> net \<Rightarrow> bool" where
  "send_ready sock d route nic mac s \<longleftrightarrow>
     map_option sk_state (socks s sock) = Some CONNECTED \<and> tcps s sock = Some d \<and> \<not> is_rst d \<and> \<not> shut_wr d \<and>
     route4_resolve (sin_addr (t_addr d)) s = Some route \<and> path_ready route (sin_addr (t_addr d)) nic mac s"

definition data_segment :: "nic \<Rightarrow> tcp4_socket_data \<Rightarrow> u8 list \<Rightarrow> u8 list" where
  "data_segment nic d msg = tcp_segment (ipv4_addr nic) (sin_addr (t_addr d))
     (tcp_packet (htons (src_port d)) (sin_port (t_addr d)) (ntohl (t_sn d)) (ntohl (t_ack d))
        (TCP_FLAG_PSH OR TCP_FLAG_ACK)) msg"

lemma path_ready_tcps [simp]: "path_ready route dst nic mac (put_tcp k d s) = path_ready route dst nic mac s"
  by (simp add: path_ready_def get_arp_cache_entry_def put_tcp_def)

lemma sendto_spec:
  assumes ready: "send_ready sock d route nic mac s" and mem: "buffer_memory p ps s" and msg: "msg \<noteq> []"
  shows "sock_tcp4_sendto E sock msg s =
    (if length msg \<le> 970 then
       let frame = tcp_frame nic mac (sin_addr (t_addr d)) (data_segment nic d msg)
       in Some (tx_rc E (rt_interface route) frame,
                after_send p ps (rt_interface route) frame
                  (put_tcp sock (d\<lparr>t_sn := t_sn d + of_nat (length msg)\<rparr>) s))
     else None)"
proof -
  let ?pkt = "tcp_packet (htons (src_port d)) (sin_port (t_addr d)) (ntohl (t_sn d)) (ntohl (t_ack d))
        (TCP_FLAG_PSH OR TCP_FLAG_ACK)"
  let ?dst = "sin_addr (t_addr d)"
  obtain k where r: "socks s sock = Some k" "sk_state k = CONNECTED" "tcps s sock = Some d" "\<not> is_rst d" "\<not> shut_wr d"
      "route4_resolve ?dst s = Some route" and path: "path_ready route ?dst nic mac s"
    using ready by (auto simp: send_ready_def)
  then have nic: "nics s (rt_interface route) = Some nic" by (simp add: path_ready_def)
  let ?fill = "tcp_fill 1024 route (ipv4_addr nic) ?dst ?pkt msg s"
  have eq: "sock_tcp4_sendto E sock msg s = do {
      (p, s) \<leftarrow> ?fill;
      s \<leftarrow> on_tcp sock (\<lambda>d. d\<lparr>t_sn := t_sn d + of_nat (length msg)\<rparr>) s;
      tcp_transmit E p route ?dst s }"
    using r nic msg by (simp add: sock_tcp4_sendto_def Let_def)
  have fill: "if length msg + 20 \<le> 1024
    then \<exists>nb. nb_ok nb \<and> nb_contents nb = data_segment nic d msg \<and> nb_room nb = 1024 - length msg - 20 \<and>
           nb_refs nb = 0 \<and> ?fill = Some (p, put_nb p nb (s\<lparr>fresh := ps\<rparr>))
    else ?fill = None"
    unfolding data_segment_def by (rule tcp_fill_spec [OF mem]) simp_all
  show ?thesis
  proof (cases "length msg + 20 \<le> 1024")
    case True
    with fill obtain nb where nb: "nb_ok nb" "nb_contents nb = data_segment nic d msg"
        "nb_room nb = 1024 - length msg - 20" "nb_refs nb = 0" "?fill = Some (p, put_nb p nb (s\<lparr>fresh := ps\<rparr>))"
      by auto
    let ?s = "put_tcp sock (d\<lparr>t_sn := t_sn d + of_nat (length msg)\<rparr>) (put_nb p nb (s\<lparr>fresh := ps\<rparr>))"
    have at: "nbufs ?s p = Some nb" by (simp add: put_tcp_def)
    have path': "path_ready route ?dst nic mac ?s" using path by simp
    have "sock_tcp4_sendto E sock msg s = tcp_transmit E p route ?dst ?s"
      using r by (simp add: eq nb(5) on_tcp_def)
    also have "\<dots> = (if length msg \<le> 970 then
       let frame = tcp_frame nic mac ?dst (data_segment nic d msg)
       in Some (tx_rc E (rt_interface route) frame,
                after_send p ps (rt_interface route) frame
                  (put_tcp sock (d\<lparr>t_sn := t_sn d + of_nat (length msg)\<rparr>) s))
     else None)"
      using tcp_transmit_fits [OF at nb(1) nb(4) path', of E] tcp_transmit_over [OF at nb(1) path', of E] nb(2,3)
      by (auto simp: Let_def after_send_def put_nb_def put_tcp_def)
    finally show ?thesis .
  next
    case False
    with fill show ?thesis by (simp add: eq)
  qed
qed

lemma tcp_packet_fields:
  "ld16 (tcp_packet sp dp sn ack fl c) 0 = Some sp"
  "ld16 (tcp_packet sp dp sn ack fl c) 2 = Some dp"
  "ld32 (tcp_packet sp dp sn ack fl c) 4 = Some sn"
  "ld32 (tcp_packet sp dp sn ack fl c) 8 = Some ack"
  "ld16 (tcp_packet sp dp sn ack fl c) 12 = Some (htons (fl OR TCP_HEADER_SZ_VAL))"
  "ld16 (tcp_packet sp dp sn ack fl c) 16 = Some c"
  by (simp_all add: tcp_packet_def field_eval)

subsection \<open>Accepting a segment\<close>

lemma csum_reads_eq: "n < 131072 \<Longrightarrow> csum_reads n = n"
proof -
  assume n: "n < 131072"
  then have "unat (of_nat (n div 2) :: u16) = n div 2" by (intro unat_of_nat_small) simp
  then show ?thesis by (simp add: csum_reads_def Let_def) presburger
qed

lemma header_flags:
  assumes "fl AND 0x1FF = fl"
  shows "tcp_header_size (htons (fl OR TCP_HEADER_SZ_VAL)) = 20"
    and "(fl OR TCP_HEADER_SZ_VAL) AND 0x1FF = fl"
proof -
  have v: "TCP_HEADER_SZ_VAL = 0x5000" by (simp add: TCP_HEADER_SZ_VAL_def)
  have "fl AND 0xF000 = fl AND (0x1FF AND 0xF000)" using assms by (metis and.assoc)
  then have "(fl OR 0x5000) AND 0xF000 = 0x5000" by (simp add: bit.conj_disj_distrib2)
  then show "tcp_header_size (htons (fl OR TCP_HEADER_SZ_VAL)) = 20" by (simp add: tcp_header_size_def v)
  show "(fl OR TCP_HEADER_SZ_VAL) AND 0x1FF = fl" using assms by (simp add: bit.conj_disj_distrib2 v)
qed

lemma tcp_packet_clear:
  "\<exists>a b. tcp_packet sp dp sn ack fl c = a @ le16 c @ b \<and> tcp_packet sp dp sn ack fl 0 = a @ [0, 0] @ b \<and> length a = 16"
  by (rule exI [of _ "le16 sp @ le16 dp @ le32 sn @ le32 ack @ le16 (htons (fl OR TCP_HEADER_SZ_VAL)) @ le16 (htons 65535)"],
      rule exI [of _ "le16 0"]) (simp add: tcp_packet_def le16_def)

text \<open>A buffer that holds an IP header and a segment.\<close>

definition holds_segment ::
  "net_buffer \<Rightarrow> u8 list \<Rightarrow> u8 list \<Rightarrow> u32 \<Rightarrow> u32 \<Rightarrow> u8 list \<Rightarrow> u8 list \<Rightarrow> bool" where
  "holds_segment nb pre ip src dst hdr msg \<longleftrightarrow>
     buffer nb = pre @ ip @ hdr @ msg \<and> netw_header nb = int (length pre) \<and> length ip = 20 \<and>
     transp_header nb = int (length pre) + 20 \<and> netw_packet_size nb = of_nat (20 + length msg) \<and>
     ld32 ip 12 = Some src \<and> ld32 ip 16 = Some dst \<and> length msg < 65516"

lemma tcp_check_accepts:
  assumes "holds_segment nb pre ip src dst (tcp_packet sp dp sn ack fl c) msg" and fl: "fl AND 0x1FF = fl"
    and c: "c = htons (tcp_ip4_calc_checksum (tcp_checksum_proto src dst (htons (20 + of_nat (length msg))))
             (tcp_packet sp dp sn ack fl 0) msg (length msg))"
  shows "tcp_check nb = Some (True, (net_buffer_shift 20 nb)\<lparr>payload := transp_header nb + 20,
     payload_size := of_nat (length msg), buffer := pre @ ip @ tcp_packet sp dp sn ack fl 0 @ msg\<rparr>)"
proof -
  let ?h = "tcp_packet sp dp sn ack fl"
  have buf: "buffer nb = pre @ ip @ ?h c @ msg" and ip: "length ip = 20" "ld32 ip 12 = Some src" "ld32 ip 16 = Some dst"
    and off: "netw_header nb = int (length pre)" "transp_header nb = int (length (pre @ ip))"
    and sz: "netw_packet_size nb = of_nat (20 + length msg)" and len: "length msg < 65516"
    using assms(1) by (auto simp: holds_segment_def)
  have ld: "ld16 ((pre @ ip) @ ?h c @ msg) (int (length (pre @ ip)) + k) = ld16 (?h c) k" if "0 \<le> k" "k \<le> 18" for k
    using that by (subst ld_skip) (simp_all add: ld_prefix)
  have ps: "of_nat (20 + length msg) - 20 = (of_nat (length msg) :: u64)" by simp
  have un: "unat (of_nat (length msg) :: u64) = length msg" using len by (intro unat_of_nat_small) simp
  have cr: "csum_reads (length msg) = length msg" using len by (intro csum_reads_eq) simp
  have uc: "(ucast (20 + of_nat (length msg) :: u64) :: u16) = 20 + of_nat (length msg)"
    using ucast_of_nat [of "20 + length msg"] by simp
  obtain a b where ab: "?h c = a @ le16 c @ b" "?h 0 = a @ [0, 0] @ b" "length a = 16"
    using tcp_packet_clear by blast
  have w: "wr ((pre @ ip) @ ?h c @ msg) (int (length (pre @ ip)) + 16) [0, 0] = Some ((pre @ ip) @ ?h 0 @ msg)"
    using wr_at [of "int (length (pre @ ip)) + 16" "(pre @ ip) @ a" "[0, 0]" "le16 c" "b @ msg"] ab by simp
  have ld32: "ld32 ((pre @ ip) @ ?h 0 @ msg) (int (length pre) + 12) = Some src"
    "ld32 ((pre @ ip) @ ?h 0 @ msg) (int (length pre) + 16) = Some dst"
    using ip unfolding append_assoc by (subst ld_skip; simp add: ld_prefix)+
  have rdh: "rd ((pre @ ip) @ ?h 0 @ msg) (int (length (pre @ ip))) 20 = Some (?h 0)"
    by (rule rd_at) simp_all
  have rdd: "rd ((pre @ ip) @ ?h 0 @ msg) (int (length (pre @ ip)) + 20) (length msg) = Some msg"
    using rd_at [of "int (length (pre @ ip)) + 20" "(pre @ ip) @ ?h 0" "length msg" msg "[]"] by simp
  show ?thesis
    unfolding tcp_check_def
    using ld [of 12] ld [of 16] w ld32 rdh rdd
    by (simp add: buf off ip sz ps un uc tcp_packet_fields header_flags [OF fl] cr c net_buffer_shift_def Let_def)
qed

lemma read_segment_holds:
  assumes "holds_segment nb pre ip src dst (tcp_packet sp dp sn ack fl c) msg"
  shows "read_segment nb =
    Some \<lparr>sg_sport = sp, sg_dport = dp, sg_sn = sn, sg_ack = ack, sg_src = src, sg_dst = dst\<rparr>"
proof -
  let ?h = "tcp_packet sp dp sn ack fl c"
  have buf: "buffer nb = (pre @ ip) @ ?h @ msg" and ip: "length ip = 20" "ld32 ip 12 = Some src" "ld32 ip 16 = Some dst"
    and off: "netw_header nb = int (length pre)" "transp_header nb = int (length (pre @ ip))"
    using assms by (auto simp: holds_segment_def)
  have t: "ld16 ((pre @ ip) @ ?h @ msg) (int (length (pre @ ip)) + k) = ld16 ?h k"
    "ld32 ((pre @ ip) @ ?h @ msg) (int (length (pre @ ip)) + k) = ld32 ?h k" if "0 \<le> k" "k \<le> 16" for k
    using that by (subst ld_skip; simp add: ld_prefix)+
  have n: "ld32 ((pre @ ip) @ ?h @ msg) (int (length pre) + 12) = Some src"
    "ld32 ((pre @ ip) @ ?h @ msg) (int (length pre) + 16) = Some dst"
    using ip unfolding append_assoc by (subst ld_skip; simp add: ld_prefix)+
  show ?thesis
    using t(1) [of 0] t(1) [of 2] t(2) [of 4] t(2) [of 8] n
    by (simp add: read_segment_def buf off tcp_packet_fields Let_def)
qed

subsection \<open>Acknowledging\<close>

definition ack_segment :: "nic \<Rightarrow> tcp4_socket_data \<Rightarrow> u8 list" where
  "ack_segment nic d = tcp_segment (ipv4_addr nic) (sin_addr (t_addr d))
     (tcp_packet (htons (src_port d)) (sin_port (t_addr d)) (ntohl (t_sn d)) (ntohl (t_ack d)) TCP_FLAG_ACK) []"

lemma tcp_ip4_ack_spec:
  assumes d: "tcps s sock = Some d" and route: "route4_resolve (sin_addr (t_addr d)) s = Some route"
    and path: "path_ready route (sin_addr (t_addr d)) nic mac s" and mem: "buffer_memory p ps s"
  shows "\<exists>rc. tcp_ip4_ack E sock s = Some (rc, after_send p ps (rt_interface route)
      (tcp_frame nic mac (sin_addr (t_addr d)) (ack_segment nic d)) s)"
proof -
  let ?dst = "sin_addr (t_addr d)"
  have nic: "nics s (rt_interface route) = Some nic" using path by (simp add: path_ready_def)
  let ?fill = "tcp_fill 1024 route (ipv4_addr nic) ?dst
     (tcp_packet (htons (src_port d)) (sin_port (t_addr d)) (ntohl (t_sn d)) (ntohl (t_ack d)) TCP_FLAG_ACK) [] s"
  have "if length ([] :: u8 list) + 20 \<le> 1024
    then \<exists>nb. nb_ok nb \<and> nb_contents nb = ack_segment nic d \<and> nb_room nb = 1024 - length ([] :: u8 list) - 20 \<and>
           nb_refs nb = 0 \<and> ?fill = Some (p, put_nb p nb (s\<lparr>fresh := ps\<rparr>))
    else ?fill = None"
    unfolding ack_segment_def by (rule tcp_fill_spec [OF mem]) simp_all
  then obtain nb where nb: "nb_ok nb" "nb_contents nb = ack_segment nic d" "nb_room nb = 1004" "nb_refs nb = 0"
      "?fill = Some (p, put_nb p nb (s\<lparr>fresh := ps\<rparr>))" by auto
  have "nbufs (put_nb p nb (s\<lparr>fresh := ps\<rparr>)) p = Some nb" "path_ready route ?dst nic mac (put_nb p nb (s\<lparr>fresh := ps\<rparr>))"
    using path by simp_all
  from tcp_transmit_fits [OF this(1) nb(1) nb(4) this(2), of E] nb route nic d show ?thesis
    by (simp add: tcp_ip4_ack_def Let_def after_send_def put_nb_def)
qed

subsection \<open>Delivering data\<close>

text \<open>The socket can acknowledge: a route to the peer, its interface and hardware address, and memory.\<close>

definition ack_ready :: "tcp4_socket_data \<Rightarrow> route4 \<Rightarrow> nic \<Rightarrow> u8 list \<Rightarrow> ptr \<Rightarrow> ptr list \<Rightarrow> net \<Rightarrow> bool" where
  "ack_ready d route nic mac q qs s \<longleftrightarrow>
     route4_resolve (sin_addr (t_addr d)) s = Some route \<and> path_ready route (sin_addr (t_addr d)) nic mac s \<and>
     buffer_memory q qs s"

text \<open>The state after a data segment in buffer \<open>p\<close> has been acknowledged (with a buffer at \<open>q\<close>) and queued.\<close>

definition after_data ::
  "ptr \<Rightarrow> tcp4_socket_data \<Rightarrow> ptr \<Rightarrow> net_buffer \<Rightarrow> u32 \<Rightarrow> route4 \<Rightarrow> nic \<Rightarrow> u8 list \<Rightarrow> ptr \<Rightarrow> ptr list \<Rightarrow> net \<Rightarrow> net" where
  "after_data sock d p nb ack route nic mac q qs s =
     (let d = d\<lparr>t_ack := ack\<rparr>;
          s = after_send q qs (rt_interface route) (tcp_frame nic mac (sin_addr (t_addr d)) (ack_segment nic d)) s;
          s = put_tcp sock (d\<lparr>t_rx_queue := t_rx_queue d @ [p]\<rparr>) (put_nb p (nb\<lparr>nb_refs := nb_refs nb + 1\<rparr>) s)
      in wake (Poll sock) 0 (wake (Rx sock) 1 s))"

lemma buffer_memory_put [simp]: "buffer_memory p ps (put_tcp k d s) = buffer_memory p ps s"
  "buffer_memory p ps (put_nb r nb s) = buffer_memory p ps s" "buffer_memory p ps (put_sock k x s) = buffer_memory p ps s"
  by (simp_all add: buffer_memory_def put_tcp_def put_nb_def put_sock_def)

lemma route4_resolve_put [simp]: "route4_resolve dst (put_tcp k d s) = route4_resolve dst s"
  "route4_resolve dst (put_nb r nb s) = route4_resolve dst s" "route4_resolve dst (put_sock k x s) = route4_resolve dst s"
  by (simp_all add: route4_resolve_def put_tcp_def put_nb_def put_sock_def)

lemma path_ready_put_sock [simp]: "path_ready route dst nic mac (put_sock k x s) = path_ready route dst nic mac s"
  by (simp add: path_ready_def get_arp_cache_entry_def put_sock_def)

lemma tcp_deliver_data:
  assumes ne: "flags AND TCP_FLAG_SYNACK \<noteq> TCP_FLAG_SYN" "flags AND TCP_FLAG_SYNACK \<noteq> TCP_FLAG_SYNACK"
    and psh: "flags AND TCP_FLAG_PSH = TCP_FLAG_PSH"
    and d: "tcps s sock = Some d" "\<not> shut_rd d" and nb: "nbufs s p = Some nb" and q: "q \<noteq> p"
    and ready: "ack_ready d route nic mac q qs s"
  shows "tcp_deliver E sock p g flags psize lsn s =
    Some (0, after_data sock d p nb (htonl (sg_sn g) + ucast psize) route nic mac q qs s)"
proof -
  let ?d = "d\<lparr>t_ack := htonl (sg_sn g) + ucast psize\<rparr>"
  have s1: "tcps (put_tcp sock ?d s) sock = Some ?d" by (simp add: put_tcp_def)
  obtain rc where ack: "tcp_ip4_ack E sock (put_tcp sock ?d s) = Some (rc, after_send q qs (rt_interface route)
      (tcp_frame nic mac (sin_addr (t_addr ?d)) (ack_segment nic ?d)) (put_tcp sock ?d s))"
    using tcp_ip4_ack_spec [OF s1, of route nic mac q qs E] ready by (auto simp: ack_ready_def)
  let ?s = "after_send q qs (rt_interface route) (tcp_frame nic mac (sin_addr (t_addr ?d)) (ack_segment nic ?d)) (put_tcp sock ?d s)"
  have "tcp_deliver E sock p g flags psize lsn s = do { s \<leftarrow> tcp_ip4_put_to_rx_queue sock p ?s; Some (0, s) }"
    unfolding tcp_deliver_def using ne psh d ack by (simp only: on_tcp_def if_False if_True) simp
  moreover have "tcps ?s sock = Some ?d" "nbufs ?s p = Some nb"
    using nb q by (simp_all add: after_send_def put_tcp_def)
  ultimately show ?thesis
    using d by (simp add: tcp_ip4_put_to_rx_queue_def net_buffer_acquire_def after_data_def Let_def) (simp add: after_send_def put_tcp_def put_nb_def wake_def)
qed

lemma after_data_put_sock: "after_data sock d p nb ack route nic mac q qs (put_sock r k s) =
    put_sock r k (after_data sock d p nb ack route nic mac q qs s)"
  by (simp add: after_data_def Let_def after_send_def put_tcp_def put_nb_def put_sock_def wake_def)

lemma after_data_socks [simp]: "socks (after_data sock d p nb ack route nic mac q qs s) = socks s"
  by (simp add: after_data_def Let_def after_send_def put_tcp_def put_nb_def wake_def)

abbreviation DATA_FLAGS :: u16 where "DATA_FLAGS \<equiv> TCP_FLAG_PSH OR TCP_FLAG_ACK"

lemma data_flags:
  "DATA_FLAGS AND 0x1FF = DATA_FLAGS" "DATA_FLAGS AND TCP_FLAG_SYNACK \<noteq> TCP_FLAG_SYN"
  "DATA_FLAGS AND TCP_FLAG_SYNACK \<noteq> TCP_FLAG_SYNACK" "DATA_FLAGS AND TCP_FLAG_PSH = TCP_FLAG_PSH"
  by (simp_all add: TCP_FLAG_PSH_def TCP_FLAG_ACK_def TCP_FLAG_SYNACK_def TCP_FLAG_SYN_def)

text \<open>The buffer after its segment has been checked.\<close>

definition checked_nb :: "net_buffer \<Rightarrow> u8 list \<Rightarrow> u8 list \<Rightarrow> u8 list \<Rightarrow> u8 list \<Rightarrow> net_buffer" where
  "checked_nb nb pre ip hdr msg = (net_buffer_shift 20 nb)\<lparr>payload := transp_header nb + 20,
     payload_size := of_nat (length msg), buffer := pre @ ip @ hdr @ msg\<rparr>"

lemma checked_nb_fields [simp]:
  "netw_header (checked_nb nb pre ip hdr msg) = netw_header nb" "transp_header (checked_nb nb pre ip hdr msg) = transp_header nb"
  "netw_packet_size (checked_nb nb pre ip hdr msg) = netw_packet_size nb" "payload_size (checked_nb nb pre ip hdr msg) = of_nat (length msg)"
  "buffer (checked_nb nb pre ip hdr msg) = pre @ ip @ hdr @ msg" "nb_refs (checked_nb nb pre ip hdr msg) = nb_refs nb"
  "payload (checked_nb nb pre ip hdr msg) = transp_header nb + 20"
  "payload_read_offset (checked_nb nb pre ip hdr msg) = payload_read_offset nb"
  by (simp_all add: checked_nb_def net_buffer_shift_def)

text \<open>The socket a data segment to port \<open>port\<close> goes to, ready to take it and to acknowledge.\<close>

definition data_ready :: "u16 \<Rightarrow> ptr \<Rightarrow> tcp4_socket_data \<Rightarrow> net \<Rightarrow> bool" where
  "data_ready port sock d s \<longleftrightarrow>
     sock \<noteq> NULL \<and> tcp4_bindings s port = sock \<and> tcps s sock = Some d \<and> \<not> is_listener d \<and> \<not> shut_rd d \<and>
     (\<exists>k. socks s sock = Some k \<and> 1 \<le> sk_refs k)"

lemma tcp_handle_data:
  assumes nb: "nbufs s p = Some nb"
    and seg: "holds_segment nb pre ip src dst (tcp_packet sp dp sn ack DATA_FLAGS c) msg"
    and c: "c = htons (tcp_ip4_calc_checksum (tcp_checksum_proto src dst (htons (20 + of_nat (length msg))))
             (tcp_packet sp dp sn ack DATA_FLAGS 0) msg (length msg))"
    and sock: "data_ready (ntohs dp) sock d s" and q: "q \<noteq> p"
    and ready: "ack_ready d route nic mac q qs s"
  defines "nb' \<equiv> checked_nb nb pre ip (tcp_packet sp dp sn ack DATA_FLAGS 0) msg"
  shows "tcp_ip4_handle E p s =
    Some (0, after_data sock d p nb' (htonl sn + of_nat (length msg)) route nic mac q qs (put_nb p nb' s))"
proof -
  let ?h = "tcp_packet sp dp sn ack DATA_FLAGS"
  let ?g = "\<lparr>sg_sport = sp, sg_dport = dp, sg_sn = sn, sg_ack = ack, sg_src = src, sg_dst = dst\<rparr>"
  obtain k where k: "socks s sock = Some k" "1 \<le> sk_refs k" and d: "sock \<noteq> NULL" "tcp4_bindings s (ntohs dp) = sock"
      "tcps s sock = Some d" "\<not> is_listener d" "\<not> shut_rd d" using sock by (auto simp: data_ready_def)
  have chk: "tcp_check nb = Some (True, nb')"
    using tcp_check_accepts [OF seg data_flags(1) c] by (simp add: nb'_def checked_nb_def)
  have "holds_segment nb' pre ip src dst (?h 0) msg"
    using seg by (simp add: holds_segment_def nb'_def)
  from read_segment_holds [OF this] have rs: "read_segment nb' = Some ?g" .
  have buf: "buffer nb = (pre @ ip) @ ?h c @ msg" and off: "transp_header nb = int (length (pre @ ip))"
    using seg by (auto simp: holds_segment_def)
  have "ld16 (buffer nb) (transp_header nb + 12) = ld16 (?h c) 12"
    unfolding buf off by (subst ld_skip) (simp_all add: ld_prefix)
  then have fl: "ld16 (buffer nb) (transp_header nb + 12) = Some (htons (DATA_FLAGS OR TCP_HEADER_SZ_VAL))"
    by (simp add: tcp_packet_fields)
  let ?k = "k\<lparr>sk_refs := sk_refs k + 1\<rparr>"
  let ?s = "put_sock sock ?k (put_nb p nb' s)"
  have del: "tcp_deliver E sock p ?g DATA_FLAGS (of_nat (length msg)) lsn ?s =
      Some (0, after_data sock d p nb' (htonl sn + of_nat (length msg)) route nic mac q qs ?s)" for lsn
    using tcp_deliver_data [OF data_flags(2-4), of ?s sock d p nb' q route nic mac qs E ?g "of_nat (length msg)" lsn]
      d q ready by (simp add: ack_ready_def ucast32_of_nat)
  have free: "free_socket sock (after_data sock d p nb' ack' route nic mac q qs ?s) =
      Some (after_data sock d p nb' ack' route nic mac q qs (put_nb p nb' s))" for ack'
    using k by (simp add: free_socket_def after_data_put_sock put_sock_same)
  show ?thesis
    using nb fl chk rs d k del free
    by (simp add: tcp_ip4_handle_def header_flags [OF data_flags(1)] acquire_socket_def tcp_demux_def Let_def nb'_def
        del: put_nb_nbufs)
qed

subsection \<open>Reading\<close>

text \<open>The unread bytes of a socket, and a receive queue in order: distinct live buffers that only the queue refers to.\<close>

definition rx_stream :: "ptr \<Rightarrow> net \<Rightarrow> u8 list" where
  "rx_stream sock s = (case tcps s sock of None \<Rightarrow> [] | Some d \<Rightarrow> queue_bytes (nbufs s) (t_rx_queue d))"

definition rx_wf :: "ptr \<Rightarrow> net \<Rightarrow> bool" where
  "rx_wf sock s \<longleftrightarrow> (\<exists>d. tcps s sock = Some d \<and> distinct (t_rx_queue d) \<and>
     (\<forall>p\<in>set (t_rx_queue d). \<exists>nb. nbufs s p = Some nb \<and> payload_ok nb \<and> nb_refs nb = 1))"

lemma recv_wait_head:
  assumes "socks s sock = Some k" and "tcps s sock = Some d" and "t_rx_queue d \<noteq> []"
  shows "recv_wait E sock flags s = Some (Inr (hd (t_rx_queue d)), s)"
  using assms by (subst recv_wait.simps) simp

text \<open>No buffer of the queue has been read to its end.\<close>

definition rx_nonempty :: "ptr \<Rightarrow> net \<Rightarrow> bool" where
  "rx_nonempty sock s \<longleftrightarrow> (\<forall>d p nb. tcps s sock = Some d \<longrightarrow> p \<in> set (t_rx_queue d) \<longrightarrow> nbufs s p = Some nb \<longrightarrow> unread nb \<noteq> [])"

lemma unread_remain: "payload_ok nb \<Longrightarrow> length (unread nb) = unat (net_buffer_get_payload_remain_len nb)"
proof -
  assume ok: "payload_ok nb"
  then have le: "payload_read_offset nb \<le> payload_size nb" "0 \<le> payload nb"
    and fit: "nat (payload nb) + unat (payload_size nb) \<le> length (buffer nb)" by (auto simp: payload_ok_def)
  have "nat (payload nb + uint (payload_read_offset nb)) = nat (payload nb) + unat (payload_read_offset nb)"
    using le by (simp add: nat_add_distrib)
  then show ?thesis using fit unat_sub [OF le(1)] le(1)
    by (simp add: unread_def net_buffer_get_payload_remain_len_def word_le_nat_alt)
qed

lemma recv_step:
  assumes wf: "rx_wf sock s" and k: "socks s sock = Some k" and d: "tcps s sock = Some d"
    and "was_connected d" and "len \<noteq> 0" and q: "t_rx_queue d = p # ps" and p: "nbufs s p = Some nb"
  shows "\<exists>data s'. sock_tcp4_recvfrom E sock len flags s = Some (int (length data), data, s') \<and>
    rx_stream sock s = data @ rx_stream sock s' \<and> length data = min (unat len) (length (unread nb)) \<and>
    rx_wf sock s' \<and> out s' = out s \<and> socks s' = socks s \<and> map_option was_connected (tcps s' sock) = Some True \<and>
    (rx_nonempty sock s \<longrightarrow> rx_nonempty sock s')"
proof -
  from wf d q p have ok: "payload_ok nb" "nb_refs nb = 1" and dist: "distinct (p # ps)"
    and others: "\<forall>x\<in>set ps. \<exists>nb. nbufs s x = Some nb \<and> payload_ok nb \<and> nb_refs nb = 1"
    by (auto simp: rx_wf_def)
  define n where "n = min len (payload_size nb - payload_read_offset nb)"
  obtain nb' where r: "net_buffer_read_payload_into len nb = Some (take (unat len) (unread nb), n, nb')"
    and nb': "unread nb' = drop (unat len) (unread nb)" "payload_ok nb'" "nb_refs nb' = 1"
      "net_buffer_get_payload_remain_len nb' = payload_size nb - payload_read_offset nb - n"
      "uint n = int (length (take (unat len) (unread nb)))"
    using read_payload_spec [OF ok(1), of len] ok(2) unfolding n_def by auto
  let ?data = "take (unat len) (unread nb)"
  let ?s1 = "put_nb p nb' s"
  have same: "queue_bytes (nbufs ?s1) ps = queue_bytes (nbufs s) ps"
    "queue_bytes ((nbufs s)(p := None)) ps = queue_bytes (nbufs s) ps"
    using dist by (auto intro!: queue_bytes_cong)
  have before: "rx_stream sock s = unread nb @ queue_bytes (nbufs s) ps"
    using d q p by (simp add: rx_stream_def)
  have start: "sock_tcp4_recvfrom E sock len flags s = do {
      s \<leftarrow> (if net_buffer_get_payload_remain_len nb' = 0
            then do {
              s \<leftarrow> on_tcp sock (\<lambda>d. d\<lparr>t_rx_queue := remove1 p (t_rx_queue d)\<rparr>) ?s1;
              net_buffer_free p s
            }
            else Some ?s1);
      Some (uint n, ?data, s) }"
    using assms r recv_wait_head [OF k d] by (simp add: sock_tcp4_recvfrom_def Let_def)
  show ?thesis
  proof (cases "net_buffer_get_payload_remain_len nb' = 0")
    case True
    let ?s2 = "(put_tcp sock (d\<lparr>t_rx_queue := ps\<rparr>) ?s1)\<lparr>nbufs := (nbufs s)(p := None)\<rparr>"
    have run: "sock_tcp4_recvfrom E sock len flags s = Some (int (length ?data), ?data, ?s2)"
      using True d q nb' start by (simp add: on_tcp_def net_buffer_free_def put_tcp_def)
    have "n = payload_size nb - payload_read_offset nb" using True nb'(4) by simp
    then have "unat (payload_size nb - payload_read_offset nb) \<le> unat len"
      unfolding n_def by (metis min.cobounded1 word_le_nat_alt)
    then have "length (unread nb) \<le> unat len" by (simp add: unread_def)
    then have "rx_stream sock s = ?data @ rx_stream sock ?s2"
      using before same by (simp add: rx_stream_def put_tcp_def)
    moreover have "rx_wf sock ?s2" using dist others by (auto simp: rx_wf_def put_tcp_def)
    moreover have "rx_nonempty sock s \<longrightarrow> rx_nonempty sock ?s2" using dist d q by (auto simp: rx_nonempty_def put_tcp_def)
    ultimately show ?thesis using run assms(4) by (intro exI [of _ ?data] exI [of _ ?s2]) (simp add: put_tcp_def)
  next
    case False
    have run: "sock_tcp4_recvfrom E sock len flags s = Some (int (length ?data), ?data, ?s1)"
      using False nb' start by simp
    have "rx_stream sock s = ?data @ rx_stream sock ?s1"
      using before same nb' d q by (simp add: rx_stream_def)
    moreover have "rx_wf sock ?s1" using dist others d q nb' by (auto simp: rx_wf_def)
    moreover have "unread nb' \<noteq> []" using False unread_remain [OF nb'(2)] by (auto simp: unat_eq_zero)
    then have "rx_nonempty sock s \<longrightarrow> rx_nonempty sock ?s1" using d q by (auto simp: rx_nonempty_def)
    ultimately show ?thesis using run d assms(4) by (intro exI [of _ ?data] exI [of _ ?s1]) simp
  qed
qed

text \<open>A socket a program reads from like a stream, at most a page at a time.\<close>

definition rx_ready :: "ptr \<Rightarrow> net \<Rightarrow> bool" where
  "rx_ready sock s \<longleftrightarrow> rx_wf sock s \<and> rx_nonempty sock s \<and> socks s sock \<noteq> None \<and> map_option was_connected (tcps s sock) = Some True"

definition tcp_get :: "env \<Rightarrow> ptr \<Rightarrow> nat \<Rightarrow> net \<Rightarrow> (u8 list \<times> net) option" where
  "tcp_get E sock n s = map_option (\<lambda>(rc, data, s). (data, s)) (sock_tcp4_recvfrom E sock (of_nat (min n 4096)) 0 s)"

interpretation tcp_src: byte_source "rx_ready sock" "rx_stream sock" "tcp_get E sock" for E sock
proof unfold_locales
  fix s n
  assume ready: "rx_ready sock s" and ne: "rx_stream sock s \<noteq> []" and n: "0 < (n :: nat)"
  obtain k d where k: "socks s sock = Some k" and d: "tcps s sock = Some d" "was_connected d" using ready by (auto simp: rx_ready_def)
  obtain p ps where q: "t_rx_queue d = p # ps" using ne d by (cases "t_rx_queue d") (auto simp: rx_stream_def)
  obtain nb where nb: "nbufs s p = Some nb" "unread nb \<noteq> []" using ready d q by (auto simp: rx_ready_def rx_wf_def rx_nonempty_def)
  have u: "unat (of_nat (min n 4096) :: u64) = min n 4096" by (intro unat_of_nat_small) simp
  then have "(of_nat (min n 4096) :: u64) \<noteq> 0" using n by (metis min_less_iff_conj not_less0 unat_eq_zero zero_less_numeral neq0_conv)
  from recv_step [OF _ k d(1) d(2) this q nb(1), of E 0] ready obtain data s' where
    r: "sock_tcp4_recvfrom E sock (of_nat (min n 4096)) 0 s = Some (int (length data), data, s')" "rx_stream sock s = data @ rx_stream sock s'"
      "length data = min (min n 4096) (length (unread nb))" "rx_ready sock s'"
    unfolding u rx_ready_def by auto
  have "data \<noteq> []" "length data \<le> n" using r(3) nb(2) n by (auto simp: min_def split: if_splits)
  then show "\<exists>d s'. tcp_get E sock n s = Some (d, s') \<and> rx_stream sock s = d @ rx_stream sock s' \<and> d \<noteq> [] \<and> length d \<le> n \<and> rx_ready sock s'"
    using r by (simp add: tcp_get_def)
qed

text \<open>C7. On a socket with received data, \<open>sock_tcp4_recvfrom\<close> refines reading from a byte stream: it returns a
  prefix of the unread bytes, as long as the caller asks for up to what the first buffer still holds, its result is
  the length of that prefix, and the stream that remains is the rest. The queue stays well formed.\<close>

theorem tcp_recv_stream:
  assumes wf: "rx_wf sock s" and k: "socks s sock = Some k" and d: "tcps s sock = Some d"
    and "was_connected d" and "len \<noteq> 0" and q: "t_rx_queue d = p # ps" and p: "nbufs s p = Some nb"
  shows "\<exists>data s'. sock_tcp4_recvfrom E sock len flags s = Some (int (length data), data, s') \<and>
    rx_stream sock s = data @ rx_stream sock s' \<and> length data = min (unat len) (length (unread nb)) \<and>
    rx_wf sock s' \<and> out s' = out s"
  using recv_step [OF wf k d assms(4,5) q p, of E flags] by blast

text \<open>C23. On a connected TCP socket whose peer can be reached, \<open>sock_tcp4_sendto\<close> works exactly for messages of up to
  970 bytes: the 1024-byte buffer also takes the Ethernet, IPv4 and TCP headers, and a longer message is written in
  front of it. What a successful call returns is the driver's code and not the number of bytes.\<close>

theorem tcp_sendto_bound:
  assumes "send_ready sock d route nic mac s" and "buffer_memory p ps s" and "msg \<noteq> []"
  shows "(sock_tcp4_sendto E sock msg s = None \<longleftrightarrow> 970 < length msg) \<and>
    (\<forall>rc s'. sock_tcp4_sendto E sock msg s = Some (rc, s') \<longrightarrow> rc = tx_rc E (rt_interface route)
       (tcp_frame nic mac (sin_addr (t_addr d)) (data_segment nic d msg)))"
  using sendto_spec [OF assms, of E] by (simp add: Let_def)

lemma put_tcp_fields [simp]:
  "tcps (put_tcp p d s) = (tcps s)(p \<mapsto> d)" "socks (put_tcp p d s) = socks s" "nbufs (put_tcp p d s) = nbufs s"
  "tcp4_bindings (put_tcp p d s) = tcp4_bindings s" "out (put_tcp p d s) = out s" "fresh (put_tcp p d s) = fresh s"
  by (simp_all add: put_tcp_def)

lemma put_tcp_put_tcp [simp]: "put_tcp p x (put_tcp p y s) = put_tcp p x s"
  by (simp add: put_tcp_def)

lemma wake_fields [simp]:
  "tcps (wake w n s) = tcps s" "socks (wake w n s) = socks s" "nbufs (wake w n s) = nbufs s"
  "tcp4_bindings (wake w n s) = tcp4_bindings s" "out (wake w n s) = out s"
  by (simp_all add: wake_def)

lemma after_send_fields [simp]:
  "tcps (after_send p ps i f s) = tcps s" "socks (after_send p ps i f s) = socks s"
  "tcp4_bindings (after_send p ps i f s) = tcp4_bindings s" "out (after_send p ps i f s) = out s @ [(i, f)]"
  "fresh (after_send p ps i f s) = ps"
  by (simp_all add: after_send_def)

subsection \<open>A sample machine\<close>

text \<open>One interface with the address 127.0.0.1, a route to it, and a socket on port 8080 connected to itself.\<close>

definition sample_nic :: nic where
  "sample_nic = \<lparr>nic_mac = [2, 0, 0, 0, 0, 1], ipv4_addr = 0x0100007F, ipv4_subnet = 255, nic_name = [108, 111], nic_flags = 1\<rparr>"

definition sample_route :: route4 where
  "sample_route = \<lparr>dest = 0x0100007F, netmask = 0xFFFFFFFF, gateway = 0, rt_flags = 0, metric = 1, rt_interface = 0x10\<rparr>"

definition sample_sock :: socket where
  "sample_sock = \<lparr>sk_refs = 2, sk_domain = 2, sk_type = 1, sk_protocol = 0, sk_state = CONNECTED, sk_ops = ipv4_stream_ops\<rparr>"

definition sample_tcp :: tcp4_socket_data where
  "sample_tcp = \<lparr>src_port = 8080, bound_port = 8080, t_addr = \<lparr>sin_family = 2, sin_port = 0x901F, sin_addr = 0x0100007F\<rparr>,
     t_sn = 100, t_ack = 200, was_connected = True, is_listener = False, is_rst = False, shut_rd = False, shut_wr = False,
     backlog_sz = 0, accept_queue = [], children = [], listener = NULL, t_rx_queue = []\<rparr>"

definition sample_net :: net where
  "sample_net = net_blank\<lparr>nics := [0x10 \<mapsto> sample_nic], route_table4 := [sample_route],
     arp_cache := [\<lparr>ae_addr = 0x0100007F, ae_mac = [2, 0, 0, 0, 0, 1]\<rparr>], socks := [0x100 \<mapsto> sample_sock],
     tcps := [0x100 \<mapsto> sample_tcp], tcp4_bindings := (\<lambda>_. NULL)(8080 := 0x100),
     protocols := (\<lambda>_. None)(6 := Some tcp_handler), fresh := [1, 2, 3, 4, 5, 6, 7, 8]\<rparr>"

lemmas sample_defs = sample_net_def sample_tcp_def sample_sock_def sample_route_def sample_nic_def net_blank_def

abbreviation sample_mac :: "u8 list" where "sample_mac \<equiv> [2, 0, 0, 0, 0, 1]"

lemma sample_path: "path_ready sample_route 0x0100007F sample_nic sample_mac sample_net"
  "route4_resolve 0x0100007F sample_net = Some sample_route"
  by (simp_all add: path_ready_def next_hop_def get_arp_cache_entry_def route4_resolve_def sample_defs)

lemma sample_send: "send_ready 0x100 sample_tcp sample_route sample_nic sample_mac sample_net"
  "buffer_memory 2 [3, 4, 5, 6, 7, 8] sample_net" "ack_ready sample_tcp sample_route sample_nic sample_mac 2 [3, 4, 5, 6, 7, 8] sample_net"
  using sample_path by (simp_all add: send_ready_def ack_ready_def buffer_memory_def) (simp_all add: sample_defs)

theorem tcp_sendto_bound_witness:
  "sock_tcp4_sendto quiet_env 0x100 (replicate 971 0) sample_net = None \<and>
   sock_tcp4_sendto quiet_env 0x100 (replicate 970 0) sample_net \<noteq> None"
  using tcp_sendto_bound [OF sample_send(1,2), of "replicate 971 0" quiet_env]
    tcp_sendto_bound [OF sample_send(1,2), of "replicate 970 0" quiet_env] by simp

text \<open>The sample machine with three unread bytes on its socket.\<close>

definition sample_rx :: net where
  "sample_rx = put_tcp 0x100 (sample_tcp\<lparr>t_rx_queue := [0x300]\<rparr>) (put_nb 0x300 sample_packet sample_net)"

lemma sample_rx_facts: "rx_wf 0x100 sample_rx" "socks sample_rx 0x100 = Some sample_sock"
  "tcps sample_rx 0x100 = Some (sample_tcp\<lparr>t_rx_queue := [0x300]\<rparr>)" "nbufs sample_rx 0x300 = Some sample_packet"
  "tcp4_bindings sample_rx 8080 = 0x100"
  using sample_packet_ok by (simp_all add: rx_wf_def sample_rx_def) (simp_all add: sample_defs)

theorem tcp_recv_stream_witness:
  "\<exists>data s'. sock_tcp4_recvfrom quiet_env 0x100 2 0 sample_rx = Some (int (length data), data, s') \<and>
    [1, 2, 3] = data @ rx_stream 0x100 s' \<and> length data = Suc (Suc 0) \<and> rx_wf 0x100 s' \<and> out s' = out sample_rx"
proof -
  have "rx_stream 0x100 sample_rx = [1, 2, 3]" using sample_rx_facts sample_packet_ok by (simp add: rx_stream_def)
  moreover have "was_connected (sample_tcp\<lparr>t_rx_queue := [0x300]\<rparr>)" by (simp add: sample_tcp_def)
  ultimately show ?thesis
    using tcp_recv_stream [OF sample_rx_facts(1-3), of 2 "0x300" "[]" sample_packet quiet_env 0] sample_rx_facts sample_packet_ok by simp
qed

end
