(* ===== verification/Ipstack.thy ===== *)
theory Ipstack
  imports Udp Rawsock Tcpdata
begin

text \<open>
  The receiving side of IPv4 and Ethernet (\<^verbatim>\<open>ipv4.c\<close>, \<^verbatim>\<open>eth.c\<close>), which hands packets to the transport protocols
  and the raw sockets, the loopback interface (\<^verbatim>\<open>loopback.c\<close>), and the dispatch of the socket calls to the
  protocols (\<^verbatim>\<open>af_inet.c\<close>, \<^verbatim>\<open>socket.c\<close>, \<^verbatim>\<open>net.c\<close>).
\<close>

subsection \<open>IPv4: \<^verbatim>\<open>ip4_handle_packet\<close>\<close>

definition IP4_IHL :: "u8 \<Rightarrow> u8" where "IP4_IHL x = x AND 0xF"

definition ip4_dispatch :: "env \<Rightarrow> ip4_handler \<Rightarrow> ptr \<Rightarrow> net \<Rightarrow> (int \<times> net) option" where
  "ip4_dispatch E h p s =
     (case h of tcp_handler \<Rightarrow> tcp_ip4_handle E p s
              | udp_handler \<Rightarrow> udp_ip4_handle p s
              | icmp_handler \<Rightarrow> icmp_ip4_handle E p s)"

text \<open>
  A wrong header checksum is only reported. The table of handlers has \<open>IPV4_MAX_PROTOCOLS\<close> entries and the
  protocol number of the packet indexes it unchecked.
\<close>

definition ip4_handle_packet :: "env \<Rightarrow> ptr \<Rightarrow> net \<Rightarrow> net option" where
  "ip4_handle_packet E p s = do {
     nb \<leftarrow> nbufs s p;
     let nb = nb\<lparr>netw_header := cursor nb\<rparr>;
     let ip = netw_header nb;
     version_ihl \<leftarrow> ld8 (buffer nb) ip;
     let header_size = unat (IP4_IHL version_ihl) * 4;
     let nb = net_buffer_shift (int header_size) nb;
     let nb = nb\<lparr>transp_header := cursor nb\<rparr>;
     sz \<leftarrow> ld16 (buffer nb) (ip + 2);
     let nb = nb\<lparr>netw_packet_size := ucast (ntohs sz) - of_nat header_size\<rparr>;
     checked \<leftarrow> rd (buffer nb) ip header_size;
     stored \<leftarrow> ld16 (buffer nb) (ip + 10);
     protocol \<leftarrow> ld8 (buffer nb) (ip + 9);
     let s = put_nb p nb s;
     if unat protocol \<ge> IPV4_MAX_PROTOCOLS then None
     else do {
       s \<leftarrow> (case protocols s (unat protocol) of
              None \<Rightarrow> Some s
            | Some h \<Rightarrow> do { (rc, s) \<leftarrow> ip4_dispatch E h p s; Some s });
       raw4_accept_packet (uint protocol) p s
     }
   }"

subsection \<open>Ethernet: \<^verbatim>\<open>eth_handle_frame\<close>\<close>

definition eth_handle_frame :: "env \<Rightarrow> ptr \<Rightarrow> net \<Rightarrow> net option" where
  "eth_handle_frame E p s = do {
     s \<leftarrow> net_buffer_acquire p s;
     s \<leftarrow> on_nb p (\<lambda>nb. Some (nb\<lparr>link_header := cursor nb\<rparr>)) s;
     nb \<leftarrow> nbufs s p;
     nic \<leftarrow> nics s (netdev nb);
     dst \<leftarrow> rd (buffer nb) (cursor nb) 6;
     s \<leftarrow> (if dst \<noteq> nic_mac nic \<and> \<not> mac_is_broadcast dst then Some s
           else do {
             ty \<leftarrow> ld16 (buffer nb) (cursor nb + 12);
             let s = put_nb p (net_buffer_shift 14 nb) s;
             s \<leftarrow> (if ntohs ty = ETH_TYPE_ARP then arp_handle_packet E p s
                   else if ntohs ty = ETH_TYPE_IPV4 then ip4_handle_packet E p s
                   else Some s);
             packet_raw_accept_packet (uint (ntohs ty)) p s
           });
     net_buffer_free p s
   }"

subsection \<open>The loopback interface: \<^verbatim>\<open>loopback.c\<close>\<close>

text \<open>\<open>loopback_tx\<close> copies the frame into a new buffer and hands it to the receiving side; the counters are left out.\<close>

definition loopback_tx :: "env \<Rightarrow> ptr \<Rightarrow> u8 list \<Rightarrow> net \<Rightarrow> (int \<times> net) option" where
  "loopback_tx E nic frame s =
     (let (nb, s) = new_net_buffer frame nic s in do { s \<leftarrow> eth_handle_frame E nb s; Some (0, s) })"

definition LOOPBACK_ADDR :: u32 where "LOOPBACK_ADDR = push_bit 24 1 OR 127"

definition loopback_init :: "net \<Rightarrow> net option" where
  "loopback_init s =
     (let (nic, s) = kalloc s
      in if nic = NULL then None
         else let s = s\<lparr>nics := (nics s)(nic \<mapsto> \<lparr>nic_mac = replicate 6 0, ipv4_addr = LOOPBACK_ADDR, ipv4_subnet = 255,
                          nic_name = [108, 111, 48], nic_flags = NIC_FLAG_LOOPBACK OR 1\<rparr>),
                        nic_list := nic_list s @ [nic]\<rparr>;
                  (route, s) = kalloc s
              in if route = NULL then None
                 else Some (snd (route4_add \<lparr>dest = LOOPBACK_ADDR, netmask = 0xFFFFFFFF, gateway = 0, rt_flags = 0,
                                   metric = 331, rt_interface = nic\<rparr> s)))"

text \<open>\<^verbatim>\<open>net_init\<close>, without the registration of the socket families\<close>

definition net_init :: "net \<Rightarrow> net option" where
  "net_init s = do { s \<leftarrow> loopback_init s; Some (icmp_ip4_init (tcp_ip4_init (udp_ip4_init s))) }"

subsection \<open>Socket calls: \<^verbatim>\<open>af_inet.c\<close>, \<^verbatim>\<open>socket.c\<close>\<close>

definition ipv4_sock_create :: "ptr \<Rightarrow> int \<Rightarrow> int \<Rightarrow> net \<Rightarrow> (int \<times> net) option" where
  "ipv4_sock_create sock ty protocol s = do {
     k \<leftarrow> socks s sock;
     if ty = 1 then sock_tcp4_create sock (put_sock sock (k\<lparr>sk_ops := ipv4_stream_ops\<rparr>) s)
     else if ty = 3 then sock_raw4_create sock (put_sock sock (k\<lparr>sk_ops := ipv4_raw_ops\<rparr>) s)
     else if ty = 2 then Some (sock_udp4_create sock (put_sock sock (k\<lparr>sk_ops := ipv4_dgram_ops\<rparr>) s))
     else Some (- EINVAL, s)
   }"

definition packet_sock_create :: "ptr \<Rightarrow> int \<Rightarrow> int \<Rightarrow> net \<Rightarrow> (int \<times> net) option" where
  "packet_sock_create sock ty protocol s = do {
     k \<leftarrow> socks s sock;
     if ty = 3 then sock_packet_raw_create sock (put_sock sock (k\<lparr>sk_ops := packet_raw_ops\<rparr>) s)
     else Some (- EINVAL, s)
   }"

text \<open>\<open>local\<close> is the constructor of the local (Unix) family, \<^verbatim>\<open>ipc/local_socket.c\<close>, which is not part of this model.\<close>

definition socket_init ::
  "(ptr \<Rightarrow> int \<Rightarrow> int \<Rightarrow> net \<Rightarrow> (int \<times> net) option) \<Rightarrow> ptr \<Rightarrow> int \<Rightarrow> int \<Rightarrow> int \<Rightarrow> net \<Rightarrow> (int \<times> net) option" where
  "socket_init local sock domain ty protocol s =
     (if domain < 0 then Some (- EINVAL, s)
      else if ty < 0 \<or> ty \<ge> 4 then Some (- EINVAL, s)
      else do {
        k \<leftarrow> socks s sock;
        let s = put_sock sock (k\<lparr>sk_domain := domain, sk_type := ty, sk_protocol := protocol\<rparr>) s;
        if domain = uint AF_INET then ipv4_sock_create sock ty protocol s
        else if domain = uint AF_PACKET then packet_sock_create sock ty protocol s
        else if domain = 1 then local sock ty protocol s
        else Some (- EINVAL, s)
      })"

definition socket_connect :: "env \<Rightarrow> ptr \<Rightarrow> sockaddr_in \<Rightarrow> u32 \<Rightarrow> net \<Rightarrow> (int \<times> net) option" where
  "socket_connect E sock saddr len s = do {
     k \<leftarrow> socks s sock;
     case sk_ops k of
       no_ops \<Rightarrow> None
     | ipv4_stream_ops \<Rightarrow> sock_tcp4_connect E sock saddr len s
     | ipv4_dgram_ops \<Rightarrow> sock_udp4_connect sock saddr len s
     | _ \<Rightarrow> Some (- EINVAL, s)
   }"

definition socket_bind :: "ptr \<Rightarrow> sockaddr_in \<Rightarrow> u8 list \<Rightarrow> u32 \<Rightarrow> net \<Rightarrow> (int \<times> net) option" where
  "socket_bind sock addr ifname len s = do {
     k \<leftarrow> socks s sock;
     case sk_ops k of
       no_ops \<Rightarrow> None
     | ipv4_stream_ops \<Rightarrow> sock_tcp4_bind sock addr len s
     | ipv4_dgram_ops \<Rightarrow> sock_udp4_bind sock addr len s
     | packet_raw_ops \<Rightarrow> sock_packet_raw_bind sock (sin_family addr) ifname len s
     | ipv4_raw_ops \<Rightarrow> Some (- EINVAL, s)
   }"

definition socket_listen :: "ptr \<Rightarrow> int \<Rightarrow> net \<Rightarrow> (int \<times> net) option" where
  "socket_listen sock backlog s = do {
     k \<leftarrow> socks s sock;
     case sk_ops k of no_ops \<Rightarrow> None | ipv4_stream_ops \<Rightarrow> sock_tcp4_listen sock backlog s | _ \<Rightarrow> Some (- EINVAL, s)
   }"

definition socket_accept :: "env \<Rightarrow> ptr \<Rightarrow> net \<Rightarrow> (int \<times> ptr \<times> net) option" where
  "socket_accept E sock s = do {
     k \<leftarrow> socks s sock;
     case sk_ops k of no_ops \<Rightarrow> None | ipv4_stream_ops \<Rightarrow> sock_tcp4_accept E sock s | _ \<Rightarrow> Some (- EINVAL, NULL, s)
   }"

definition socket_sendto ::
  "env \<Rightarrow> ptr \<Rightarrow> u8 list \<Rightarrow> sockaddr_in option \<Rightarrow> u32 \<Rightarrow> net \<Rightarrow> (int \<times> net) option" where
  "socket_sendto E sock msg to tolen s = do {
     k \<leftarrow> socks s sock;
     case sk_ops k of
       no_ops \<Rightarrow> None
     | ipv4_stream_ops \<Rightarrow> sock_tcp4_sendto E sock msg s
     | ipv4_dgram_ops \<Rightarrow> sock_udp4_sendto E sock msg to tolen s
     | ipv4_raw_ops \<Rightarrow> sock_raw4_sendto E sock msg to tolen s
     | packet_raw_ops \<Rightarrow> sock_packet_raw_sendto E sock msg to tolen s
   }"

text \<open>The result and the bytes; the address of the sender is dropped.\<close>

definition socket_recvfrom :: "env \<Rightarrow> ptr \<Rightarrow> u64 \<Rightarrow> u32 \<Rightarrow> u32 option \<Rightarrow> net \<Rightarrow> (int \<times> u8 list \<times> net) option" where
  "socket_recvfrom E sock len flags src_addr s = do {
     k \<leftarrow> socks s sock;
     case sk_ops k of
       no_ops \<Rightarrow> None
     | ipv4_stream_ops \<Rightarrow> sock_tcp4_recvfrom E sock len flags s
     | ipv4_dgram_ops \<Rightarrow> do { (rc, b, a, s) \<leftarrow> sock_udp4_recvfrom E sock len flags src_addr s; Some (rc, b, s) }
     | ipv4_raw_ops \<Rightarrow> do { (rc, b, a, s) \<leftarrow> sock_raw4_recvfrom E sock len flags src_addr s; Some (rc, b, s) }
     | packet_raw_ops \<Rightarrow> do { (rc, b, a, s) \<leftarrow> sock_packet_raw_recvfrom E sock len flags src_addr s; Some (rc, b, s) }
   }"

definition socket_setsockopt :: "ptr \<Rightarrow> u32 \<Rightarrow> u32 \<Rightarrow> u8 list \<Rightarrow> u32 \<Rightarrow> net \<Rightarrow> (int \<times> net) option" where
  "socket_setsockopt sock level optname optval optlen s = do {
     k \<leftarrow> socks s sock;
     case sk_ops k of
       no_ops \<Rightarrow> None
     | ipv4_stream_ops \<Rightarrow> Some (sock_tcp4_setsockopt s)
     | ipv4_dgram_ops \<Rightarrow> sock_udp4_setsockopt sock level optname optval optlen s
     | ipv4_raw_ops \<Rightarrow> sock_raw4_setsockopt sock level optname optval optlen s
     | packet_raw_ops \<Rightarrow> Some (- EINVAL, s)
   }"

definition socket_shutdown :: "env \<Rightarrow> ptr \<Rightarrow> int \<Rightarrow> net \<Rightarrow> (int \<times> net) option" where
  "socket_shutdown E sock how s = do {
     k \<leftarrow> socks s sock;
     case sk_ops k of no_ops \<Rightarrow> None | ipv4_stream_ops \<Rightarrow> sock_tcp4_shutdown E sock how s | _ \<Rightarrow> Some (- EINVAL, s)
   }"

definition socket_getpeername :: "ptr \<Rightarrow> nat \<Rightarrow> net \<Rightarrow> (int \<times> u8 list \<times> nat) option" where
  "socket_getpeername sock addrlen s = do {
     k \<leftarrow> socks s sock;
     case sk_ops k of
       no_ops \<Rightarrow> None
     | ipv4_stream_ops \<Rightarrow> sock_tcp4_getpeername sock addrlen s
     | _ \<Rightarrow> Some (- EINVAL, [], addrlen)
   }"

definition socket_read :: "env \<Rightarrow> ptr \<Rightarrow> u64 \<Rightarrow> net \<Rightarrow> (int \<times> u8 list \<times> net) option" where
  "socket_read E sock count s = socket_recvfrom E sock count 0 None s"

definition socket_write :: "env \<Rightarrow> ptr \<Rightarrow> u8 list \<Rightarrow> net \<Rightarrow> (int \<times> net) option" where
  "socket_write E sock buf s = socket_sendto E sock buf None 0 s"

definition socket_ioctl :: "ptr \<Rightarrow> u64 \<Rightarrow> u32 \<Rightarrow> net \<Rightarrow> (int \<times> net) option" where
  "socket_ioctl sock request arg s = do {
     k \<leftarrow> socks s sock;
     case sk_ops k of no_ops \<Rightarrow> None | ipv4_dgram_ops \<Rightarrow> sock_udp4_ioctl sock request arg s | _ \<Rightarrow> Some (- EINVAL, s)
   }"

definition socket_poll :: "ptr \<Rightarrow> net \<Rightarrow> u16 option" where
  "socket_poll sock s = do {
     k \<leftarrow> socks s sock;
     case sk_ops k of
       no_ops \<Rightarrow> None
     | ipv4_stream_ops \<Rightarrow> sock_tcp4_poll sock s
     | ipv4_dgram_ops \<Rightarrow> sock_udp4_poll sock s
     | ipv4_raw_ops \<Rightarrow> sock_raw4_poll sock s
     | packet_raw_ops \<Rightarrow> sock_packet_raw_poll sock s
   }"

text \<open>The state after closing (the return code of a raw packet socket is not specified).\<close>

definition socket_close :: "env \<Rightarrow> ptr \<Rightarrow> net \<Rightarrow> net option" where
  "socket_close E sock s = do {
     k \<leftarrow> socks s sock;
     s \<leftarrow> (case sk_ops k of
            no_ops \<Rightarrow> None
          | ipv4_stream_ops \<Rightarrow> map_option snd (sock_tcp4_close E sock s)
          | ipv4_dgram_ops \<Rightarrow> map_option snd (sock_udp4_close sock s)
          | ipv4_raw_ops \<Rightarrow> map_option snd (sock_raw4_close sock s)
          | packet_raw_ops \<Rightarrow> sock_packet_raw_close sock s);
     free_socket sock s
   }"

subsection \<open>Receiving a packet\<close>

definition ip4_received :: "net_buffer \<Rightarrow> u16 \<Rightarrow> net_buffer" where
  "ip4_received nb sz = (net_buffer_shift 20 (nb\<lparr>netw_header := cursor nb\<rparr>))
     \<lparr>transp_header := cursor nb + 20, netw_packet_size := ucast (ntohs sz) - 20\<rparr>"

text \<open>A buffer whose cursor stands before an IPv4 packet with a header of 20 bytes.\<close>

definition holds_ip4 :: "net_buffer \<Rightarrow> u8 list \<Rightarrow> u8 list \<Rightarrow> u8 list \<Rightarrow> u16 \<Rightarrow> u8 \<Rightarrow> bool" where
  "holds_ip4 nb pre ip rest sz prot \<longleftrightarrow>
     buffer nb = pre @ ip @ rest \<and> cursor nb = int (length pre) \<and> length ip = 20 \<and>
     ld8 ip 0 = Some 0x45 \<and> ld16 ip 2 = Some sz \<and> ld8 ip 9 = Some prot"

lemma ip4_handle_packet_eq:
  assumes nb: "nbufs s p = Some nb" and ip: "holds_ip4 nb pre ip rest sz prot"
  shows "ip4_handle_packet E p s =
    (if unat prot \<ge> IPV4_MAX_PROTOCOLS then None
     else do {
       s \<leftarrow> (case protocols s (unat prot) of
              None \<Rightarrow> Some (put_nb p (ip4_received nb sz) s)
            | Some h \<Rightarrow> do { (rc, s) \<leftarrow> ip4_dispatch E h p (put_nb p (ip4_received nb sz) s); Some s });
       raw4_accept_packet (uint prot) p s
     })"
proof -
  have b: "buffer nb = pre @ ip @ rest" "cursor nb = int (length pre)" "length ip = 20"
    and f: "ld8 ip 0 = Some 0x45" "ld16 ip 2 = Some sz" "ld8 ip 9 = Some prot" using ip by (auto simp: holds_ip4_def)
  have l8: "ld8 (pre @ ip @ rest) (int (length pre) + k) = ld8 ip k"
    and l16: "ld16 (pre @ ip @ rest) (int (length pre) + k) = ld16 ip k" if "0 \<le> k" "k \<le> 18" for k
    using that b by (subst ld_skip; simp add: ld_prefix)+
  obtain cs where cs: "ld16 ip 10 = Some cs" using ld16_inside [of 10 ip] b(3) by auto
  have r: "rd (pre @ ip @ rest) (int (length pre)) 20 = Some ip" using b by (intro rd_at) simp_all
  have ihl: "unat (IP4_IHL 0x45) * 4 = 20" by (simp add: IP4_IHL_def)
  show ?thesis
    unfolding ip4_handle_packet_def
    using nb f cs r l8 [of 0] l8 [of 9] l16 [of 2] l16 [of 10]
    by (simp add: b ihl net_buffer_shift_def ip4_received_def Let_def cong: option.case_cong)
qed


subsection \<open>From one machine to the other\<close>

text \<open>The allocator hands out addresses that are neither null nor in use.\<close>

definition mem_ok :: "net \<Rightarrow> bool" where
  "mem_ok s \<longleftrightarrow> distinct (fresh s) \<and> NULL \<notin> set (fresh s) \<and> set (fresh s) \<inter> dom (nbufs s) = {}"

text \<open>The receiving machine: the interface the frame arrives on, the protocol table, no raw sockets.\<close>

definition host_ready :: "ptr \<Rightarrow> u8 list \<Rightarrow> net \<Rightarrow> bool" where
  "host_ready ifc mac s \<longleftrightarrow> map_option nic_mac (nics s ifc) = Some mac \<and> protocols s 6 = Some tcp_handler \<and>
     raw_sockets s = [] \<and> packet_raw_sockets s = []"

lemma ip4_frame_holds:
  fixes data :: "u8 list"
  assumes "buffer nb = ip4_frame nic mac dst prot ttl data" and "cursor nb = 14"
    and "length mac = 6" and "length (nic_mac nic) = 6"
  shows "holds_ip4 nb (ethernet_frame mac (nic_mac nic) (htons ETH_TYPE_IPV4))
    (ip4_header (ipv4_addr nic) dst prot ttl (length data)) data (htons (of_nat (length data + 20))) prot"
  using assms by (simp add: holds_ip4_def ip4_frame_def ip4_header_def ip4_packet_fields Let_def)

lemma eth_handle_ip4:
  assumes nb: "nbufs s p = Some nb" "cursor nb = 0" "netdev nb = ifc"
    and buf: "buffer nb = ethernet_frame mac src (htons ETH_TYPE_IPV4) @ rest" and mac: "length mac = 6" "length src = 6"
    and host: "map_option nic_mac (nics s ifc) = Some mac"
  defines "nb' \<equiv> net_buffer_shift 14 (nb\<lparr>nb_refs := nb_refs nb + 1, link_header := 0\<rparr>)"
  shows "eth_handle_frame E p s = do {
      s \<leftarrow> ip4_handle_packet E p (put_nb p nb' s);
      s \<leftarrow> packet_raw_accept_packet (uint ETH_TYPE_IPV4) p s;
      net_buffer_free p s
    }"
proof -
  obtain nic where nic: "nics s ifc = Some nic" "nic_mac nic = mac" using host by auto
  have "rd (mac @ (src @ le16 (htons ETH_TYPE_IPV4) @ rest)) 0 6 = Some mac" using mac by (simp add: rd_def)
  then have dst: "rd (buffer nb) 0 6 = Some mac" by (simp add: buf ethernet_frame_def)
  have ty: "ld16 (buffer nb) 12 = Some (htons ETH_TYPE_IPV4)"
    using ethernet_frame_type [OF mac] mac by (simp add: buf ld_prefix)
  have ne: "ETH_TYPE_IPV4 \<noteq> ETH_TYPE_ARP" by (simp add: ETH_TYPE_IPV4_def ETH_TYPE_ARP_def)
  show ?thesis
    using nb nic dst ty ne
    by (simp add: eth_handle_frame_def net_buffer_acquire_def on_nb_def nb'_def Let_def)
qed

lemma packet_size:
  assumes "n + 40 < 65536"
  shows "ucast (ntohs (htons (of_nat (n + 20 + 20)))) - 20 = (of_nat (20 + n) :: u64)"
proof -
  have "(ucast (of_nat (n + 40) :: u16) :: u64) = of_nat (n + 40)"
    using assms by (simp only: unsigned_of_nat) (simp add: take_bit_nat_eq_self)
  then show ?thesis by (simp add: add.assoc)
qed

lemma unread_checked:
  assumes "length pre + length ip + length hdr = 54" and "payload_read_offset nb = 0" and "transp_header nb = 34"
    and "length msg < 65536"
  shows "unread (checked_nb nb pre ip hdr msg) = msg" and "payload_ok (checked_nb nb pre ip hdr msg)"
proof -
  have u: "unat (of_nat (length msg) :: u64) = length msg" using assms(4) by (intro unat_of_nat_small) simp
  have b: "drop 54 (pre @ ip @ hdr @ msg) = msg" using assms(1) by simp
  show "unread (checked_nb nb pre ip hdr msg) = msg" using assms u b by (simp add: unread_def del: drop_append)
  show "payload_ok (checked_nb nb pre ip hdr msg)" using assms u by (simp add: payload_ok_def)
qed

text \<open>What the receiver's state is after the frame.\<close>

definition data_queued :: "ptr \<Rightarrow> tcp4_socket_data \<Rightarrow> u32 \<Rightarrow> ptr \<Rightarrow> u8 list \<Rightarrow> ptr \<Rightarrow> ptr list \<Rightarrow> net \<Rightarrow> net \<Rightarrow> bool" where
  "data_queued sock d ack p msg q qs s s' \<longleftrightarrow>
     (\<exists>nb. nbufs s' = (nbufs s)(q := None, p \<mapsto> nb) \<and> unread nb = msg \<and> payload_ok nb \<and> nb_refs nb = 1) \<and>
     tcps s' = (tcps s)(sock \<mapsto> d\<lparr>t_ack := ack, t_rx_queue := t_rx_queue d @ [p]\<rparr>) \<and>
     socks s' = socks s \<and> fresh s' = qs \<and> wakes s' = wakes s @ [(Rx sock, 1), (Poll sock, 0)] \<and>
     (nics s', route_table4 s', arp_cache s', protocols s', raw_sockets s', packet_raw_sockets s', tcp4_bindings s') =
     (nics s, route_table4 s, arp_cache s, protocols s, raw_sockets s, packet_raw_sockets s, tcp4_bindings s)"

lemma data_arrives:
  assumes nb: "nbufs s p = Some nb" "cursor nb = 0" "netdev nb = ifc" "nb_refs nb = 0" "payload_read_offset nb = 0"
    and buf: "buffer nb = tcp_frame nicA mac (sin_addr (t_addr dA)) (data_segment nicA dA msg)"
    and mac: "length mac = 6" "length (nic_mac nicA) = 6" and host: "host_ready ifc mac s"
    and sock: "data_ready (ntohs (sin_port (t_addr dA))) sock d s" and q: "q \<noteq> p"
    and ready: "ack_ready d route nic mac' q qs s" and len: "length msg < 65000"
  shows "\<exists>s'. eth_handle_frame E p s = Some s' \<and> data_queued sock d (t_sn dA + of_nat (length msg)) p msg q qs s s'"
proof -
  let ?dst = "sin_addr (t_addr dA)" and ?src = "ipv4_addr nicA"
  let ?h = "tcp_packet (htons (src_port dA)) (sin_port (t_addr dA)) (ntohl (t_sn dA)) (ntohl (t_ack dA)) DATA_FLAGS"
  let ?c = "htons (tcp_ip4_calc_checksum (tcp_checksum_proto ?src ?dst (htons (20 + of_nat (length msg)))) (?h 0) msg (length msg))"
  let ?eth = "ethernet_frame mac (nic_mac nicA) (htons ETH_TYPE_IPV4)"
  let ?seg = "data_segment nicA dA msg"
  let ?ip = "ip4_header ?src ?dst IPV4_PROTOCOL_TCP IPV4_DEFAULT_TTL (length ?seg)"
  have seg: "?seg = ?h ?c @ msg" by (simp add: data_segment_def tcp_segment_def)
  have slen: "length ?seg = length msg + 20" by (simp add: seg)
  define nb1 where "nb1 = net_buffer_shift 14 (nb\<lparr>nb_refs := nb_refs nb + 1, link_header := 0\<rparr>)"
  define nb2 where "nb2 = ip4_received nb1 (htons (of_nat (length ?seg + 20)))"
  define nb3 where "nb3 = checked_nb nb2 ?eth ?ip (?h 0) msg"
  have nb1: "buffer nb1 = ip4_frame nicA mac ?dst IPV4_PROTOCOL_TCP IPV4_DEFAULT_TTL ?seg" "cursor nb1 = 14"
    using nb buf by (simp_all add: nb1_def net_buffer_shift_def tcp_frame_def)
  have nb2: "buffer nb2 = ?eth @ ?ip @ ?h ?c @ msg" "netw_header nb2 = 14" "transp_header nb2 = 34" "nb_refs nb2 = 1"
      "payload_read_offset nb2 = 0"
    using nb nb1 by (simp_all add: nb2_def ip4_received_def net_buffer_shift_def ip4_frame_def seg)
      (simp_all add: nb1_def net_buffer_shift_def)
  have "netw_packet_size nb2 = of_nat (20 + length msg)"
    using packet_size [of "length msg"] len slen by (simp add: nb2_def ip4_received_def)
  then have holds: "holds_segment nb2 ?eth ?ip ?src ?dst (?h ?c) msg"
    using nb2 mac len by (simp add: holds_segment_def ip4_header_addrs)
  let ?s1 = "put_nb p nb1 s" and ?s2 = "put_nb p nb2 s"
  have eth: "eth_handle_frame E p s = do {
      s \<leftarrow> ip4_handle_packet E p ?s1;
      s \<leftarrow> packet_raw_accept_packet (uint ETH_TYPE_IPV4) p s;
      net_buffer_free p s }"
    unfolding nb1_def using nb buf host mac
    by (intro eth_handle_ip4 [where src = "nic_mac nicA" and rest = "?ip @ ?seg" and ifc = ifc])
      (auto simp: tcp_frame_def ip4_frame_def host_ready_def)
  have at1: "nbufs ?s1 p = Some nb1" by simp
  have ip: "ip4_handle_packet E p ?s1 = do { r \<leftarrow> tcp_ip4_handle E p ?s2; raw4_accept_packet 6 p (snd r) }"
    using ip4_handle_packet_eq [OF at1 ip4_frame_holds [OF nb1 mac], of E] host
    by (simp add: host_ready_def IPV4_PROTOCOL_TCP_def IPV4_MAX_PROTOCOLS_def ip4_dispatch_def nb2_def case_prod_beta)
  have at2: "nbufs ?s2 p = Some nb2" and sock2: "data_ready (ntohs (sin_port (t_addr dA))) sock d ?s2"
    and ready2: "ack_ready d route nic mac' q qs ?s2"
    using sock ready by (simp_all add: data_ready_def ack_ready_def)
  let ?ack = "t_sn dA + of_nat (length msg)"
  let ?s3 = "after_data sock d p nb3 ?ack route nic mac' q qs (put_nb p nb3 ?s2)"
  have tcp: "tcp_ip4_handle E p ?s2 = Some (0, ?s3)"
    using tcp_handle_data [OF at2 holds refl sock2 q ready2, of E] by (simp add: nb3_def)
  let ?s4 = "put_nb p (nb3\<lparr>nb_refs := 1\<rparr>) ?s3"
  have s3: "raw_sockets ?s3 = []" "packet_raw_sockets ?s3 = []" "nbufs ?s3 p = Some (nb3\<lparr>nb_refs := 2\<rparr>)"
    using host nb2 by (simp_all add: after_data_def after_send_def Let_def put_tcp_def put_nb_def wake_def host_ready_def nb3_def)
  have "eth_handle_frame E p s = Some ?s4"
    using s3 by (simp add: eth ip tcp raw4_accept_packet_def packet_raw_accept_packet_def net_buffer_free_def)
  moreover have "unread (nb3\<lparr>nb_refs := 1\<rparr>) = msg \<and> payload_ok (nb3\<lparr>nb_refs := 1\<rparr>)"
    using unread_checked [of ?eth ?ip "?h 0" nb2 msg] nb2 mac len by (simp add: nb3_def unread_def payload_ok_def)
  then have "data_queued sock d ?ack p msg q qs s ?s4"
    using q by (auto simp: data_queued_def after_data_def after_send_def Let_def put_tcp_def put_nb_def wake_def)
  ultimately show ?thesis by blast
qed

text \<open>A machine that takes data for a socket on a port and can acknowledge it.\<close>

definition receiver :: "ptr \<Rightarrow> u8 list \<Rightarrow> u16 \<Rightarrow> ptr \<Rightarrow> tcp4_socket_data \<Rightarrow> route4 \<Rightarrow> nic \<Rightarrow> u8 list \<Rightarrow> net \<Rightarrow> bool" where
  "receiver ifc mac port sock d route nic mac' s \<longleftrightarrow>
     host_ready ifc mac s \<and> data_ready port sock d s \<and> rx_ready sock s \<and> mem_ok s \<and>
     route4_resolve (sin_addr (t_addr d)) s = Some route \<and> path_ready route (sin_addr (t_addr d)) nic mac' s"

definition received :: "tcp4_socket_data \<Rightarrow> u32 \<Rightarrow> ptr \<Rightarrow> tcp4_socket_data" where
  "received d ack p = d\<lparr>t_ack := ack, t_rx_queue := t_rx_queue d @ [p]\<rparr>"

lemma received_fields [simp]:
  "t_addr (received d ack p) = t_addr d" "is_listener (received d ack p) = is_listener d"
  "shut_rd (received d ack p) = shut_rd d" "was_connected (received d ack p) = was_connected d" "t_ack (received d ack p) = ack"
  "t_rx_queue (received d ack p) = t_rx_queue d @ [p]"
  by (simp_all add: received_def)

lemma fresh_four: "4 \<le> length (fresh s) \<Longrightarrow> \<exists>m p n q qs. fresh s = m # p # n # q # qs"
  by (metis Suc_le_length_iff numeral_eq_Suc pred_numeral_simps(2,3) semiring_norm(26,27,28))

text \<open>One frame with data, handed to the machine by its interface.\<close>

lemma receiver_takes_data:
  assumes rec: "receiver ifc mac (ntohs (sin_port (t_addr dA))) sock d route nic mac' s" and mem: "4 \<le> length (fresh s)"
    and mac: "length mac = 6" "length (nic_mac nicA) = 6" and len: "msg \<noteq> []" "length msg < 65000"
  defines "frame \<equiv> tcp_frame nicA mac (sin_addr (t_addr dA)) (data_segment nicA dA msg)"
  defines "ack \<equiv> t_sn dA + of_nat (length msg)"
  shows "\<exists>s' p. loopback_tx E ifc frame s = Some (0, s') \<and> fresh s' = drop 4 (fresh s) \<and>
    receiver ifc mac (ntohs (sin_port (t_addr dA))) sock (received d ack p) route nic mac' s' \<and>
    rx_stream sock s' = rx_stream sock s @ msg \<and> wakes s' = wakes s @ [(Rx sock, 1), (Poll sock, 0)]"
proof -
  obtain m p n q qs where fr: "fresh s = m # p # n # q # qs" using fresh_four [OF mem] by blast
  have host: "host_ready ifc mac s" and sock: "data_ready (ntohs (sin_port (t_addr dA))) sock d s" and wf: "rx_ready sock s"
    and ok: "mem_ok s" and route: "route4_resolve (sin_addr (t_addr d)) s = Some route"
    and path: "path_ready route (sin_addr (t_addr d)) nic mac' s" using rec by (simp_all add: receiver_def)
  have d: "tcps s sock = Some d" using sock by (simp add: data_ready_def)
  from wf d have queue: "distinct (t_rx_queue d)"
      "\<forall>x\<in>set (t_rx_queue d). \<exists>nb. nbufs s x = Some nb \<and> payload_ok nb \<and> nb_refs nb = 1"
      "\<forall>x\<in>set (t_rx_queue d). \<forall>nb. nbufs s x = Some nb \<longrightarrow> unread nb \<noteq> []" "socks s sock \<noteq> None" "was_connected d"
    by (auto simp: rx_ready_def rx_wf_def rx_nonempty_def)
  have bm: "buffer_memory p (n # q # qs) s" using ok fr by (auto simp: buffer_memory_def mem_ok_def)
  define nb where "nb = (blank_nb frame)\<lparr>netdev := ifc, cursor := 0, cur_len := of_nat (length frame)\<rparr>"
  let ?s = "put_nb p nb (s\<lparr>fresh := n # q # qs\<rparr>)"
  have new: "new_net_buffer frame ifc s = (p, ?s)"
    by (simp add: new_net_buffer_def alloc_nb_eq [OF bm] nb_def)
  have at: "nbufs ?s p = Some nb" "cursor nb = 0" "netdev nb = ifc" "nb_refs nb = 0" "payload_read_offset nb = 0"
      "buffer nb = tcp_frame nicA mac (sin_addr (t_addr dA)) (data_segment nicA dA msg)"
    by (simp_all add: nb_def blank_nb_def frame_def)
  have q: "q \<noteq> p" and fresh: "p \<notin> dom (nbufs s)" "q \<notin> dom (nbufs s)" using ok fr by (auto simp: mem_ok_def)
  have ready: "ack_ready d route nic mac' q qs ?s"
    using route path ok fr by (auto simp: ack_ready_def buffer_memory_def mem_ok_def route4_resolve_def)
  have hs: "host_ready ifc mac ?s" "data_ready (ntohs (sin_port (t_addr dA))) sock d ?s"
    using host sock by (simp_all add: host_ready_def data_ready_def)
  obtain s' where run: "eth_handle_frame E p ?s = Some s'" and dq: "data_queued sock d ack p msg q qs ?s s'"
    using data_arrives [OF at mac hs q ready len(2), of E] unfolding ack_def by blast
  obtain nb' where nb': "nbufs s' = (nbufs s)(p \<mapsto> nb')" "unread nb' = msg" "payload_ok nb'" "nb_refs nb' = 1"
    using dq q fresh(2) unfolding data_queued_def by (auto simp: fun_upd_twist fun_upd_idem domIff)
  have keep: "x \<in> set (t_rx_queue d) \<Longrightarrow> x \<noteq> p" for x using queue(2) fresh(1) by auto
  have tcps': "tcps s' sock = Some (received d ack p)"
    using dq by (simp add: data_queued_def received_def)
  have st: "rx_stream sock s' = rx_stream sock s @ msg"
    using tcps' d nb' keep by (simp add: rx_stream_def) (rule queue_bytes_cong, auto)
  have "rx_wf sock s'" using tcps' queue nb' keep by (auto simp: rx_wf_def)
  moreover have "rx_nonempty sock s'" using tcps' queue(3) nb' keep len(1) by (auto simp: rx_nonempty_def)
  moreover have "socks s' = socks s" using dq by (simp add: data_queued_def)
  ultimately have "rx_ready sock s'" using tcps' queue(4,5) by (simp add: rx_ready_def)
  moreover have "mem_ok s'" using ok fr nb'(1) dq by (auto simp: mem_ok_def data_queued_def)
  moreover have "host_ready ifc mac s'" "data_ready (ntohs (sin_port (t_addr dA))) sock (received d ack p) s'"
    "route4_resolve (sin_addr (t_addr (received d ack p))) s' = Some route"
    "path_ready route (sin_addr (t_addr (received d ack p))) nic mac' s'"
    using host sock route path tcps' dq
    by (auto simp: data_queued_def host_ready_def data_ready_def route4_resolve_def path_ready_def get_arp_cache_entry_def)
  ultimately have "receiver ifc mac (ntohs (sin_port (t_addr dA))) sock (received d ack p) route nic mac' s'"
    by (simp add: receiver_def)
  then show ?thesis using st run new dq fr
    by (intro exI [of _ s'] exI [of _ p]) (simp add: loopback_tx_def data_queued_def)
qed

text \<open>C2. Data crosses the wire: what \<open>sock_tcp4_sendto\<close> hands to the interface on one machine, given to the
  receiving path of another (Ethernet, IPv4, TCP with both length fields and the checksum), passes every check and is
  appended to the byte stream of the socket bound to the destination port. The receiver acknowledges exactly the
  bytes sent and wakes the readers.\<close>

theorem tcp_data_end_to_end:
  assumes "send_ready sockA dA routeA nicA mac sA" and "mem_ok sA" and "2 \<le> length (fresh sA)"
    and "msg \<noteq> []" and "length msg \<le> 970"
    and "receiver ifc mac (ntohs (sin_port (t_addr dA))) sockB dB routeB nicB macB sB" and "4 \<le> length (fresh sB)"
  shows "\<exists>rc sA' frame sB' sC. sock_tcp4_sendto EA sockA msg sA = Some (rc, sA') \<and>
    out sA' = out sA @ [(rt_interface routeA, frame)] \<and> loopback_tx EB ifc frame sB = Some (0, sB') \<and>
    gather (tcp_get EC sockB) (length (rx_stream sockB sB @ msg)) (length (rx_stream sockB sB @ msg)) sB' =
      Some (rx_stream sockB sB @ msg, sC) \<and>
    map_option t_ack (tcps sB' sockB) = Some (t_sn dA + of_nat (length msg)) \<and> (Rx sockB, 1) \<in> set (wakes sB')"
proof -
  obtain m p ps where fr: "fresh sA = m # p # ps" using assms(3) by (cases "fresh sA"; cases "tl (fresh sA)") auto
  then have bm: "buffer_memory p ps sA" using assms(2) by (auto simp: buffer_memory_def mem_ok_def)
  have mac: "length mac = 6" "length (nic_mac nicA) = 6" using assms(1) by (simp_all add: send_ready_def path_ready_def)
  define frame where "frame = tcp_frame nicA mac (sin_addr (t_addr dA)) (data_segment nicA dA msg)"
  have send: "\<exists>rc sA'. sock_tcp4_sendto EA sockA msg sA = Some (rc, sA') \<and> out sA' = out sA @ [(rt_interface routeA, frame)]"
    using sendto_spec [OF assms(1) bm assms(4), of EA] assms(5)
    by (simp add: Let_def after_send_def put_tcp_def frame_def)
  obtain s' q where "loopback_tx EB ifc frame sB = Some (0, s')" "rx_stream sockB s' = rx_stream sockB sB @ msg"
      "receiver ifc mac (ntohs (sin_port (t_addr dA))) sockB (received dB (t_sn dA + of_nat (length msg)) q) routeB nicB macB s'"
      "wakes s' = wakes sB @ [(Rx sockB, 1), (Poll sockB, 0)]"
    using receiver_takes_data [OF assms(6,7) mac assms(4), of EB] assms(5) unfolding frame_def by auto
  moreover from this have "\<exists>sC. gather (tcp_get EC sockB) (length (rx_stream sockB s')) (length (rx_stream sockB s')) s' =
      Some (rx_stream sockB s', sC)"
    using tcp_src.gather_exact [of sockB s' "length (rx_stream sockB s')" "length (rx_stream sockB s')" EC] by (auto simp: receiver_def)
  ultimately show ?thesis using send by (auto simp: receiver_def data_ready_def)
qed

text \<open>C34. The receiver does not look at sequence numbers: the same frame, arriving twice, is delivered twice.\<close>

theorem tcp_duplicate_delivered:
  assumes "receiver ifc mac (ntohs (sin_port (t_addr dA))) sock d route nic mac' s" and "8 \<le> length (fresh s)"
    and "length mac = 6" and "length (nic_mac nicA) = 6" and "msg \<noteq> []" and "length msg < 65000"
  defines "frame \<equiv> tcp_frame nicA mac (sin_addr (t_addr dA)) (data_segment nicA dA msg)"
  shows "\<exists>s1 s2. loopback_tx E ifc frame s = Some (0, s1) \<and> loopback_tx E ifc frame s1 = Some (0, s2) \<and>
    rx_stream sock s2 = rx_stream sock s @ msg @ msg"
proof -
  obtain s1 p where s1: "loopback_tx E ifc frame s = Some (0, s1)" "fresh s1 = drop 4 (fresh s)"
      "receiver ifc mac (ntohs (sin_port (t_addr dA))) sock (received d (t_sn dA + of_nat (length msg)) p) route nic mac' s1"
      "rx_stream sock s1 = rx_stream sock s @ msg"
    using receiver_takes_data [OF assms(1) _ assms(3-6), of E] assms(2) unfolding frame_def by auto
  have "4 \<le> length (fresh s1)" using s1(2) assms(2) by simp
  from receiver_takes_data [OF s1(3) this assms(3-6), of E] s1 show ?thesis unfolding frame_def by auto
qed

lemma sample_mem: "mem_ok sample_net" "length (fresh sample_net) = 8"
  by (simp_all add: mem_ok_def sample_defs)

lemma sample_receiver: "receiver 0x10 sample_mac (ntohs (sin_port (t_addr sample_tcp))) 0x100 sample_tcp sample_route sample_nic
    sample_mac sample_net"
proof -
  have "ntohs 0x901F = 8080" by (simp add: ntohs_def)
  then show ?thesis using sample_path sample_mem
    by (simp add: receiver_def host_ready_def data_ready_def rx_ready_def rx_wf_def rx_nonempty_def) (simp add: sample_defs)
qed

theorem tcp_data_end_to_end_witness:
  "\<exists>rc sA' frame sB' sC. sock_tcp4_sendto quiet_env 0x100 [72, 105] sample_net = Some (rc, sA') \<and>
    out sA' = [(0x10, frame)] \<and> loopback_tx quiet_env 0x10 frame sample_net = Some (0, sB') \<and>
    gather (tcp_get quiet_env 0x100) 2 2 sB' = Some ([72, 105], sC) \<and> map_option t_ack (tcps sB' 0x100) = Some 102 \<and> (Rx 0x100, 1) \<in> set (wakes sB')"
proof -
  have "out sample_net = []" "rx_stream 0x100 sample_net = []" "rt_interface sample_route = 0x10" "t_sn sample_tcp = 100"
    by (simp_all add: rx_stream_def sample_defs)
  with tcp_data_end_to_end [OF sample_send(1) sample_mem(1) _ _ _ sample_receiver, of "[72, 105]" quiet_env quiet_env quiet_env] sample_mem
  show ?thesis by (simp add: numeral_2_eq_2)
qed

theorem tcp_duplicate_delivered_witness:
  "\<exists>frame s1 s2. loopback_tx quiet_env 0x10 frame sample_net = Some (0, s1) \<and> loopback_tx quiet_env 0x10 frame s1 = Some (0, s2) \<and>
    rx_stream 0x100 s2 = [72, 105, 72, 105]"
proof -
  have "rx_stream 0x100 sample_net = []" "length (nic_mac sample_nic) = 6"
    by (simp_all add: rx_stream_def sample_defs)
  with tcp_duplicate_delivered [OF sample_receiver, of sample_nic "[72, 105]" quiet_env] sample_mem
  show ?thesis by (intro exI [of _ "tcp_frame sample_nic sample_mac (sin_addr (t_addr sample_tcp)) (data_segment sample_nic sample_tcp [72, 105])"]) simp
qed


end
