(* ===== verification/Tcpconn.thy ===== *)
theory Tcpconn
  imports Tcpdata
begin

text \<open>
  Properties of TCP's connection management: the handshake with SYN cookies, the end of a connection as a refinement
  of the protocol's state diagram, resets, waiting, and ephemeral ports.
\<close>

subsection \<open>Connections without state: the SYN cookie\<close>

definition cookie_of :: "segment \<Rightarrow> net \<Rightarrow> u32" where
  "cookie_of g s = tcp_ip4_make_syn_cookie (sg_src g) (sg_dst g) (sg_sport g) (sg_dport g) (sg_sn g) s"

definition synack_segment :: "segment \<Rightarrow> u32 \<Rightarrow> u8 list" where
  "synack_segment g c = tcp_segment (sg_dst g) (sg_src g)
     (tcp_packet (sg_dport g) (sg_sport g) (ntohl c) (ntohl (ntohl (sg_sn g) + 1)) (TCP_FLAG_SYN OR TCP_FLAG_ACK)) []"

lemma handle_syn_spec:
  assumes route: "route4_resolve (sg_src g) s = Some route" and path: "path_ready route (sg_src g) nic mac s"
    and mem: "buffer_memory p ps s"
  shows "tcp_ip4_handle_syn E g s = Some (after_send p ps (rt_interface route)
      (tcp_frame nic mac (sg_src g) (synack_segment g (cookie_of g s))) s)"
proof -
  let ?fill = "tcp_fill 2048 route (sg_dst g) (sg_src g) (tcp_packet (sg_dport g) (sg_sport g) (ntohl (cookie_of g s))
     (ntohl (ntohl (sg_sn g) + 1)) (TCP_FLAG_SYN OR TCP_FLAG_ACK)) [] s"
  have "if length ([] :: u8 list) + 20 \<le> 2048
    then \<exists>nb. nb_ok nb \<and> nb_contents nb = synack_segment g (cookie_of g s) \<and> nb_room nb = 2048 - length ([] :: u8 list) - 20 \<and>
           nb_refs nb = 0 \<and> ?fill = Some (p, put_nb p nb (s\<lparr>fresh := ps\<rparr>))
    else ?fill = None"
    unfolding synack_segment_def by (rule tcp_fill_spec [OF mem]) simp_all
  then obtain nb where nb: "nb_ok nb" "nb_contents nb = synack_segment g (cookie_of g s)" "nb_room nb = 2028" "nb_refs nb = 0"
      "?fill = Some (p, put_nb p nb (s\<lparr>fresh := ps\<rparr>))" by auto
  have "nbufs (put_nb p nb (s\<lparr>fresh := ps\<rparr>)) p = Some nb" "path_ready route (sg_src g) nic mac (put_nb p nb (s\<lparr>fresh := ps\<rparr>))"
    using path by simp_all
  from tcp_transmit_fits [OF this(1) nb(1) nb(4) this(2), of E] nb route show ?thesis
    by (simp add: tcp_ip4_handle_syn_def Let_def after_send_def put_nb_def cookie_of_def)
qed

text \<open>The segment that ends the handshake: same addresses and ports, and the cookie acknowledged.\<close>

definition answers :: "segment \<Rightarrow> u32 \<Rightarrow> segment \<Rightarrow> bool" where
  "answers g c g' \<longleftrightarrow> sg_src g' = sg_src g \<and> sg_dst g' = sg_dst g \<and> sg_sport g' = sg_sport g \<and> sg_dport g' = sg_dport g \<and>
     sg_ack g' = htonl (c + 1)"

definition request_of :: "segment \<Rightarrow> u32 \<Rightarrow> tcp_connection_request" where
  "request_of g c = \<lparr>cr_sn = c, cr_ack = ntohl (sg_sn g), cr_addr = sg_src g, cr_port = sg_sport g\<rparr>"

lemma listener_takes_answer:
  assumes d: "tcps s lst = Some d" "length (accept_queue d) < unat (backlog_sz d)"
    and c: "ntohl (sg_ack g) - 1 = cookie_of g s" and mem: "fresh s = r # rs" "r \<noteq> NULL"
  shows "tcp_ip4_listener_handle_ack lst g s =
    Some (True, wake (Poll lst) 0 (wake (Backlog lst) 1 (put_tcp lst
      (d\<lparr>accept_queue := accept_queue d @ [request_of g (cookie_of g s)]\<rparr>) (s\<lparr>fresh := rs\<rparr>))))"
  using assms
  by (simp add: tcp_ip4_listener_handle_ack_def cookie_of_def tcp_ip4_make_syn_cookie_def kalloc_def request_of_def Let_def)

text \<open>The socket \<open>accept\<close> makes from a request.\<close>

lemma accept_request:
  assumes d: "tcps s lst = Some d" "accept_queue d = r # rs" and mem: "fresh s = cl # ino # dat # ps"
    and nn: "cl \<noteq> NULL" "ino \<noteq> NULL" "dat \<noteq> NULL" "cl \<noteq> lst"
  shows "\<exists>s' c. sock_tcp4_accept E lst s = Some (0, cl, s') \<and> tcps s' cl = Some c \<and> t_sn c = cr_sn r \<and> t_ack c = cr_ack r \<and>
    t_addr c = \<lparr>sin_family = AF_INET, sin_port = cr_port r, sin_addr = cr_addr r\<rparr> \<and> listener c = lst \<and> was_connected c \<and>
    map_option sk_state (socks s' cl) = Some CONNECTED \<and> map_option sk_refs (socks s' cl) = Some 2 \<and>
    tcps s' lst = Some (d\<lparr>accept_queue := rs, children := children d @ [cl]\<rparr>)"
  using assms
  by (simp add: sock_tcp4_accept_def new_socket_def kalloc_def put_tcp_def put_sock_def acquire_socket_def sock_tcp4_create_def
      on_tcp_def tcp_ip4_listener_add_def set_state_def Let_def)

text \<open>C12. The three-way handshake of a listener keeps no state for a half-open connection and completes: the answer to a
  SYN carries the cookie and changes nothing but the outgoing frames; an ACK of that cookie in the same 64-second window,
  with room in the backlog, is queued and \<open>accept\<close> makes a connected child from it. The child's next sequence number is
  the cookie, although the SYN has used that number up.\<close>

theorem syn_cookie_handshake:
  assumes "route4_resolve (sg_src g) s = Some route" and "path_ready route (sg_src g) nic mac s" and "buffer_memory p ps s"
    and "answers g (cookie_of g s) g'" and "syncookie_key s' = syncookie_key s" and "drop_bit 6 (now s') = drop_bit 6 (now s)"
    and "tcps s' lst = Some d" and "accept_queue d = []" and "0 < unat (backlog_sz d)"
    and "fresh s' = r # cl # ino # dat # qs" and "NULL \<notin> {r, cl, ino, dat}" and "cl \<noteq> lst"
  shows "tcp_ip4_handle_syn E g s = Some (after_send p ps (rt_interface route)
      (tcp_frame nic mac (sg_src g) (synack_segment g (cookie_of g s))) s) \<and>
    (\<exists>s1 s2 c. tcp_ip4_listener_handle_ack lst g' s' = Some (True, s1) \<and> sock_tcp4_accept E' lst s1 = Some (0, cl, s2) \<and>
       tcps s2 cl = Some c \<and> t_sn c = cookie_of g s \<and> t_ack c = ntohl (sg_sn g') \<and>
       sin_addr (t_addr c) = sg_src g \<and> sin_port (t_addr c) = sg_sport g \<and> listener c = lst \<and>
       map_option sk_state (socks s2 cl) = Some CONNECTED)"
proof
  show "tcp_ip4_handle_syn E g s = Some (after_send p ps (rt_interface route)
      (tcp_frame nic mac (sg_src g) (synack_segment g (cookie_of g s))) s)"
    by (rule handle_syn_spec [OF assms(1-3)])
  have ck: "cookie_of g' s' = cookie_of g s"
    using assms(4-6) by (simp add: answers_def cookie_of_def tcp_ip4_make_syn_cookie_def)
  have "ntohl (sg_ack g') - 1 = cookie_of g' s'" using assms(4) ck by (simp add: answers_def htonl_def)
  from listener_takes_answer [OF assms(7) _ this assms(10)] assms(8,9,11) ck
  have ack: "tcp_ip4_listener_handle_ack lst g' s' = Some (True, wake (Poll lst) 0 (wake (Backlog lst) 1 (put_tcp lst
      (d\<lparr>accept_queue := [request_of g' (cookie_of g s)]\<rparr>) (s'\<lparr>fresh := cl # ino # dat # qs\<rparr>))))" (is "_ = Some (True, ?s1)")
    by auto
  have "tcps ?s1 lst = Some (d\<lparr>accept_queue := [request_of g' (cookie_of g s)]\<rparr>)" "fresh ?s1 = cl # ino # dat # qs"
    by (simp_all add: put_tcp_def wake_def)
  from accept_request [OF this(1) _ this(2), of "request_of g' (cookie_of g s)" "[]" E'] assms(4,11,12) ack
  show "\<exists>s1 s2 c. tcp_ip4_listener_handle_ack lst g' s' = Some (True, s1) \<and> sock_tcp4_accept E' lst s1 = Some (0, cl, s2) \<and>
       tcps s2 cl = Some c \<and> t_sn c = cookie_of g s \<and> t_ack c = ntohl (sg_sn g') \<and>
       sin_addr (t_addr c) = sg_src g \<and> sin_port (t_addr c) = sg_sport g \<and> listener c = lst \<and>
       map_option sk_state (socks s2 cl) = Some CONNECTED"
    by (auto simp: request_of_def answers_def)
qed

subsection \<open>Closing a connection\<close>

text \<open>The part of the protocol's state diagram that ends a connection, as the events of one side.\<close>

datatype close_event = Rcv_fin bool | Rcv_ack | Shut

fun close_next :: "close_event \<Rightarrow> sock_state \<Rightarrow> sock_state" where
  "close_next (Rcv_fin _) CONNECTED = CLOSE_WAIT"
| "close_next (Rcv_fin ack) FIN_WAIT1 = (if ack then UNCONNECTED else CLOSING)"
| "close_next (Rcv_fin _) FIN_WAIT2 = UNCONNECTED"
| "close_next Rcv_ack FIN_WAIT1 = FIN_WAIT2"
| "close_next Rcv_ack CLOSING = UNCONNECTED"
| "close_next Rcv_ack LAST_ACK = UNCONNECTED"
| "close_next Shut CONNECTED = FIN_WAIT1"
| "close_next Shut CLOSE_WAIT = LAST_ACK"
| "close_next _ st = st"

text \<open>The handler holds the socket, some table refers to it, and its listener, if any, is alive.\<close>

definition held :: "ptr \<Rightarrow> socket \<Rightarrow> tcp4_socket_data \<Rightarrow> net \<Rightarrow> bool" where
  "held sock k d s \<longleftrightarrow> socks s sock = Some k \<and> tcps s sock = Some d \<and> 2 \<le> sk_refs k \<and>
     (listener d \<noteq> NULL \<longrightarrow> listener d \<noteq> sock \<and> socks s (listener d) \<noteq> None \<and> tcps s (listener d) \<noteq> None)"

definition state_is :: "ptr \<Rightarrow> sock_state \<Rightarrow> net \<Rightarrow> bool" where
  "state_is sock st s \<longleftrightarrow> map_option sk_state (socks s sock) = Some st"

lemma unbind_other:
  assumes "socks s sock \<noteq> None" and "tcps s sock = Some d"
  shows "\<exists>s'. tcp_ip4_unbind_sock sock s = Some s' \<and> (\<forall>q. q \<noteq> sock \<longrightarrow> socks s' q = socks s q) \<and> out s' = out s"
  using assms by (auto simp: tcp_ip4_unbind_sock_def free_socket_def)

lemma unbind_self:
  assumes "held sock k d s"
  shows "\<exists>s' k'. tcp_ip4_unbind_sock sock s = Some s' \<and> socks s' sock = Some k' \<and> sk_state k' = sk_state k \<and>
    tcps s' = tcps s \<and> out s' = out s \<and> fresh s' = fresh s \<and> route_table4 s' = route_table4 s \<and> nics s' = nics s \<and>
    arp_cache s' = arp_cache s"
  using assms by (auto simp: tcp_ip4_unbind_sock_def free_socket_def held_def put_sock_def)

lemma destroy_state:
  assumes "held sock k d s"
  shows "\<exists>s'. tcp_ip4_destroy sock s = Some s' \<and> state_is sock UNCONNECTED s' \<and> out s' = out s"
proof (cases "listener d = NULL")
  case True
  let ?s = "wake (Poll sock) 0 (put_sock sock (k\<lparr>sk_state := UNCONNECTED\<rparr>) s)"
  have "held sock (k\<lparr>sk_state := UNCONNECTED\<rparr>) d ?s" using assms True by (simp add: held_def)
  from unbind_self [OF this] obtain s' k' where "tcp_ip4_unbind_sock sock ?s = Some s'" "socks s' sock = Some k'"
      "sk_state k' = UNCONNECTED" "out s' = out s" by auto
  then show ?thesis using assms True by (simp add: tcp_ip4_destroy_def set_state_def held_def state_is_def)
next
  case False
  let ?l = "listener d"
  obtain kl dl where l: "?l \<noteq> sock" "socks s ?l = Some kl" "tcps s ?l = Some dl"
    using assms False by (auto simp: held_def)
  let ?dl = "dl\<lparr>children := remove1 sock (children dl)\<rparr>"
  let ?s = "put_sock sock (k\<lparr>sk_state := UNCONNECTED, sk_refs := sk_refs k - 1\<rparr>) (put_tcp ?l ?dl s)"
  have eq: "tcp_ip4_destroy sock s =
      (if sk_state kl = UNCONNECTED \<and> children ?dl = [] then tcp_ip4_unbind_sock ?l ?s else Some ?s)"
    using assms False l
    by (simp add: tcp_ip4_destroy_def set_state_def held_def tcp_ip4_listener_remove_def on_tcp_def free_socket_def)
      (simp add: put_sock_def put_tcp_def)
  have "\<exists>s'. tcp_ip4_unbind_sock ?l ?s = Some s' \<and> (\<forall>q. q \<noteq> ?l \<longrightarrow> socks s' q = socks ?s q) \<and> out s' = out ?s"
    using l by (intro unbind_other [where d = ?dl]) simp_all
  then show ?thesis using l(1) by (auto simp: eq state_is_def)
qed

lemma ack_fin_spec:
  assumes d: "tcps s sock = Some d" and ready: "ack_ready d route nic mac q qs s"
  shows "\<exists>frame. ack_fin E sock s =
    Some (after_send q qs (rt_interface route) frame (put_tcp sock (d\<lparr>t_ack := t_ack d + 1\<rparr>) s))"
proof -
  let ?d = "d\<lparr>t_ack := t_ack d + 1\<rparr>"
  have "tcps (put_tcp sock ?d s) sock = Some ?d" by simp
  from tcp_ip4_ack_spec [OF this, of route nic mac q qs E] ready d show ?thesis
    by (auto simp: ack_fin_def on_tcp_def ack_ready_def)
qed

lemma ack_ready_put_sock [simp]: "ack_ready d route nic mac q qs (put_sock r k s) = ack_ready d route nic mac q qs s"
  by (simp add: ack_ready_def)

lemma ack_ready_put_tcp [simp]: "ack_ready d route nic mac q qs (put_tcp r x s) = ack_ready d route nic mac q qs s"
  by (simp add: ack_ready_def)

lemma handle_fin_state:
  assumes held: "held sock k d s" and ready: "ack_ready d route nic mac q qs s"
  shows "\<exists>s'. tcp_ip4_handle_fin E sock has_ack s = Some s' \<and> state_is sock (close_next (Rcv_fin has_ack) (sk_state k)) s' \<and>
    (sk_state k \<in> {CONNECTED, FIN_WAIT1, FIN_WAIT2} \<longrightarrow> (\<exists>frame. out s' = out s @ [(rt_interface route, frame)]))"
proof -
  have k: "socks s sock = Some k" and d: "tcps s sock = Some d" using held by (simp_all add: held_def)
  obtain frame where ack: "ack_fin E sock s = Some (after_send q qs (rt_interface route) frame (put_tcp sock (d\<lparr>t_ack := t_ack d + 1\<rparr>) s))"
    using ack_fin_spec [OF d ready] by blast
  let ?s = "after_send q qs (rt_interface route) frame (put_tcp sock (d\<lparr>t_ack := t_ack d + 1\<rparr>) s)"
  have "held sock k (d\<lparr>t_ack := t_ack d + 1\<rparr>) ?s" using held by (auto simp: held_def)
  from destroy_state [OF this] obtain s' where des: "tcp_ip4_destroy sock ?s = Some s'" "state_is sock UNCONNECTED s'"
      "out s' = out s @ [(rt_interface route, frame)]" by auto
  have ack1: "\<exists>f. ack_fin E sock (put_tcp sock (d\<lparr>shut_rd := True\<rparr>) (put_sock sock (k\<lparr>sk_state := CLOSE_WAIT\<rparr>) s)) =
      Some (after_send q qs (rt_interface route) f (put_tcp sock (d\<lparr>shut_rd := True, t_ack := t_ack d + 1\<rparr>)
        (put_sock sock (k\<lparr>sk_state := CLOSE_WAIT\<rparr>) s)))"
    using ack_fin_spec [of "put_tcp sock (d\<lparr>shut_rd := True\<rparr>) (put_sock sock (k\<lparr>sk_state := CLOSE_WAIT\<rparr>) s)" sock
        "d\<lparr>shut_rd := True\<rparr>" route nic mac q qs E] ready by (simp add: ack_ready_def)
  have ack2: "\<exists>f. ack_fin E sock (put_sock sock (k\<lparr>sk_state := CLOSING\<rparr>) s) =
      Some (after_send q qs (rt_interface route) f (put_tcp sock (d\<lparr>t_ack := t_ack d + 1\<rparr>) (put_sock sock (k\<lparr>sk_state := CLOSING\<rparr>) s)))"
    using ack_fin_spec [of "put_sock sock (k\<lparr>sk_state := CLOSING\<rparr>) s" sock d route nic mac q qs E] d ready by simp
  show ?thesis
  proof (cases "sk_state k")
    case CONNECTED
    then show ?thesis using ack1 k d by (auto simp: tcp_ip4_handle_fin_def set_state_def on_tcp_def state_is_def)
  next
    case FIN_WAIT1
    then show ?thesis using ack ack2 des k d
      by (cases has_ack) (auto simp: tcp_ip4_handle_fin_def set_state_def state_is_def)
  next
    case FIN_WAIT2
    then show ?thesis using ack des k d by (auto simp: tcp_ip4_handle_fin_def)
  qed (use k d in \<open>auto simp: tcp_ip4_handle_fin_def state_is_def\<close>)
qed

lemma handle_ack_state:
  assumes held: "held sock k d s"
  shows "\<exists>s'. tcp_ip4_handle_ack sock s = Some s' \<and> state_is sock (close_next Rcv_ack (sk_state k)) s' \<and> out s' = out s"
  using destroy_state [OF held] held
  by (cases "sk_state k") (auto simp: tcp_ip4_handle_ack_def held_def set_state_def state_is_def)

lemma tcp_ip4_fin_spec:
  assumes d: "tcps s sock = Some d" and ready: "ack_ready d route nic mac q qs s"
  shows "\<exists>rc frame. tcp_ip4_fin E sock s =
    Some (rc, after_send q qs (rt_interface route) frame (put_tcp sock (d\<lparr>t_sn := t_sn d + 1\<rparr>) s))"
proof -
  let ?dst = "sin_addr (t_addr d)"
  let ?pkt = "tcp_packet (htons (src_port d)) (sin_port (t_addr d)) (ntohl (t_sn d)) (ntohl (t_ack d)) (TCP_FLAG_FIN OR TCP_FLAG_ACK)"
  have r: "route4_resolve ?dst s = Some route" "path_ready route ?dst nic mac s" "buffer_memory q qs s"
    using ready by (simp_all add: ack_ready_def)
  have nic: "nics s (rt_interface route) = Some nic" using r by (simp add: path_ready_def)
  have "if length ([] :: u8 list) + 20 \<le> 1024
    then \<exists>nb. nb_ok nb \<and> nb_contents nb = tcp_segment (ipv4_addr nic) ?dst ?pkt [] \<and> nb_room nb = 1024 - length ([] :: u8 list) - 20 \<and>
           nb_refs nb = 0 \<and> tcp_fill 1024 route (ipv4_addr nic) ?dst ?pkt [] s = Some (q, put_nb q nb (s\<lparr>fresh := qs\<rparr>))
    else tcp_fill 1024 route (ipv4_addr nic) ?dst ?pkt [] s = None"
    by (rule tcp_fill_spec [OF r(3)]) simp_all
  then obtain nb where nb: "nb_ok nb" "nb_room nb = 1004" "nb_refs nb = 0"
      "tcp_fill 1024 route (ipv4_addr nic) ?dst ?pkt [] s = Some (q, put_nb q nb (s\<lparr>fresh := qs\<rparr>))" by auto
  let ?s = "put_tcp sock (d\<lparr>t_sn := t_sn d + 1\<rparr>) (put_nb q nb (s\<lparr>fresh := qs\<rparr>))"
  have "nbufs ?s q = Some nb" "path_ready route ?dst nic mac ?s" using r by simp_all
  from tcp_transmit_fits [OF this(1) nb(1) nb(3) this(2), of E] nb(2)
  have "tcp_transmit E q route ?dst ?s = Some (tx_rc E (rt_interface route) (tcp_frame nic mac ?dst (nb_contents nb)),
      after_send q qs (rt_interface route) (tcp_frame nic mac ?dst (nb_contents nb)) (put_tcp sock (d\<lparr>t_sn := t_sn d + 1\<rparr>) s))"
    by (auto simp: Let_def after_send_def put_nb_def put_tcp_def)
  with nb r nic d show ?thesis by (simp add: tcp_ip4_fin_def Let_def on_tcp_def) blast
qed

lemma shutdown_state:
  assumes held: "held sock k d s" and ready: "ack_ready d route nic mac q qs s"
  shows "\<exists>s'. sock_tcp4_shutdown_sequense E sock s = Some s' \<and> state_is sock (close_next Shut (sk_state k)) s' \<and>
    (sk_state k \<in> {CONNECTED, CLOSE_WAIT} \<longrightarrow> (\<exists>frame. out s' = out s @ [(rt_interface route, frame)]))"
proof -
  have k: "socks s sock = Some k" and d: "tcps s sock = Some d" using held by (simp_all add: held_def)
  have fin: "\<exists>rc f. tcp_ip4_fin E sock (put_sock sock (k\<lparr>sk_state := st\<rparr>) s) =
      Some (rc, after_send q qs (rt_interface route) f (put_tcp sock (d\<lparr>t_sn := t_sn d + 1\<rparr>) (put_sock sock (k\<lparr>sk_state := st\<rparr>) s)))" for st
    using tcp_ip4_fin_spec [of "put_sock sock (k\<lparr>sk_state := st\<rparr>) s" sock d route nic mac q qs E] d ready by simp
  obtain s1 k1 where un: "tcp_ip4_unbind_sock sock s = Some s1" "socks s1 sock = Some k1" "sk_state k1 = sk_state k"
      "tcps s1 = tcps s" "out s1 = out s" "fresh s1 = fresh s" "route_table4 s1 = route_table4 s" "nics s1 = nics s"
      "arp_cache s1 = arp_cache s"
    using unbind_self [OF held] by blast
  have "tcps s1 sock = Some d" "ack_ready d route nic mac q qs s1"
    using un d ready by (simp_all add: ack_ready_def route4_resolve_def path_ready_def get_arp_cache_entry_def buffer_memory_def)
  then obtain rc f where fin1: "tcp_ip4_fin E sock s1 =
      Some (rc, after_send q qs (rt_interface route) f (put_tcp sock (d\<lparr>t_sn := t_sn d + 1\<rparr>) s1))"
    using tcp_ip4_fin_spec by blast
  show ?thesis
  proof (cases "sk_state k")
    case CONNECTED
    then show ?thesis using k d fin [of FIN_WAIT1]
      by (auto simp: sock_tcp4_shutdown_sequense_def set_state_def state_is_def)
  next
    case CLOSE_WAIT
    then show ?thesis using k d fin [of LAST_ACK]
      by (auto simp: sock_tcp4_shutdown_sequense_def set_state_def state_is_def)
  next
    case CONNECTING
    then show ?thesis using k d un fin1
      by (auto simp: sock_tcp4_shutdown_sequense_def set_state_def state_is_def)
  qed (use k in \<open>auto simp: sock_tcp4_shutdown_sequense_def state_is_def\<close>)
qed



subsection \<open>Reset\<close>


subsection \<open>Waiting\<close>

text \<open>The state after the thread has been woken \<open>n\<close> times.\<close>

fun woken :: "env \<Rightarrow> nat \<Rightarrow> net \<Rightarrow> net" where
  "woken E 0 s = s"
| "woken E (Suc n) s = woken E n (snd (sleep_on E s))"

definition recv_blocks :: "ptr \<Rightarrow> u32 \<Rightarrow> net \<Rightarrow> bool" where
  "recv_blocks sock flags s \<longleftrightarrow> (\<exists>k d. socks s sock = Some k \<and> tcps s sock = Some d \<and> t_rx_queue d = [] \<and>
     flags AND MSG_DONTWAIT \<noteq> MSG_DONTWAIT \<and> \<not> shut_rd d \<and> \<not> is_rst d \<and> sk_state k = CONNECTED)"

text \<open>What the loop returns in a state in which it does not block.\<close>

definition recv_outcome :: "u32 \<Rightarrow> tcp4_socket_data \<Rightarrow> int + ptr" where
  "recv_outcome flags d = (if t_rx_queue d \<noteq> [] then Inr (hd (t_rx_queue d))
     else if flags AND MSG_DONTWAIT = MSG_DONTWAIT then Inl (- EAGAIN)
     else if \<not> shut_rd d \<and> is_rst d then Inl (- ECONNRESET) else Inl 0)"


subsection \<open>Ephemeral ports\<close>

text \<open>C25. \<open>tcp_ip4_alloc_dynamic_port\<close> gives a socket the lowest free port from 49152 on, enters it in the port table with
  a reference of its own, and fails exactly when every such port is taken.\<close>

theorem tcp_dynamic_port:
  assumes k: "socks s sock = Some k" and d: "tcps s sock = Some d"
  shows "if \<forall>port :: u16. 49152 \<le> port \<longrightarrow> tcp4_bindings s port \<noteq> NULL
    then tcp_ip4_alloc_dynamic_port sock s = Some (False, s)
    else \<exists>port s'. tcp_ip4_alloc_dynamic_port sock s = Some (True, s') \<and> 49152 \<le> port \<and> tcp4_bindings s port = NULL \<and>
      (\<forall>q. 49152 \<le> q \<and> q < port \<longrightarrow> tcp4_bindings s q \<noteq> NULL) \<and> tcp4_bindings s' = (tcp4_bindings s)(port := sock) \<and>
      tcps s' sock = Some (d\<lparr>src_port := port\<rparr>) \<and> socks s' sock = Some (k\<lparr>sk_refs := sk_refs k + 1\<rparr>)"
proof -
  have all: "(\<forall>k. 49152 \<le> k \<and> k < 65536 \<longrightarrow> P (of_nat k :: u16)) \<longleftrightarrow> (\<forall>port. 49152 \<le> port \<longrightarrow> P port)" for P :: "u16 \<Rightarrow> bool"
  proof safe
    fix port :: u16 assume a: "\<forall>k. 49152 \<le> k \<and> k < 65536 \<longrightarrow> P (of_nat k)" and "49152 \<le> port"
    then have "49152 \<le> unat port" "unat port < 65536" using unat_lt2p [of port] by (simp_all add: word_le_nat_alt)
    then show "P port" using a [rule_format, of "unat port"] by simp
  next
    fix k :: nat assume a: "\<forall>port. 49152 \<le> port \<longrightarrow> P port" and "49152 \<le> k" "k < 65536"
    then show "P (of_nat k)" by (intro a [rule_format]) (simp add: word_le_nat_alt unat_of_nat_small)
  qed
  show ?thesis
  proof (cases "find_port (tcp4_bindings s) TCP_DYNAMIC_PORT")
    case None
    then have "\<forall>port :: u16. 49152 \<le> port \<longrightarrow> tcp4_bindings s port \<noteq> NULL"
      unfolding find_port_None TCP_PORTS_def TCP_DYNAMIC_PORT_def using all [of "\<lambda>x. tcp4_bindings s x \<noteq> NULL"] by simp
    with None d show ?thesis by (simp add: tcp_ip4_alloc_dynamic_port_def)
  next
    case (Some n)
    from find_port_Some [OF this] have n: "49152 \<le> n" "n < 65536" "tcp4_bindings s (of_nat n) = NULL"
      and low: "\<And>q. 49152 \<le> q \<and> q < n \<Longrightarrow> tcp4_bindings s (of_nat q) \<noteq> NULL"
      by (auto simp: TCP_PORTS_def TCP_DYNAMIC_PORT_def)
    have u: "unat (of_nat n :: u16) = n" using n by (intro unat_of_nat_small) simp
    have ge: "(49152 :: u16) \<le> of_nat n" using n u by (simp add: word_le_nat_alt)
    have "tcp4_bindings s q \<noteq> NULL" if "49152 \<le> q" "q < of_nat n" for q :: u16
      using low [of "unat q"] that u by (simp add: word_le_nat_alt word_less_nat_alt)
    with ge n(3) Some k d show ?thesis
      by (auto simp: tcp_ip4_alloc_dynamic_port_def acquire_socket_def intro!: exI [of _ "of_nat n :: u16"])
  qed
qed

subsection \<open>Witnesses\<close>

definition sample_syn :: segment where
  "sample_syn = \<lparr>sg_sport = 0x1234, sg_dport = 0x901F, sg_sn = 0x11223344, sg_ack = 0, sg_src = 0x0100007F, sg_dst = 0x0100007F\<rparr>"

theorem syn_cookie_handshake_witness:
  "\<exists>s1 s2 c. tcp_ip4_listener_handle_ack 0x200 (sample_syn\<lparr>sg_ack := htonl (cookie_of sample_syn sample_net + 1)\<rparr>)
       (sample_net\<lparr>tcps := [0x200 \<mapsto> sample_tcp\<lparr>backlog_sz := 1\<rparr>]\<rparr>) = Some (True, s1) \<and>
     sock_tcp4_accept quiet_env 0x200 s1 = Some (0, 2, s2) \<and> tcps s2 2 = Some c \<and> t_sn c = cookie_of sample_syn sample_net"
proof -
  have src: "sg_src sample_syn = 0x0100007F" by (simp add: sample_syn_def)
  have "answers sample_syn (cookie_of sample_syn sample_net) (sample_syn\<lparr>sg_ack := htonl (cookie_of sample_syn sample_net + 1)\<rparr>)"
    by (simp add: answers_def)
  from syn_cookie_handshake [OF _ _ sample_send(2) this, of sample_route sample_nic sample_mac
      "sample_net\<lparr>tcps := [0x200 \<mapsto> sample_tcp\<lparr>backlog_sz := 1\<rparr>]\<rparr>" "0x200" _ 1 2 3 4 "[5, 6, 7, 8]" quiet_env quiet_env]
  show ?thesis using sample_path src by (simp add: sample_net_def sample_tcp_def net_blank_def) blast
qed





theorem tcp_dynamic_port_witness:
  "\<exists>port s'. tcp_ip4_alloc_dynamic_port 0x100 sample_net = Some (True, s') \<and> tcp4_bindings s' = (tcp4_bindings sample_net)(port := 0x100)"
proof -
  have "\<not> (\<forall>port :: u16. 49152 \<le> port \<longrightarrow> tcp4_bindings sample_net port \<noteq> NULL)"
    by (intro notI) (drule spec [of _ 49152], simp add: sample_net_def net_blank_def)
  moreover have "socks sample_net 0x100 = Some sample_sock" "tcps sample_net 0x100 = Some sample_tcp"
    by (simp_all add: sample_net_def)
  ultimately show ?thesis using tcp_dynamic_port [of sample_net "0x100" sample_sock sample_tcp] by (simp only: if_False) blast
qed

end
