(* ===== verification/Pipe.thy ===== *)
theory Pipe
  imports Paging Bytestream
begin

text \<open>
  Pipes: \<^verbatim>\<open>ipc/pipe.c\<close>. The state holds the pipe objects, the pipe behind each inode of a named pipe, the signals a
  writer sends itself, and the log of wake-ups. A spinlock that is held when a call starts is never released (its
  holder has left the kernel), so taking it has no result. Sleeping is a parameter: what the rest of the system does
  meanwhile, and whether a signal ended the sleep.
\<close>

definition PIPE_SIZE :: u64 where "PIPE_SIZE = 4096"

record pipe =
  pp_buffer :: "u8 list"
  pp_page :: ptr
  ref_count :: int
  pp_lock :: bool
  write_pos :: u64
  read_pos :: u64
  check_ends :: int
  nwritefds :: int
  nreadfds :: int

datatype pipe_queue = readb | writeb | connb | poll_wq

datatype pipe_fops = pipe_fops_read | pipe_fops_write | pipe_bootstrap_fops | namedpipe_fops

record pfile =
  pf_data :: ptr
  pf_flags :: u32
  pf_ops :: pipe_fops

record ipc =
  pipes :: "ptr \<rightharpoonup> pipe"
  inode_data :: "ptr \<Rightarrow> ptr"
  signals :: "nat list"
  woken_queues :: "(ptr \<times> pipe_queue) list"

type_synonym sleeper = "pipe_queue \<Rightarrow> ptr \<Rightarrow> ipc \<Rightarrow> bool \<times> ipc"

definition put_pipe :: "ptr \<Rightarrow> pipe \<Rightarrow> ipc \<Rightarrow> ipc" where
  "put_pipe p x s = s\<lparr>pipes := (pipes s)(p \<mapsto> x)\<rparr>"

definition wake_pipe :: "ptr \<Rightarrow> pipe_queue \<Rightarrow> ipc \<Rightarrow> ipc" where
  "wake_pipe p q s = s\<lparr>woken_queues := woken_queues s @ [(p, q)]\<rparr>"

definition lock_pipe :: "ptr \<Rightarrow> ipc \<Rightarrow> ipc option" where
  "lock_pipe p s = do { x \<leftarrow> pipes s p; if pp_lock x then None else Some (put_pipe p (x\<lparr>pp_lock := True\<rparr>) s) }"

definition unlock_pipe :: "ptr \<Rightarrow> ipc \<Rightarrow> ipc option" where
  "unlock_pipe p s = do { x \<leftarrow> pipes s p; Some (put_pipe p (x\<lparr>pp_lock := False\<rparr>) s) }"

subsection \<open>Objects\<close>

text \<open>\<open>mem\<close> and \<open>page\<close> are what \<^verbatim>\<open>kmalloc\<close> and \<^verbatim>\<open>pmm_alloc_page\<close> return; \<open>bytes\<close> is what the page holds.\<close>

definition new_pipe :: "ptr \<Rightarrow> ptr \<Rightarrow> u8 list \<Rightarrow> ipc \<Rightarrow> ptr \<times> ipc" where
  "new_pipe mem page bytes s =
     (if mem = NULL then (NULL, s)
      else if P2V page = NULL then (NULL, s)
      else (mem, put_pipe mem \<lparr>pp_buffer = bytes, pp_page = P2V page, ref_count = 0, pp_lock = False, write_pos = 0,
              read_pos = 0, check_ends = 0, nwritefds = 0, nreadfds = 0\<rparr> s))"

definition acquire_pipe :: "ptr \<Rightarrow> ipc \<Rightarrow> ipc option" where
  "acquire_pipe p s = do { x \<leftarrow> pipes s p; Some (put_pipe p (x\<lparr>ref_count := ref_count x + 1\<rparr>) s) }"

definition free_pipe :: "ptr \<Rightarrow> ipc \<Rightarrow> ipc option" where
  "free_pipe p s = do {
     x \<leftarrow> pipes s p;
     if ref_count x - 1 \<le> 0 then Some (s\<lparr>pipes := (pipes s)(p := None)\<rparr>)
     else Some (put_pipe p (x\<lparr>ref_count := ref_count x - 1\<rparr>) s)
   }"

definition FILE_OPEN_MODE_READ_ONLY :: u32 where "FILE_OPEN_MODE_READ_ONLY = 0"
definition FILE_OPEN_MODE_WRITE_ONLY :: u32 where "FILE_OPEN_MODE_WRITE_ONLY = 1"
definition FILE_OPEN_MODE_MASK :: u32 where "FILE_OPEN_MODE_MASK = 3"
definition FILE_FLAG_NONBLOCK :: u32 where "FILE_FLAG_NONBLOCK = 0x800"

definition file_allow_read :: "u32 \<Rightarrow> bool" where
  "file_allow_read flags \<longleftrightarrow> flags AND FILE_OPEN_MODE_MASK \<noteq> FILE_OPEN_MODE_WRITE_ONLY"

definition file_allow_write :: "u32 \<Rightarrow> bool" where
  "file_allow_write flags \<longleftrightarrow> flags AND FILE_OPEN_MODE_MASK \<noteq> FILE_OPEN_MODE_READ_ONLY"

text \<open>The two files of an anonymous pipe; their inode is not part of the state.\<close>

definition pipe_create_files :: "ptr \<Rightarrow> u32 \<Rightarrow> ipc \<Rightarrow> (int \<times> pfile \<times> pfile \<times> ipc) option" where
  "pipe_create_files p flags s = do {
     s \<leftarrow> acquire_pipe p s;
     x \<leftarrow> pipes s p;
     let s = put_pipe p (x\<lparr>nreadfds := nreadfds x + 1\<rparr>) s;
     s \<leftarrow> acquire_pipe p s;
     x \<leftarrow> pipes s p;
     let s = put_pipe p (x\<lparr>nwritefds := nwritefds x + 1\<rparr>) s;
     Some (0, \<lparr>pf_data = p, pf_flags = flags OR FILE_OPEN_MODE_READ_ONLY, pf_ops = pipe_fops_read\<rparr>,
           \<lparr>pf_data = p, pf_flags = flags OR FILE_OPEN_MODE_WRITE_ONLY, pf_ops = pipe_fops_write\<rparr>, s)
   }"

subsection \<open>Reading and writing\<close>

text \<open>The copying loop of \<open>pipe_read\<close>.\<close>

fun pipe_take :: "nat \<Rightarrow> pipe \<Rightarrow> u8 list \<times> pipe" where
  "pipe_take 0 x = ([], x)"
| "pipe_take (Suc n) x =
     (if read_pos x = write_pos x then ([], x)
      else let b = pp_buffer x ! unat (read_pos x mod PIPE_SIZE);
               (bs, x) = pipe_take n (x\<lparr>read_pos := read_pos x + 1\<rparr>)
           in (b # bs, x))"

text \<open>
  The waiting loop, entered with the lock held: \<open>Inl\<close> the result when the call ends without data (with the flag
  whether the writers are woken; after a signal the lock is not held), \<open>Inr\<close> when there is data.
\<close>

datatype read_end = Eof | Nothing | Interrupted

partial_function (option) pipe_read_wait :: "sleeper \<Rightarrow> ptr \<Rightarrow> u32 \<Rightarrow> ipc \<Rightarrow> (read_end option \<times> ipc) option" where
  "pipe_read_wait E p nonblock s = do {
     x \<leftarrow> pipes s p;
     if read_pos x \<noteq> write_pos x then Some (None, s)
     else if check_ends x = 1 \<and> nwritefds x = 0 then Some (Some Eof, s)
     else if nonblock = 1 then Some (Some Nothing, s)
     else do {
       s \<leftarrow> unlock_pipe p s;
       let (sig, s) = E readb p s;
       if sig then Some (Some Interrupted, s)
       else do { s \<leftarrow> lock_pipe p s; pipe_read_wait E p nonblock s }
     }
   }"

definition pipe_read :: "sleeper \<Rightarrow> ptr \<Rightarrow> u64 \<Rightarrow> u32 \<Rightarrow> ipc \<Rightarrow> (int \<times> u8 list \<times> ipc) option" where
  "pipe_read E p count nonblock s = do {
     s \<leftarrow> lock_pipe p s;
     (r, s) \<leftarrow> pipe_read_wait E p nonblock s;
     case r of
       Some Interrupted \<Rightarrow> Some (- EINTR, [], s)
     | Some Eof \<Rightarrow> do { s \<leftarrow> unlock_pipe p s; Some (0, [], s) }
     | Some Nothing \<Rightarrow> do { s \<leftarrow> unlock_pipe p (wake_pipe p poll_wq (wake_pipe p writeb s)); Some (0, [], s) }
     | None \<Rightarrow> do {
         x \<leftarrow> pipes s p;
         let (bs, x) = pipe_take (unat count) x;
         s \<leftarrow> unlock_pipe p (wake_pipe p poll_wq (wake_pipe p writeb (put_pipe p x s)));
         Some (int (length bs), bs, s)
       }
   }"

text \<open>The loop of \<open>pipe_write\<close> over the bytes, with the inner loop that waits for room; \<open>False\<close> after a signal.\<close>

partial_function (option) pipe_put :: "sleeper \<Rightarrow> ptr \<Rightarrow> u8 list \<Rightarrow> ipc \<Rightarrow> (bool \<times> ipc) option" where
  "pipe_put E p bs s =
     (case bs of
        [] \<Rightarrow> Some (True, s)
      | b # rest \<Rightarrow> do {
          x \<leftarrow> pipes s p;
          if write_pos x = read_pos x + PIPE_SIZE then do {
            s \<leftarrow> unlock_pipe p (wake_pipe p readb s);
            let (sig, s) = E writeb p s;
            if sig then Some (False, s)
            else do { s \<leftarrow> lock_pipe p s; pipe_put E p bs s }
          }
          else
            let x = x\<lparr>pp_buffer := (pp_buffer x)[unat (write_pos x mod PIPE_SIZE) := b], write_pos := write_pos x + 1\<rparr>
            in pipe_put E p rest (put_pipe p x s)
        })"

definition SIGPIPE :: nat where "SIGPIPE = 13"

definition pipe_write :: "sleeper \<Rightarrow> ptr \<Rightarrow> u8 list \<Rightarrow> ipc \<Rightarrow> (int \<times> ipc) option" where
  "pipe_write E p bs s = do {
     x \<leftarrow> pipes s p;
     if check_ends x = 1 \<and> nreadfds x = 0 then Some (- EPIPE, s\<lparr>signals := signals s @ [SIGPIPE]\<rparr>)
     else do {
       s \<leftarrow> lock_pipe p s;
       (ok, s) \<leftarrow> pipe_put E p bs s;
       if \<not> ok then Some (- EINTR, s)
       else do {
         s \<leftarrow> unlock_pipe p (wake_pipe p poll_wq (wake_pipe p readb s));
         Some (int (length bs), s)
       }
     }
   }"

definition PPOLLIN :: u16 where "PPOLLIN = 0x001"
definition PPOLLOUT :: u16 where "PPOLLOUT = 0x004"
definition PPOLLERR :: u16 where "PPOLLERR = 0x008"
definition PPOLLHUP :: u16 where "PPOLLHUP = 0x010"
definition PPOLLRDNORM :: u16 where "PPOLLRDNORM = 0x040"
definition PPOLLWRNORM :: u16 where "PPOLLWRNORM = 0x100"

definition pipe_poll :: "pfile \<Rightarrow> ipc \<Rightarrow> u16 option" where
  "pipe_poll f s = do {
     x \<leftarrow> pipes s (pf_data f);
     let writefd = (pf_flags f AND FILE_OPEN_MODE_WRITE_ONLY = FILE_OPEN_MODE_WRITE_ONLY);
     Some ((if \<not> writefd \<and> read_pos x < write_pos x then PPOLLIN OR PPOLLRDNORM else 0) OR
           (if writefd \<and> write_pos x < read_pos x + PIPE_SIZE then PPOLLOUT OR PPOLLWRNORM else 0) OR
           (if \<not> writefd \<and> nwritefds x = 0 then PPOLLHUP else 0) OR
           (if writefd \<and> nreadfds x = 0 then PPOLLERR else 0))
   }"

text \<open>The flag is passed on as it is, although \<open>pipe_read\<close> compares it with 1.\<close>

definition pipe_file_read :: "sleeper \<Rightarrow> pfile \<Rightarrow> u64 \<Rightarrow> ipc \<Rightarrow> (int \<times> u8 list \<times> ipc) option" where
  "pipe_file_read E f count s = pipe_read E (pf_data f) count (pf_flags f AND FILE_FLAG_NONBLOCK) s"

definition pipe_file_write :: "sleeper \<Rightarrow> pfile \<Rightarrow> u8 list \<Rightarrow> ipc \<Rightarrow> (int \<times> ipc) option" where
  "pipe_file_write E f bs s = pipe_write E (pf_data f) bs s"

definition pipe_file_close_read :: "pfile \<Rightarrow> ipc \<Rightarrow> (int \<times> ipc) option" where
  "pipe_file_close_read f s = do {
     let p = pf_data f;
     x \<leftarrow> pipes s p;
     s \<leftarrow> free_pipe p (wake_pipe p poll_wq (put_pipe p (x\<lparr>nreadfds := nreadfds x - 1\<rparr>) s));
     Some (0, s)
   }"

definition pipe_file_close_write :: "pfile \<Rightarrow> ipc \<Rightarrow> (int \<times> ipc) option" where
  "pipe_file_close_write f s = do {
     let p = pf_data f;
     x \<leftarrow> pipes s p;
     s \<leftarrow> free_pipe p (wake_pipe p poll_wq (wake_pipe p readb (put_pipe p (x\<lparr>nwritefds := nwritefds x - 1\<rparr>) s)));
     Some (0, s)
   }"

subsection \<open>Named pipes\<close>

text \<open>
  The first open of the inode creates the pipe from the memory \<open>mem\<close>, \<open>page\<close>. A non-blocking open without a partner
  returns with the lock held.
\<close>

definition pipe_bootstrap_open ::
  "sleeper \<Rightarrow> ptr \<Rightarrow> ptr \<Rightarrow> u8 list \<Rightarrow> ptr \<Rightarrow> pfile \<Rightarrow> ipc \<Rightarrow> (int \<times> pfile \<times> ipc) option" where
  "pipe_bootstrap_open E mem page bytes inode f s = do {
     let read = file_allow_read (pf_flags f);
     let write = file_allow_write (pf_flags f);
     (p, s) \<leftarrow> (if inode_data s inode = NULL
         then do {
           let (p, s) = new_pipe mem page bytes s;
           x \<leftarrow> pipes s p;
           s \<leftarrow> acquire_pipe p (put_pipe p (x\<lparr>check_ends := 1\<rparr>) s);
           Some (p, s\<lparr>inode_data := (inode_data s)(inode := p)\<rparr>)
         }
         else Some (inode_data s inode, s));
     s \<leftarrow> acquire_pipe p s;
     let f = f\<lparr>pf_data := p, pf_ops := namedpipe_fops\<rparr>;
     s \<leftarrow> lock_pipe p s;
     x \<leftarrow> pipes s p;
     let x = (if read then x\<lparr>nreadfds := nreadfds x + 1\<rparr> else x);
     let x = (if write then x\<lparr>nwritefds := nwritefds x + 1\<rparr> else x);
     let s = put_pipe p x s;
     if read \<and> nwritefds x = 0 \<or> write \<and> nreadfds x = 0 then
       if pf_flags f AND FILE_FLAG_NONBLOCK = FILE_FLAG_NONBLOCK \<and> read then Some (0, f, s)
       else if pf_flags f AND FILE_FLAG_NONBLOCK = FILE_FLAG_NONBLOCK \<and> write then Some (- ENXIO, f, s)
       else do {
         s \<leftarrow> unlock_pipe p s;
         let (sig, s) = E connb p s;
         if sig then Some (- EINTR, f, s)
         else do { s \<leftarrow> lock_pipe p s; s \<leftarrow> unlock_pipe p s; Some (0, f, s) }
       }
     else do { s \<leftarrow> unlock_pipe p (wake_pipe p connb s); Some (0, f, s) }
   }"

definition pipe_namedfile_close :: "ptr \<Rightarrow> pfile \<Rightarrow> ipc \<Rightarrow> (int \<times> ipc) option" where
  "pipe_namedfile_close inode f s = do {
     let p = pf_data f;
     let read = file_allow_read (pf_flags f);
     let write = file_allow_write (pf_flags f);
     s \<leftarrow> (if write
           then do { x \<leftarrow> pipes s p; Some (wake_pipe p readb (put_pipe p (x\<lparr>nwritefds := nwritefds x - 1\<rparr>) s)) }
           else Some s);
     s \<leftarrow> (if read then do { x \<leftarrow> pipes s p; Some (put_pipe p (x\<lparr>nreadfds := nreadfds x - 1\<rparr>) s) } else Some s);
     x \<leftarrow> pipes s p;
     s \<leftarrow> (if nwritefds x = 0 \<and> nreadfds x = 0
           then free_pipe p (s\<lparr>inode_data := (inode_data s)(inode := NULL)\<rparr>)
           else Some s);
     x \<leftarrow> pipes s p;
     s \<leftarrow> free_pipe p (wake_pipe p poll_wq s);
     Some (0, s)
   }"

subsection \<open>The ring as a queue of bytes\<close>

text \<open>The positions only count; the difference of the two, modulo \<open>2^64\<close>, is the number of bytes in the ring.\<close>

definition used :: "pipe \<Rightarrow> nat" where
  "used x = unat (write_pos x - read_pos x)"

definition pipe_ok :: "pipe \<Rightarrow> bool" where
  "pipe_ok x \<longleftrightarrow> length (pp_buffer x) = 4096 \<and> used x \<le> 4096"

definition ring_at :: "pipe \<Rightarrow> nat \<Rightarrow> u8" where
  "ring_at x i = pp_buffer x ! ((unat (read_pos x) + i) mod 4096)"

definition pipe_contents :: "pipe \<Rightarrow> u8 list" where
  "pipe_contents x = map (ring_at x) [0..<used x]"

lemma pipe_contents_length [simp]: "length (pipe_contents x) = used x"
  by (simp add: pipe_contents_def)

lemma unat_mod_size: "unat (w mod PIPE_SIZE) = unat w mod 4096"
  by (simp add: PIPE_SIZE_def unat_mod)

lemma unat_add_mod_size: "unat (w + of_nat i :: u64) mod 4096 = (unat w + i) mod 4096"
proof -
  have "unat (w + of_nat i) = (unat w + i) mod 2 ^ 64"
    by (simp add: unat_word_ariths unat_of_nat mod_add_right_eq)
  moreover have "(4096 :: nat) dvd 2 ^ 64" by simp
  ultimately show ?thesis by (simp only: mod_mod_cancel)
qed

lemma used_zero: "read_pos x = write_pos x \<longleftrightarrow> used x = 0"
  by (auto simp: used_def unat_0_iff)

lemma used_step:
  assumes "read_pos x \<noteq> write_pos x"
  shows "used (x\<lparr>read_pos := read_pos x + 1\<rparr>) = used x - 1"
proof -
  have le: "1 \<le> write_pos x - read_pos x" using assms by (simp add: word_le_nat_alt Suc_le_eq unat_gt_0)
  have "used (x\<lparr>read_pos := read_pos x + 1\<rparr>) = unat (write_pos x - (read_pos x + 1))" by (simp add: used_def)
  also have "write_pos x - (read_pos x + 1) = (write_pos x - read_pos x) - 1" by (rule diff_diff_eq [symmetric])
  also have "unat (write_pos x - read_pos x - 1) = used x - 1" using unat_sub [OF le] by (simp add: used_def)
  finally show ?thesis .
qed

lemma contents_step:
  assumes "read_pos x \<noteq> write_pos x"
  shows "pipe_contents x = pp_buffer x ! unat (read_pos x mod PIPE_SIZE) # pipe_contents (x\<lparr>read_pos := read_pos x + 1\<rparr>)"
proof -
  let ?y = "x\<lparr>read_pos := read_pos x + 1\<rparr>"
  obtain n where n: "used x = Suc n" using assms used_zero [of x] by (cases "used x") auto
  have at: "ring_at ?y i = ring_at x (Suc i)" for i
  proof -
    have "(unat (read_pos x + 1) + i) mod 4096 = (unat (read_pos x + of_nat 1) mod 4096 + i) mod 4096" by (simp add: mod_add_left_eq)
    also have "\<dots> = (unat (read_pos x) + Suc i) mod 4096" unfolding unat_add_mod_size by (simp add: mod_add_left_eq)
    finally show ?thesis by (simp add: ring_at_def)
  qed
  have "pipe_contents x = ring_at x 0 # map (\<lambda>i. ring_at x (Suc i)) [0..<n]"
    unfolding pipe_contents_def n by (simp add: upt_conv_Cons map_Suc_upt [symmetric] del: upt_Suc)
  moreover have "pipe_contents ?y = map (\<lambda>i. ring_at x (Suc i)) [0..<n]"
    using used_step [OF assms] n by (simp add: pipe_contents_def at)
  ultimately show ?thesis by (simp add: ring_at_def unat_mod_size)
qed

lemma pipe_take_spec:
  "pipe_ok x \<Longrightarrow> \<exists>y. pipe_take n x = (take n (pipe_contents x), y) \<and> pipe_contents y = drop n (pipe_contents x) \<and> pipe_ok y \<and>
     pp_lock y = pp_lock x \<and> (check_ends y, nwritefds y, nreadfds y, ref_count y) = (check_ends x, nwritefds x, nreadfds x, ref_count x)"
proof (induction n arbitrary: x)
  case (Suc n)
  show ?case
  proof (cases "read_pos x = write_pos x")
    case True
    then have "pipe_contents x = []" using used_zero by (simp add: pipe_contents_def)
    then show ?thesis using True Suc.prems by simp
  next
    case False
    let ?x = "x\<lparr>read_pos := read_pos x + 1\<rparr>"
    have "pipe_ok ?x" using Suc.prems used_step [OF False] by (auto simp: pipe_ok_def)
    from Suc.IH [OF this] show ?thesis using False contents_step [OF False] by (auto simp: Let_def)
  qed
qed simp

lemma full_iff: "pipe_ok x \<Longrightarrow> write_pos x = read_pos x + PIPE_SIZE \<longleftrightarrow> used x = 4096"
proof
  assume "write_pos x = read_pos x + PIPE_SIZE"
  then show "used x = 4096" by (simp add: used_def PIPE_SIZE_def)
next
  assume "used x = 4096"
  then have "write_pos x - read_pos x = PIPE_SIZE" by (simp add: used_def PIPE_SIZE_def word_unat_eq_iff)
  then show "write_pos x = read_pos x + PIPE_SIZE" by (simp add: algebra_simps)
qed

text \<open>One byte into a ring with room.\<close>

definition pipe_push :: "u8 \<Rightarrow> pipe \<Rightarrow> pipe" where
  "pipe_push b x = x\<lparr>pp_buffer := (pp_buffer x)[unat (write_pos x mod PIPE_SIZE) := b], write_pos := write_pos x + 1\<rparr>"

lemma pipe_push_contents:
  assumes ok: "pipe_ok x" and room: "used x < 4096"
  shows "pipe_contents (pipe_push b x) = pipe_contents x @ [b]" and "used (pipe_push b x) = used x + 1" and "pipe_ok (pipe_push b x)"
proof -
  let ?y = "pipe_push b x"
  have "used ?y = unat (write_pos x + 1 - read_pos x)" by (simp add: used_def pipe_push_def)
  also have "write_pos x + 1 - read_pos x = (write_pos x - read_pos x) + 1" by (simp only: diff_conv_add_uminus ac_simps)
  also have "unat (write_pos x - read_pos x + 1) = used x + 1"
    using room unat_add_no_wrap [of "write_pos x - read_pos x" 1] by (simp add: used_def)
  finally show u: "used ?y = used x + 1" .
  show "pipe_ok ?y" using ok room u by (simp add: pipe_ok_def pipe_push_def)
  have len: "length (pp_buffer x) = 4096" using ok by (simp add: pipe_ok_def)
  have w: "unat (write_pos x mod PIPE_SIZE) = (unat (read_pos x) + used x) mod 4096"
  proof -
    have "write_pos x = read_pos x + of_nat (used x)" by (simp add: used_def)
    then show ?thesis by (metis unat_mod_size unat_add_mod_size)
  qed
  have old: "ring_at ?y i = ring_at x i" if "i < used x" for i
  proof -
    have "(unat (read_pos x) + i) mod 4096 \<noteq> (unat (read_pos x) + used x) mod 4096"
    proof
      assume "(unat (read_pos x) + i) mod 4096 = (unat (read_pos x) + used x) mod 4096"
      then have "(4096 :: nat) dvd used x - i" using that by (metis add_le_cancel_left diff_add_inverse less_imp_le mod_eq_dvd_iff_nat nat_diff_add_eq1 add_diff_cancel_left)
      then show False using that room by (auto dest: dvd_imp_le)
    qed
    then show ?thesis by (simp add: ring_at_def pipe_push_def w)
  qed
  have new: "ring_at ?y (used x) = b" using len by (simp add: ring_at_def pipe_push_def w)
  have "pipe_contents ?y = map (ring_at ?y) [0..<used x] @ [ring_at ?y (used x)]"
    by (simp add: pipe_contents_def u)
  then show "pipe_contents ?y = pipe_contents x @ [b]" using old new by (simp add: pipe_contents_def)
qed

subsection \<open>Properties\<close>

lemma put_pipe_simps [simp]: "pipes (put_pipe p x s) = (pipes s)(p \<mapsto> x)" "put_pipe p x (put_pipe p y s) = put_pipe p x s"
  by (simp_all add: put_pipe_def)

lemma wake_pipe_simps [simp]: "pipes (wake_pipe p q s) = pipes s"
  by (simp add: wake_pipe_def)

text \<open>A pipe between calls, and its bytes.\<close>

definition pipe_inv :: "ptr \<Rightarrow> ipc \<Rightarrow> bool" where
  "pipe_inv p s \<longleftrightarrow> (\<exists>x. pipes s p = Some x \<and> pipe_ok x \<and> \<not> pp_lock x)"

definition pipe_bytes :: "ptr \<Rightarrow> ipc \<Rightarrow> u8 list" where
  "pipe_bytes p s = (case pipes s p of None \<Rightarrow> [] | Some x \<Rightarrow> pipe_contents x)"

lemma contents_lock [simp]: "pipe_contents (x\<lparr>pp_lock := b\<rparr>) = pipe_contents x" "pipe_ok (x\<lparr>pp_lock := b\<rparr>) = pipe_ok x"
  "used (x\<lparr>pp_lock := b\<rparr>) = used x"
  by (simp_all add: pipe_contents_def ring_at_def [abs_def] used_def pipe_ok_def)

lemma pipe_read_data:
  assumes inv: "pipe_inv p s" and data: "pipe_bytes p s \<noteq> []"
  shows "\<exists>s'. pipe_read E p count nonblock s =
      Some (int (length (take (unat count) (pipe_bytes p s))), take (unat count) (pipe_bytes p s), s') \<and>
    pipe_bytes p s' = drop (unat count) (pipe_bytes p s) \<and> pipe_inv p s'"
proof -
  obtain x where x: "pipes s p = Some x" "pipe_ok x" "\<not> pp_lock x" using inv by (auto simp: pipe_inv_def)
  let ?x = "x\<lparr>pp_lock := True\<rparr>"
  have c: "pipe_bytes p s = pipe_contents x" using x by (simp add: pipe_bytes_def)
  have ne: "read_pos x \<noteq> write_pos x" using data c used_zero [of x] by (auto simp: pipe_contents_def)
  have lock: "lock_pipe p s = Some (put_pipe p ?x s)" using x by (simp add: lock_pipe_def)
  have wait: "pipe_read_wait E p nonblock (put_pipe p ?x s) = Some (None, put_pipe p ?x s)"
    using ne by (subst pipe_read_wait.simps) simp
  obtain y where y: "pipe_take (unat count) ?x = (take (unat count) (pipe_contents x), y)"
      "pipe_contents y = drop (unat count) (pipe_contents x)" "pipe_ok y"
    using pipe_take_spec [of ?x "unat count"] x by auto
  show ?thesis using lock wait y c
    by (simp add: pipe_read_def unlock_pipe_def pipe_bytes_def pipe_inv_def)
qed

lemma pipe_put_room:
  "pipes s p = Some x \<Longrightarrow> pipe_ok x \<Longrightarrow> used x + length bs \<le> 4096 \<Longrightarrow>
   \<exists>y. pipe_put E p bs s = Some (True, put_pipe p y s) \<and> pipe_contents y = pipe_contents x @ bs \<and> pipe_ok y \<and> pp_lock y = pp_lock x"
proof (induction bs arbitrary: s x)
  case Nil
  then show ?case by (subst pipe_put.simps) (auto simp: put_pipe_def fun_upd_idem intro!: exI [of _ x])
next
  case (Cons b bs)
  have room: "used x < 4096" using Cons.prems(3) by simp
  note push = pipe_push_contents [OF Cons.prems(2) room, of b]
  have nf: "write_pos x \<noteq> read_pos x + PIPE_SIZE" using full_iff [OF Cons.prems(2)] room by simp
  have "pipes (put_pipe p (pipe_push b x) s) p = Some (pipe_push b x)" by simp
  from Cons.IH [OF this push(3)] push Cons.prems(3)
  obtain y where y: "pipe_put E p bs (put_pipe p (pipe_push b x) s) = Some (True, put_pipe p y (put_pipe p (pipe_push b x) s))"
      "pipe_contents y = pipe_contents (pipe_push b x) @ bs" "pipe_ok y" "pp_lock y = pp_lock (pipe_push b x)" by auto
  have "pipe_put E p (b # bs) s = pipe_put E p bs (put_pipe p (pipe_push b x) s)"
    using nf Cons.prems(1) by (subst pipe_put.simps) (simp add: pipe_push_def Let_def)
  then show ?case using y push by (auto simp: pipe_push_def)
qed

lemma pipe_write_room:
  assumes inv: "pipe_inv p s" and room: "length (pipe_bytes p s) + length bs \<le> 4096"
    and open_end: "\<forall>x. pipes s p = Some x \<longrightarrow> \<not> (check_ends x = 1 \<and> nreadfds x = 0)"
  shows "\<exists>s'. pipe_write E p bs s = Some (int (length bs), s') \<and> pipe_bytes p s' = pipe_bytes p s @ bs \<and> pipe_inv p s' \<and>
    (p, readb) \<in> set (woken_queues s')"
proof -
  obtain x where x: "pipes s p = Some x" "pipe_ok x" "\<not> pp_lock x" using inv by (auto simp: pipe_inv_def)
  let ?x = "x\<lparr>pp_lock := True\<rparr>"
  have "used ?x + length bs \<le> 4096" using room x by (simp add: pipe_bytes_def)
  then obtain y where y: "pipe_put E p bs (put_pipe p ?x s) = Some (True, put_pipe p y s)"
      "pipe_contents y = pipe_contents x @ bs" "pipe_ok y"
    using pipe_put_room [of "put_pipe p ?x s" p ?x bs E] x by auto
  have "\<not> (check_ends x = 1 \<and> nreadfds x = 0)" using open_end x by blast
  then show ?thesis using x y
    by (simp add: pipe_write_def lock_pipe_def unlock_pipe_def pipe_bytes_def pipe_inv_def) (simp add: put_pipe_def wake_pipe_def)
qed

text \<open>Reading at most a page at a time, as a client of the stream.\<close>

definition pipe_get :: "sleeper \<Rightarrow> ptr \<Rightarrow> nat \<Rightarrow> ipc \<Rightarrow> (u8 list \<times> ipc) option" where
  "pipe_get E p n s = map_option (\<lambda>(rc, bs, s). (bs, s)) (pipe_read E p (of_nat (min n 4096)) 0 s)"

interpretation pipe_src: byte_source "pipe_inv p" "pipe_bytes p" "pipe_get E p" for E p
proof unfold_locales
  fix s n
  assume inv: "pipe_inv p s" and ne: "pipe_bytes p s \<noteq> []" and n: "0 < (n :: nat)"
  have u: "unat (of_nat (min n 4096) :: u64) = min n 4096" by (intro unat_of_nat_small) simp
  obtain s' where r: "pipe_get E p n s = Some (take (min n 4096) (pipe_bytes p s), s')"
      "pipe_bytes p s' = drop (min n 4096) (pipe_bytes p s)" "pipe_inv p s'"
    using pipe_read_data [OF inv ne, of E "of_nat (min n 4096)" 0] unfolding u pipe_get_def by auto
  have "take (min n 4096) (pipe_bytes p s) @ pipe_bytes p s' = pipe_bytes p s" unfolding r(2) by (rule append_take_drop_id)
  moreover have "take (min n 4096) (pipe_bytes p s) \<noteq> []" "length (take (min n 4096) (pipe_bytes p s)) \<le> n" using n ne by auto
  ultimately show "\<exists>d s'. pipe_get E p n s = Some (d, s') \<and> pipe_bytes p s = d @ pipe_bytes p s' \<and> d \<noteq> [] \<and> length d \<le> n \<and> pipe_inv p s'"
    using r by (intro exI [of _ "take (min n 4096) (pipe_bytes p s)"] exI [of _ s']) (simp del: take_eq_Nil length_take)
qed

text \<open>C6. A pipe is a queue of bytes: a write that fits returns without sleeping, wakes the readers and appends its bytes
  behind those already there, wherever the ring wraps and even where the position counters do; reading in pieces of any
  size then returns exactly the first \<open>n\<close> of all these bytes, in order.\<close>

theorem pipe_fifo:
  assumes "pipe_inv p s" and "length (pipe_bytes p s) + length bs \<le> 4096"
    and "\<forall>x. pipes s p = Some x \<longrightarrow> \<not> (check_ends x = 1 \<and> nreadfds x = 0)" and "n \<le> length (pipe_bytes p s @ bs)"
  shows "\<exists>s1 s2. pipe_write E p bs s = Some (int (length bs), s1) \<and> (p, readb) \<in> set (woken_queues s1) \<and>
    gather (pipe_get E' p) n n s1 = Some (take n (pipe_bytes p s @ bs), s2) \<and> pipe_bytes p s2 = drop n (pipe_bytes p s @ bs) \<and> pipe_inv p s2"
proof -
  obtain s1 where s1: "pipe_write E p bs s = Some (int (length bs), s1)" "pipe_bytes p s1 = pipe_bytes p s @ bs" "pipe_inv p s1"
      "(p, readb) \<in> set (woken_queues s1)"
    using pipe_write_room [OF assms(1-3), of E] by blast
  with pipe_src.gather_exact [of p s1 n n E'] assms(4) show ?thesis by auto
qed


text \<open>The waiting loop looks at \<open>nonblock\<close> only to compare it with 1.\<close>

lemma read_wait_mono:
  assumes "pipe_read_wait E p a s = Some r" and "a = 1 \<longleftrightarrow> b = 1"
  shows "pipe_read_wait E p b s = Some r"
proof -
  have "(a = 1 \<longleftrightarrow> b = 1) \<longrightarrow> pipe_read_wait E p b s = Some r"
  proof (rule pipe_read_wait.raw_induct [of "\<lambda>E p a s r. (a = 1 \<longleftrightarrow> b = 1) \<longrightarrow> pipe_read_wait E p b s = Some r", OF _ assms(1)], rule impI)
    fix f E p a s r
    assume 1: "\<And>E p a s r. f E p a s = Some r \<Longrightarrow> (a = 1 \<longleftrightarrow> b = 1) \<longrightarrow> pipe_read_wait E p b s = Some r"
      "(do {
         x \<leftarrow> pipes s p;
         if read_pos x \<noteq> write_pos x then Some (None, s)
         else if check_ends x = 1 \<and> nwritefds x = 0 then Some (Some Eof, s)
         else if a = 1 then Some (Some Nothing, s)
         else do {
           s \<leftarrow> unlock_pipe p s;
           let (sig, s) = E readb p s;
           if sig then Some (Some Interrupted, s)
           else do { s \<leftarrow> lock_pipe p s; f E p a s }
         }
       }) = Some r"
      "a = 1 \<longleftrightarrow> b = 1"
    from 1(2) obtain x where x: "pipes s p = Some x" by (auto split: bind_splits)
    show "pipe_read_wait E p b s = Some r"
    proof (cases "read_pos x \<noteq> write_pos x \<or> check_ends x = 1 \<and> nwritefds x = 0 \<or> a = 1")
      case True
      then show ?thesis using 1(2,3) x by (subst pipe_read_wait.simps) auto
    next
      case False
      obtain s1 where u: "unlock_pipe p s = Some s1" using x by (simp add: unlock_pipe_def)
      show ?thesis
      proof (cases "fst (E readb p s1)")
        case True
        then show ?thesis using False 1(2,3) x u by (subst pipe_read_wait.simps) (auto simp: case_prod_beta Let_def)
      next
        case sleep: False
        then obtain s2 where s2: "lock_pipe p (snd (E readb p s1)) = Some s2" "f E p a s2 = Some r"
          using False 1(2) x u by (auto simp: case_prod_beta Let_def split: bind_splits)
        from 1(1) [OF s2(2)] show ?thesis
          using False sleep 1(3) x u s2(1) by (subst pipe_read_wait.simps) (auto simp: case_prod_beta Let_def)
      qed
    qed
  qed
  then show ?thesis using assms(2) by blast
qed

lemma read_wait_flag: "(a = 1 \<longleftrightarrow> b = 1) \<Longrightarrow> pipe_read_wait E p a s = pipe_read_wait E p b s"
  using read_wait_mono [of E p a s _ b] read_wait_mono [of E p b s _ a]
  by (cases "pipe_read_wait E p a s"; cases "pipe_read_wait E p b s") auto

text \<open>C40. Non-blocking mode has no effect on reading from a pipe: whatever the flags of the file, the call behaves, and
  sleeps, like a blocking one.\<close>

theorem pipe_nonblock_ignored: "pipe_file_read E f count s = pipe_read E (pf_data f) count 0 s"
proof -
  let ?a = "pf_flags f AND FILE_FLAG_NONBLOCK"
  have "even ?a" by (simp add: FILE_FLAG_NONBLOCK_def even_and_iff)
  then have "?a \<noteq> 1" by auto
  then have "pipe_read_wait E p ?a t = pipe_read_wait E p 0 t" for p t by (intro read_wait_flag) simp
  then show ?thesis by (simp add: pipe_file_read_def pipe_read_def)
qed

subsection \<open>Witnesses\<close>

text \<open>A pipe whose ring is about to wrap, with two bytes in it.\<close>

definition sample_pipe :: pipe where
  "sample_pipe = \<lparr>pp_buffer = (replicate 4096 0)[4094 := 7, 4095 := 8], pp_page = 0x1000, ref_count = 2, pp_lock = False,
     write_pos = 4096, read_pos = 4094, check_ends = 1, nwritefds = 1, nreadfds = 1\<rparr>"

definition sample_ipc :: ipc where
  "sample_ipc = \<lparr>pipes = [0x10 \<mapsto> sample_pipe], inode_data = (\<lambda>_. NULL)(0x20 := 0x10), signals = [], woken_queues = []\<rparr>"

lemma sample_pipe_facts: "pipe_inv 0x10 sample_ipc" "pipe_bytes 0x10 sample_ipc = [7, 8]"
proof -
  have u: "used sample_pipe = 2" by (simp add: used_def sample_pipe_def)
  then show "pipe_inv 0x10 sample_ipc" by (simp add: pipe_inv_def sample_ipc_def pipe_ok_def) (simp add: sample_pipe_def)
  have "[0..<2] = [0, 1 :: nat]" by (simp add: upt_rec)
  then show "pipe_bytes 0x10 sample_ipc = [7, 8]"
    by (simp add: pipe_bytes_def sample_ipc_def pipe_contents_def u) (simp add: ring_at_def sample_pipe_def)
qed

theorem pipe_fifo_witness:
  "\<exists>s1 s2. pipe_write (\<lambda>_ _ s. (False, s)) 0x10 [1, 2, 3] sample_ipc = Some (3, s1) \<and>
    gather (pipe_get (\<lambda>_ _ s. (False, s)) 0x10) 4 4 s1 = Some ([7, 8, 1, 2], s2) \<and> pipe_bytes 0x10 s2 = [3]"
proof -
  have "\<forall>x. pipes sample_ipc 0x10 = Some x \<longrightarrow> \<not> (check_ends x = 1 \<and> nreadfds x = 0)" by (simp add: sample_ipc_def sample_pipe_def)
  with pipe_fifo [OF sample_pipe_facts(1), of "[1, 2, 3]" 4 "\<lambda>_ _ s. (False, s)" "\<lambda>_ _ s. (False, s)"] sample_pipe_facts(2)
  show ?thesis by (auto simp: numeral_eq_Suc)
qed


end
