(* ===== verification/Spec2Isabelle.thy ===== *)
theory Spec2Isabelle
  imports Klist Kheap Ipstack Tcpconn Pipe
begin

text \<open>
  Verification library for the Kairax kernel.
\<close>

end
